(* ===== verification/Prelude.thy ===== *)
theory Prelude imports Main "HOL-Library.Word" begin

text \<open>
  Shared vocabulary of the development.

  \<^item> C++ failures as values: an exception that leaves a function (\<open>Throw\<close>) or an
    operation whose behaviour the standard leaves undefined (\<open>Undefined\<close>). An operation
    that can fail returns \<open>fault + 'a\<close>; because C++ does not roll state back when it
    throws, the state reached is returned beside that sum and not inside it.
  \<^item> Coroutine handles are numbers (the address of the frame); a null handle or pointer is
    \<open>None\<close>.
  \<^item> The run queue of \<^verbatim>\<open>asio::io_context\<close> as far as this library uses it:
    \<open>schedule_task\<close> (src/src/executor.cpp) posts a handle to it.
  \<^item> Lists of optional cells, the abstract content of \<^verbatim>\<open>lfqueue\<close>.
\<close>

section \<open>Collections of facts\<close>

named_theorems cell_simps \<open>equations on lists of queue cells\<close>
named_theorems comp_run \<open>running a computation in a state\<close>

section \<open>Failures\<close>

datatype exn =
    Runtime_error string
  | Invalid_argument string
  | Out_of_range string
  | Bad_optional_access
  | Bad_variant_access
  | System_error int
  | User_exn nat

datatype ub =
    Empty_option_deref
  | Null_deref
  | Use_after_free
  | Null_resume
  | Indeterminate_read
  | Destroy_running
  | Signed_overflow

datatype fault = Throw exn | Undefined ub

section \<open>Handles and the run queue\<close>

type_synonym handle = nat

record exec_ctx =
  in_exec :: bool
  posted :: "handle list"

text \<open>
  \<open>executor::schedule_task\<close> posts the handle to the executor's context; \<open>asio::post\<close> runs
  posted work in the order it was posted, hence the list. The assertions that the handle is
  neither null nor done are not modelled. \<open>detail::schedule_task\<close> throws when the calling thread
  has no executor (\<^verbatim>\<open>g_exec == nullptr\<close>).
\<close>

definition executor_schedule_task :: "handle \<Rightarrow> exec_ctx \<Rightarrow> exec_ctx" where
  [simp]: "executor_schedule_task h ex = ex\<lparr>posted := posted ex @ [h]\<rparr>"

definition schedule_task :: "handle \<Rightarrow> exec_ctx \<Rightarrow> (fault + unit) \<times> exec_ctx" where
  "schedule_task h ex =
     (if in_exec ex
      then (Inr (), executor_schedule_task h ex)
      else (Inl (Throw (Runtime_error ''attempt to execute async task outside of executor context'')), ex))"

lemma schedule_task_in [simp]:
  "in_exec ex \<Longrightarrow> schedule_task h ex = (Inr (), ex\<lparr>posted := posted ex @ [h]\<rparr>)"
  by (simp add: schedule_task_def)

lemma schedule_task_in_exec [simp]: "in_exec (snd (schedule_task h ex)) = in_exec ex"
  by (simp add: schedule_task_def)

lemma set_tlD: "x \<in> set (tl xs) \<Longrightarrow> x \<in> set xs"
  by (cases xs) auto

section \<open>Counting threads\<close>

text \<open>How the number of threads in some states changes when one thread moves.\<close>

lemma card_upd:
  assumes "finite {k. P (f k)}"
  shows "card {k. P ((f(i := x)) k)} + (if P (f i) then 1 else 0) =
         card {k. P (f k)} + (if P x then 1 else 0)"
proof (cases "P x")
  case True
  then have "{k. P ((f(i := x)) k)} = insert i {k. P (f k)}" by auto
  with assms True show ?thesis by (simp add: card_insert_if)
next
  case False
  then have "{k. P ((f(i := x)) k)} = {k. P (f k)} - {i}" by auto
  moreover have "P (f i) \<Longrightarrow> card {k. P (f k)} = Suc (card ({k. P (f k)} - {i}))"
    using card.remove [OF assms, of i] by simp
  moreover have "\<not> P (f i) \<Longrightarrow> {k. P (f k)} - {i} = {k. P (f k)}" by auto
  ultimately show ?thesis using False by auto
qed

section \<open>Queue cells\<close>

text \<open>
  A cell is \<open>Some x\<close> while it holds an element and \<open>None\<close> once the element was
  taken. \<open>vals\<close> are the elements held, oldest first.
\<close>

fun vals :: "'a option list \<Rightarrow> 'a list" where
  "vals [] = []"
| "vals (None # cs) = vals cs"
| "vals (Some x # cs) = x # vals cs"

lemma vals_append [simp]: "vals (cs @ ds) = vals cs @ vals ds"
  by (induction cs rule: vals.induct) auto

lemma vals_map_Some [simp]: "vals (map Some xs) = xs"
  by (induction xs) auto

lemma set_vals: "x \<in> set (vals cs) \<longleftrightarrow> Some x \<in> set cs"
  by (induction cs rule: vals.induct) auto

lemma vals_no_None: "None \<notin> set cs \<Longrightarrow> map Some (vals cs) = cs"
  by (induction cs rule: vals.induct) auto

lemma length_vals: "length (vals cs) \<le> length cs"
  by (induction cs rule: vals.induct) auto

text \<open>What one \<open>pop\<close> returns and leaves, on cells: the last cell is emptied but stays.\<close>

lemma vals_Cons: "vals (c # cs) = vals [c] @ vals cs"
  by (cases c) auto

fun cells_front :: "'a option list \<Rightarrow> 'a option" where
  "cells_front [] = None"
| "cells_front (c # cs) = c"

fun cells_rest :: "'a option list \<Rightarrow> 'a option list" where
  "cells_rest [] = []"
| "cells_rest [c] = [None]"
| "cells_rest (c # d # cs) = d # cs"

definition cells_wf :: "'a option list \<Rightarrow> bool" where
  "cells_wf cs \<longleftrightarrow> None \<notin> set (tl cs)"

lemma cells_wf_Nil [cell_simps]: "cells_wf []"
  by (simp add: cells_wf_def)

lemma cells_wf_Cons [cell_simps]: "cells_wf (c # cs) \<longleftrightarrow> None \<notin> set cs"
  by (simp add: cells_wf_def)

lemma cells_wf_second: "cells_wf (c # d # ds) \<Longrightarrow> \<exists>y. d = Some y"
  by (cases d) (simp_all add: cells_wf_def)

lemma cells_wf_snoc [cell_simps]: "cells_wf cs \<Longrightarrow> cells_wf (cs @ [Some x])"
  by (cases cs) (auto simp: cells_wf_def)

lemma cells_wf_rest [cell_simps]: "cells_wf cs \<Longrightarrow> cells_wf (cells_rest cs)"
  by (cases cs rule: cells_rest.cases) (auto simp: cells_wf_def)

lemma cells_front_Some:
  "cells_front cs = Some x \<Longrightarrow> vals cs = x # vals (cells_rest cs)"
  by (cases cs rule: cells_rest.cases) auto

lemma cells_front_None:
  "cells_front cs = None \<Longrightarrow> vals (cells_rest cs) = vals cs"
  by (cases cs rule: cells_rest.cases) auto

lemma cells_front_None_rest:
  assumes "cells_wf cs" and "cells_front cs = None" and "vals cs \<noteq> []"
  shows "cells_front (cells_rest cs) = Some (hd (vals cs))"
proof (cases cs rule: cells_rest.cases)
  case (3 c d ds)
  with assms cells_wf_second [of c d ds] obtain y where "c = None" and "d = Some y" by auto
  with 3 show ?thesis by simp
qed (use assms in auto)

section \<open>Computations\<close>

text \<open>
  A call that reads and changes a state and may fail. As in C++, the effects made before a
  failure stay. \<open>ret\<close>, \<open>fail\<close> and \<open>andthen\<close> are the value, the
  \<^verbatim>\<open>throw\<close> and the sequencing of such calls.
\<close>

type_synonym ('a, 'w) comp = "'w \<Rightarrow> (fault + 'a) \<times> 'w"

definition ret :: "'a \<Rightarrow> ('a, 'w) comp" where
  "ret x w = (Inr x, w)"

definition fail :: "fault \<Rightarrow> ('a, 'w) comp" where
  "fail e w = (Inl e, w)"

definition andthen :: "('a, 'w) comp \<Rightarrow> ('a \<Rightarrow> ('b, 'w) comp) \<Rightarrow> ('b, 'w) comp" where
  "andthen m f w = (case m w of (Inl e, w') \<Rightarrow> (Inl e, w') | (Inr x, w') \<Rightarrow> f x w')"

lemma andthen_ret [simp]: "andthen (ret x) f = f x" "andthen m ret = m"
  by (auto simp: fun_eq_iff andthen_def ret_def split: prod.splits sum.splits)

lemma andthen_fail [simp]: "andthen (fail e) f = fail e"
  by (simp add: fun_eq_iff andthen_def fail_def)

lemma andthen_assoc: "andthen (andthen m f) g = andthen m (\<lambda>x. andthen (f x) g)"
  by (auto simp: fun_eq_iff andthen_def split: prod.splits sum.splits)

lemma andthen_Inl: "m w = (Inl e, w') \<Longrightarrow> andthen m f w = (Inl e, w')"
  by (simp add: andthen_def)

lemma andthen_Inr: "m w = (Inr x, w') \<Longrightarrow> andthen m f w = f x w'"
  by (simp add: andthen_def)

lemma ret_apply [comp_run]: "ret x w = (Inr x, w)"
  by (simp add: ret_def)

lemma fail_apply [comp_run]: "fail e w = (Inl e, w)"
  by (simp add: fail_def)

text \<open>The same for calls that may not return: \<open>None\<close> is a call that never does.\<close>

type_synonym ('a, 'w) prog = "'w \<Rightarrow> ((fault + 'a) \<times> 'w) option"

definition pret :: "'a \<Rightarrow> ('a, 'w) prog" where
  "pret x w = Some (Inr x, w)"

definition pfail :: "fault \<Rightarrow> ('a, 'w) prog" where
  "pfail e w = Some (Inl e, w)"

definition pthen :: "('a, 'w) prog \<Rightarrow> ('a \<Rightarrow> ('b, 'w) prog) \<Rightarrow> ('b, 'w) prog" where
  "pthen m f w =
     (case m w of
        None \<Rightarrow> None
      | Some (r, w') \<Rightarrow> (case r of Inl e \<Rightarrow> Some (Inl e, w') | Inr x \<Rightarrow> f x w'))"

lemma pret_apply [comp_run]: "pret x w = Some (Inr x, w)"
  by (simp add: pret_def)

lemma pfail_apply [comp_run]: "pfail e w = Some (Inl e, w)"
  by (simp add: pfail_def)

lemma pthen_ret [simp]: "pthen (pret x) f = f x"
  by (simp add: fun_eq_iff pthen_def pret_def)

lemma pthen_fail [simp]: "pthen (pfail e) f = pfail e"
  by (simp add: fun_eq_iff pthen_def pfail_def)

lemma pthen_run [comp_run]:
  "m w = None \<Longrightarrow> pthen m f w = None"
  "m w = Some (Inl e, w') \<Longrightarrow> pthen m f w = Some (Inl e, w')"
  "m w = Some (Inr x, w') \<Longrightarrow> pthen m f w = f x w'"
  by (simp_all add: pthen_def)

lemma pthen_SomeE:
  assumes "pthen m f w = Some (r, w2)"
  obtains (stop) e where "m w = Some (Inl e, w2)" "r = Inl e"
  | (go) x w1 where "m w = Some (Inr x, w1)" "f x w1 = Some (r, w2)"
  using assms by (auto simp: pthen_def split: option.splits sum.splits prod.splits)

end
