(* ===== verification/Queue_Interface.thy ===== *)
theory Queue_Interface imports Prelude begin

text \<open>
  What the clients of \<^verbatim>\<open>lfqueue\<close> rely on. The queue of suspended tasks in
  \<^verbatim>\<open>mutex\<close> and \<^verbatim>\<open>shared_mutex\<close>, of waiters in
  \<^verbatim>\<open>condition_variable\<close> and of blocking tasks in \<^verbatim>\<open>executor\<close> is used through
  \<open>push\<close> and \<open>pop\<close> only. The laws speak of \<open>cells\<close>, because a queue that has been
  emptied keeps one empty cell, and the next \<open>pop\<close> after the next \<open>push\<close> reports
  that cell.
\<close>

section \<open>Client loops\<close>

text \<open>
  The loop \<^verbatim>\<open>for (;;) { pop; if it has a value, act on it; else break; }\<close> of
  src/src/shared_mutex.cpp and src/src/condition_variable.cpp. The action may throw, which
  leaves the loop. \<open>None\<close> is a loop that does not end.
\<close>

partial_function (option) drain_with ::
    "('q \<Rightarrow> 'a option \<times> 'q) \<Rightarrow> ('a \<Rightarrow> 'w \<Rightarrow> (fault + unit) \<times> 'w) \<Rightarrow> 'q \<Rightarrow> 'w
       \<Rightarrow> ((fault + unit) \<times> 'q \<times> 'w) option" where
  "drain_with pop act q w =
     (case pop q of
        (None, q') \<Rightarrow> Some (Inr (), q', w)
      | (Some x, q') \<Rightarrow>
          (case act x w of
             (Inl f, w') \<Rightarrow> Some (Inl f, q', w')
           | (Inr _, w') \<Rightarrow> drain_with pop act q' w'))"

text \<open>The action on each element of a list, in order, up to the first failure.\<close>

fun act_all :: "('a \<Rightarrow> 'w \<Rightarrow> (fault + unit) \<times> 'w) \<Rightarrow> 'a list \<Rightarrow> 'w \<Rightarrow> (fault + unit) \<times> 'w" where
  "act_all act [] w = (Inr (), w)"
| "act_all act (x # xs) w =
     (case act x w of (Inl f, w') \<Rightarrow> (Inl f, w') | (Inr _, w') \<Rightarrow> act_all act xs w')"

lemma act_all_schedule [simp]:
  "in_exec ex \<Longrightarrow> act_all schedule_task hs ex = (Inr (), ex\<lparr>posted := posted ex @ hs\<rparr>)"
  by (induction hs arbitrary: ex) auto

text \<open>A client's history: pushes and pops, with the values the pops delivered.\<close>

datatype 'a qop = Q_push 'a | Q_pop

fun run_qops :: "('a \<Rightarrow> 'q \<Rightarrow> 'q) \<Rightarrow> ('q \<Rightarrow> 'a option \<times> 'q) \<Rightarrow> 'a qop list \<Rightarrow> 'q \<Rightarrow> 'a option list \<times> 'q" where
  "run_qops push pop [] q = ([], q)"
| "run_qops push pop (Q_push x # ops) q = run_qops push pop ops (push x q)"
| "run_qops push pop (Q_pop # ops) q =
     (let (r, q1) = pop q; (rs, q2) = run_qops push pop ops q1 in (r # rs, q2))"

fun pushed :: "'a qop list \<Rightarrow> 'a list" where
  "pushed [] = []"
| "pushed (Q_push x # ops) = x # pushed ops"
| "pushed (Q_pop # ops) = pushed ops"

section \<open>The contract\<close>

locale cell_queue =
  fixes empty :: "'q"
    and push :: "'a \<Rightarrow> 'q \<Rightarrow> 'q"
    and pop :: "'q \<Rightarrow> 'a option \<times> 'q"
    and cells :: "'q \<Rightarrow> 'a option list"
    and ok :: "'q \<Rightarrow> bool"
  assumes ok_empty: "ok empty"
    and ok_push: "ok q \<Longrightarrow> ok (push x q)"
    and ok_pop: "ok q \<Longrightarrow> ok (snd (pop q))"
    and cells_empty: "cells empty = []"
    and cells_push: "ok q \<Longrightarrow> cells (push x q) = cells q @ [Some x]"
    and pop_front: "ok q \<Longrightarrow> fst (pop q) = cells_front (cells q)"
    and pop_rest: "ok q \<Longrightarrow> cells (snd (pop q)) = cells_rest (cells q)"
    and ok_wf: "ok q \<Longrightarrow> cells_wf (cells q)"
begin

lemmas laws = ok_empty ok_push ok_pop cells_empty cells_push pop_front pop_rest ok_wf

lemma popE:
  assumes "ok q"
  obtains q' where "pop q = (cells_front (cells q), q')" "ok q'" "cells q' = cells_rest (cells q)"
proof (rule that)
  show "pop q = (cells_front (cells q), snd (pop q))"
    by (simp add: pop_front [OF assms, symmetric])
qed (simp_all add: assms ok_pop pop_rest)

lemma popD:
  assumes "ok q" and "pop q = (r, q')"
  shows "r = cells_front (cells q)" and "cells q' = cells_rest (cells q)" and "ok q'"
  using pop_front [OF assms(1)] pop_rest [OF assms(1)] ok_pop [OF assms(1)] assms(2) by simp_all

lemma pop_SomeD:
  assumes "ok q" and "pop q = (Some x, q')"
  shows "vals (cells q) = x # vals (cells q')" and "ok q'"
proof -
  from assms have "cells_front (cells q) = Some x" and "cells q' = cells_rest (cells q)"
    using pop_front pop_rest by force+
  then show "vals (cells q) = x # vals (cells q')" by (simp add: cells_front_Some)
  show "ok q'" using ok_pop [OF assms(1)] assms(2) by simp
qed

lemma pop_NoneD:
  assumes "ok q" and "pop q = (None, q')"
  shows "vals (cells q') = vals (cells q)" and "ok q'"
proof -
  from assms have "cells_front (cells q) = None" and "cells q' = cells_rest (cells q)"
    using pop_front pop_rest by force+
  then show "vals (cells q') = vals (cells q)" by (simp add: cells_front_None)
  show "ok q'" using ok_pop [OF assms(1)] assms(2) by simp
qed

lemma pop_vals:
  assumes "ok q" shows "vals [fst (pop q)] @ vals (cells (snd (pop q))) = vals (cells q)"
proof (cases "fst (pop q)")
  case None
  then show ?thesis using pop_NoneD(1) [OF assms, of "snd (pop q)"] by (simp add: prod_eq_iff)
next
  case (Some x)
  then show ?thesis using pop_SomeD(1) [OF assms, of x "snd (pop q)"] by (simp add: prod_eq_iff)
qed

lemma second_pop:
  assumes "ok q" and "vals (cells q) \<noteq> []" and "pop q = (None, q')"
  shows "fst (pop q') = Some (hd (vals (cells q)))"
proof -
  have "ok q'" and "cells q' = cells_rest (cells q)" and "cells_front (cells q) = None"
    using ok_pop [OF assms(1)] pop_rest [OF assms(1)] pop_front [OF assms(1)] assms(3) by simp_all
  with assms show ?thesis by (simp add: pop_front cells_front_None_rest ok_wf)
qed

lemma run_qops_pop:
  "snd (run_qops push pop (Q_pop # ops) q) = snd (run_qops push pop ops (snd (pop q)))"
  "fst (run_qops push pop (Q_pop # ops) q) = fst (pop q) # fst (run_qops push pop ops (snd (pop q)))"
  by (simp_all add: case_prod_beta Let_def)

lemma run_qops_ok: "ok q \<Longrightarrow> ok (snd (run_qops push pop ops q))"
proof (induction ops arbitrary: q)
  case (Cons op ops)
  then show ?case
    by (cases op) (simp_all only: run_qops_pop run_qops.simps(2) ok_push ok_pop)
qed simp

lemma run_qops_fifo:
  "ok q \<Longrightarrow> vals (fst (run_qops push pop ops q)) @ vals (cells (snd (run_qops push pop ops q)))
     = vals (cells q) @ pushed ops"
proof (induction ops arbitrary: q)
  case (Cons op ops)
  show ?case
  proof (cases op)
    case (Q_push x)
    with Cons.IH [OF ok_push] Cons.prems show ?thesis by (simp add: cells_push)
  next
    case Q_pop
    let ?q1 = "snd (pop q)" and ?c = "fst (pop q)"
    have "vals (?c # fst (run_qops push pop ops ?q1)) @ vals (cells (snd (run_qops push pop ops ?q1)))
          = vals [?c] @ vals (cells ?q1) @ pushed ops"
      by (subst vals_Cons) (simp add: Cons.IH [OF ok_pop [OF Cons.prems]] del: vals.simps)
    then show ?thesis
      unfolding Q_pop run_qops_pop pushed.simps pop_vals [OF Cons.prems, symmetric] by simp
  qed
qed simp

text \<open>
  The drain loop ends, and it delivers either everything (first cell full) or nothing
  (first cell empty).
\<close>

lemma drain_front_None:
  assumes "ok q" and "cells_front (cells q) = None"
  shows "drain_with pop act q w = Some (Inr (), snd (pop q), w)"
  by (rule popE [OF assms(1)], subst drain_with.simps) (simp add: assms(2))

lemma drain_front_Some:
  assumes "ok q" and "cells_front (cells q) \<noteq> None" and "act_all act (vals (cells q)) w = (Inr (), w')"
  shows "\<exists>q'. drain_with pop act q w = Some (Inr (), q', w') \<and> ok q' \<and> cells q' = [None]"
  using assms
proof (induction "length (cells q)" arbitrary: q w rule: less_induct)
  case less
  from less.prems(2) obtain x where front: "cells_front (cells q) = Some x" by blast
  from less.prems(1) obtain q1 where pop: "pop q = (Some x, q1)" and ok: "ok q1"
    and rest: "cells q1 = cells_rest (cells q)"
    using front by (auto intro: popE)
  from less.prems(3) cells_front_Some [OF front] rest obtain w1
    where act: "act x w = (Inr (), w1)" and all: "act_all act (vals (cells q1)) w1 = (Inr (), w')"
    by (auto split: prod.splits sum.splits)
  have step: "drain_with pop act q w = drain_with pop act q1 w1"
    using pop act by (subst drain_with.simps) simp
  show ?case
  proof (cases "cells q" rule: cells_rest.cases)
    case 1
    with front show ?thesis by simp
  next
    case (2 c)
    with rest have c1: "cells q1 = [None]" by simp
    with ok obtain q2 where "pop q1 = (None, q2)" "ok q2" "cells q2 = [None]"
      by (auto intro: popE)
    with c1 ok all step drain_front_None [of q1 act w1] show ?thesis by auto
  next
    case (3 c d ds)
    with ok_wf [OF less.prems(1)] have "\<exists>y. d = Some y" by (metis cells_wf_second)
    with 3 rest have "length (cells q1) < length (cells q)" and "cells_front (cells q1) \<noteq> None"
      by auto
    from less.hyps [OF this(1) ok this(2) all] step show ?thesis by simp
  qed
qed

lemma drain_returns:
  assumes "ok q" and "\<And>x w. isl (fst (act x w)) = False"
  shows "\<exists>q' w'. drain_with pop act q w = Some (Inr (), q', w') \<and> ok q'"
proof (cases "cells_front (cells q)")
  case None
  with assms(1) show ?thesis by (simp add: drain_front_None ok_pop)
next
  case (Some x)
  have "\<exists>w'. act_all act xs w = (Inr (), w')" for xs
  proof (induction xs arbitrary: w)
    case (Cons x xs)
    from assms(2) [of x w] show ?case using Cons.IH by (auto split: prod.splits sum.splits)
  qed auto
  with drain_front_Some [OF assms(1), of act w] Some show ?thesis by blast
qed

end

end
