(* ===== verification/Lfqueue.thy ===== *)
theory Lfqueue imports Queue_Interface begin

text \<open>
  \<^verbatim>\<open>crasy::lfqueue<T>\<close> (src/include/crasy/lfqueue.hpp), run by one thread at a time.

  Entries live in a heap of addresses; \<open>lf_head\<close> is the newest entry, \<open>lf_tail\<close> the
  oldest, \<open>lf_free\<close> the list of recycled entries. \<open>new entry_t\<close> takes the next
  unused address. An entry has its flag \<^verbatim>\<open>has_value\<close> and its storage (for a queue of references the
  flag says that the pointer is set); its data is what is stored while the flag is set. Each
  \<^verbatim>\<open>compare_exchange\<close> loop is one pass here, because without interference the
  exchange compares with the value just loaded.
\<close>

section \<open>Entries\<close>

type_synonym addr = nat

record 'a entry =
  e_has :: bool
  e_value :: "'a option"      \<comment> \<open>the storage, \<open>None\<close> before anything was put there\<close>
  e_next :: "addr option"

definition empty_entry :: "'a entry" where
  "empty_entry = \<lparr>e_has = False, e_value = None, e_next = None\<rparr>"

definition e_data :: "'a entry \<Rightarrow> 'a option" where
  "e_data e = (if e_has e then e_value e else None)"

definition put_data :: "'a \<Rightarrow> 'a entry \<Rightarrow> 'a entry" where
  "put_data x e = e\<lparr>e_value := Some x, e_has := True\<rparr>"

text \<open>Taking the data resets the flag; the storage keeps what was moved out of it.\<close>

definition take_data :: "'a entry \<Rightarrow> 'a option \<times> 'a entry" where
  "take_data e = (if e_has e then (e_value e, e\<lparr>e_has := False\<rparr>) else (None, e))"

lemma e_data_simps [simp]:
  "e_data (e\<lparr>e_has := b\<rparr>) = (if b then e_value e else None)"
  "e_data (e\<lparr>e_value := v\<rparr>) = (if e_has e then v else None)"
  "e_data (e\<lparr>e_next := p\<rparr>) = e_data e"
  "e_data \<lparr>e_has = b, e_value = v, e_next = p\<rparr> = (if b then v else None)"
  by (simp_all add: e_data_def)

lemma take_data_simps [simp]:
  "fst (take_data e) = e_data e" "e_data (snd (take_data e)) = None" "e_next (snd (take_data e)) = e_next e"
  by (simp_all add: take_data_def e_data_def)

section \<open>The queue\<close>

record 'a lfqueue =
  lf_heap :: "addr \<Rightarrow> 'a entry"
  lf_fresh :: addr
  lf_head :: "addr option"
  lf_tail :: "addr option"
  lf_free :: "addr option"

definition upd_entry :: "addr \<Rightarrow> ('a entry \<Rightarrow> 'a entry) \<Rightarrow> 'a lfqueue \<Rightarrow> 'a lfqueue" where
  "upd_entry a f q = q\<lparr>lf_heap := (lf_heap q)(a := f (lf_heap q a))\<rparr>"

definition alloc_entry :: "'a lfqueue \<Rightarrow> addr \<times> 'a lfqueue" where
  "alloc_entry q =
     (lf_fresh q, q\<lparr>lf_heap := (lf_heap q)(lf_fresh q := empty_entry),
                    lf_fresh := Suc (lf_fresh q)\<rparr>)"

definition lfq_empty :: "'a lfqueue" where
  "lfq_empty = \<lparr>lf_heap = (\<lambda>_. empty_entry), lf_fresh = 0,
                lf_head = None, lf_tail = None, lf_free = None\<rparr>"

definition del_entry :: "addr \<Rightarrow> 'a lfqueue \<Rightarrow> 'a lfqueue" where
  "del_entry a q =
     (let nxt = lf_free q;
          q1 = upd_entry a (\<lambda>e. e\<lparr>e_next := nxt\<rparr>) q
      in q1\<lparr>lf_free := Some a\<rparr>)"

definition new_entry :: "'a lfqueue \<Rightarrow> addr \<times> 'a lfqueue" where
  "new_entry q =
     (case lf_free q of
        None \<Rightarrow> alloc_entry q
      | Some a \<Rightarrow>
          (let nxt = e_next (lf_heap q a);
               q1 = q\<lparr>lf_free := nxt\<rparr>
           in (a, upd_entry a (\<lambda>e. e\<lparr>e_next := None\<rparr>) q1)))"

definition push :: "'a \<Rightarrow> 'a lfqueue \<Rightarrow> 'a lfqueue" where
  "push x q =
     (let (a, q1) = new_entry q;
          q2 = upd_entry a (put_data x) q1;
          old = lf_head q2;
          q3 = q2\<lparr>lf_head := Some a\<rparr>
      in case old of
           None \<Rightarrow> q3\<lparr>lf_tail := Some a\<rparr>
         | Some h \<Rightarrow> upd_entry h (\<lambda>e. e\<lparr>e_next := Some a\<rparr>) q3)"

definition pop :: "'a lfqueue \<Rightarrow> 'a option \<times> 'a lfqueue" where
  "pop q =
     (case lf_tail q of
        None \<Rightarrow> (None, q)
      | Some t \<Rightarrow>
          (let nxt = e_next (lf_heap q t);
               q1 = q\<lparr>lf_tail := nxt\<rparr>;
               (ret, e) = take_data (lf_heap q1 t);
               q2 = upd_entry t (\<lambda>_. e) q1
           in case nxt of
                None \<Rightarrow> (ret, q2\<lparr>lf_tail := Some t\<rparr>)
              | Some _ \<Rightarrow> (ret, del_entry t q2)))"

text \<open>The constructor with an initial capacity builds a free list of that many entries.\<close>

fun prealloc :: "nat \<Rightarrow> addr \<Rightarrow> 'a lfqueue \<Rightarrow> addr \<times> 'a lfqueue" where
  "prealloc 0 a q = (a, q)"
| "prealloc (Suc n) a q =
     (let (tmp, q1) = alloc_entry q
      in prealloc n tmp (upd_entry tmp (\<lambda>e. e\<lparr>e_next := Some a\<rparr>) q1))"

definition lfq_with_capacity :: "nat \<Rightarrow> 'a lfqueue" where
  "lfq_with_capacity n =
     (if n > 0 then
        (let (a, q1) = alloc_entry lfq_empty;
             (b, q2) = prealloc (n - 1) a q1
         in q2\<lparr>lf_free := Some b\<rparr>)
      else lfq_empty)"

text \<open>
  The destructor deletes the chain from \<^verbatim>\<open>tail_\<close>, then the chain from
  \<^verbatim>\<open>free_\<close>; the result lists the deleted addresses in order. A cyclic chain
  would never end, which is the value \<open>None\<close>.
\<close>

partial_function (option) delete_chain ::
    "(addr \<Rightarrow> 'a entry) \<Rightarrow> addr option \<Rightarrow> addr list \<Rightarrow> addr list option" where
  "delete_chain h p acc =
     (case p of
        None \<Rightarrow> Some acc
      | Some a \<Rightarrow> delete_chain h (e_next (h a)) (acc @ [a]))"

definition lfq_destroy :: "'a lfqueue \<Rightarrow> addr list option" where
  "lfq_destroy q =
     (case delete_chain (lf_heap q) (lf_tail q) [] of
        None \<Rightarrow> None
      | Some ds \<Rightarrow> delete_chain (lf_heap q) (lf_free q) ds)"

section \<open>Chains of entries\<close>

fun chain :: "(addr \<Rightarrow> 'a entry) \<Rightarrow> addr option \<Rightarrow> addr list \<Rightarrow> bool" where
  "chain h p [] = (p = None)"
| "chain h p (a # as) = (p = Some a \<and> chain h (e_next (h a)) as)"

fun walk :: "nat \<Rightarrow> (addr \<Rightarrow> 'a entry) \<Rightarrow> addr option \<Rightarrow> addr list" where
  "walk 0 h p = []"
| "walk (Suc n) h None = []"
| "walk (Suc n) h (Some a) = a # walk n h (e_next (h a))"

lemma chain_upd [simp]:
  "a \<notin> set as \<Longrightarrow> chain (h(a := e)) p as = chain h p as"
  by (induction as arbitrary: p) auto

lemma chain_last:
  "chain h p (as @ [a]) \<Longrightarrow> e_next (h a) = None"
  by (induction as arbitrary: p) auto

lemma chain_snoc:
  assumes "chain h p (as @ [a])" and "distinct (as @ [a, b])" and "e_next e = Some b"
    and "e_next (h b) = None"
  shows "chain (h(a := e)) p (as @ [a, b])"
  using assms by (induction as arbitrary: p) auto

lemma chain_walk: "chain h p as \<Longrightarrow> length as \<le> n \<Longrightarrow> walk n h p = as"
proof (induction as arbitrary: n p)
  case Nil
  then show ?case by (cases n) auto
next
  case (Cons a as)
  then show ?case by (cases n) auto
qed

lemma delete_chain_chain:
  "chain h p as \<Longrightarrow> delete_chain h p acc = Some (acc @ as)"
  by (induction as arbitrary: p acc) (simp_all add: delete_chain.simps)

section \<open>The invariant and the abstract content\<close>

text \<open>
  \<open>lfq_rep q as fs\<close>: \<open>as\<close> are the entries from tail to head, \<open>fs\<close> the free
  list; together they are all the entries ever allocated, each once; only the oldest live
  entry may be empty, and no free entry holds data.
\<close>

definition lfq_rep :: "'a lfqueue \<Rightarrow> addr list \<Rightarrow> addr list \<Rightarrow> bool" where
  "lfq_rep q as fs \<longleftrightarrow>
     chain (lf_heap q) (lf_tail q) as \<and>
     chain (lf_heap q) (lf_free q) fs \<and>
     distinct (as @ fs) \<and>
     set (as @ fs) = {..<lf_fresh q} \<and>
     lf_head q = (if as = [] then None else Some (last as)) \<and>
     (\<forall>a \<in> set (tl as). e_data (lf_heap q a) \<noteq> None) \<and>
     (\<forall>a \<in> set fs. e_data (lf_heap q a) = None)"

definition lfq_ok :: "'a lfqueue \<Rightarrow> bool" where
  "lfq_ok q \<longleftrightarrow> (\<exists>as fs. lfq_rep q as fs)"

definition cells :: "'a lfqueue \<Rightarrow> 'a option list" where
  "cells q = map (\<lambda>a. e_data (lf_heap q a)) (walk (lf_fresh q) (lf_heap q) (lf_tail q))"

lemma lfq_rep_length: "lfq_rep q as fs \<Longrightarrow> length as + length fs = lf_fresh q"
proof -
  assume "lfq_rep q as fs"
  then have "distinct (as @ fs)" and "set (as @ fs) = {..<lf_fresh q}"
    by (simp_all add: lfq_rep_def)
  then have "length (as @ fs) = card {..<lf_fresh q}"
    by (metis distinct_card)
  then show ?thesis by simp
qed

lemma lfq_rep_cells:
  "lfq_rep q as fs \<Longrightarrow> cells q = map (\<lambda>a. e_data (lf_heap q a)) as"
  using lfq_rep_length [of q as fs]
  by (auto simp: cells_def lfq_rep_def chain_walk)


lemma lfq_okI: "lfq_rep q as fs \<Longrightarrow> lfq_ok q"
  by (auto simp: lfq_ok_def)

lemma lfq_ok_empty: "lfq_ok lfq_empty"
  by (rule lfq_okI [of _ "[]" "[]"]) (simp add: lfq_rep_def lfq_empty_def)

lemma cells_empty: "cells lfq_empty = []"
  by (simp add: cells_def lfq_empty_def)

lemma lfq_ok_cells_wf: "lfq_ok q \<Longrightarrow> cells_wf (cells q)"
proof -
  assume "lfq_ok q"
  then obtain as fs where r: "lfq_rep q as fs" by (auto simp: lfq_ok_def)
  then have "\<forall>a \<in> set (tl as). e_data (lf_heap q a) \<noteq> None"
    by (simp add: lfq_rep_def)
  with r show ?thesis
    by (cases as) (force simp: lfq_rep_cells cells_wf_def image_iff)+
qed

section \<open>The operations keep the invariant\<close>

text \<open>Between \<open>new_entry\<close> and the exchange on \<^verbatim>\<open>head_\<close> one entry belongs to no list.\<close>

definition lfq_mid :: "'a lfqueue \<Rightarrow> addr \<Rightarrow> addr list \<Rightarrow> addr list \<Rightarrow> bool" where
  "lfq_mid q a as fs \<longleftrightarrow>
     e_next (lf_heap q a) = None \<and> e_data (lf_heap q a) = None \<and>
     chain (lf_heap q) (lf_tail q) as \<and>
     chain (lf_heap q) (lf_free q) fs \<and>
     distinct (a # as @ fs) \<and>
     set (a # as @ fs) = {..<lf_fresh q} \<and>
     lf_head q = (if as = [] then None else Some (last as)) \<and>
     (\<forall>b \<in> set (tl as). e_data (lf_heap q b) \<noteq> None) \<and>
     (\<forall>b \<in> set fs. e_data (lf_heap q b) = None)"

lemma new_entry_rep:
  assumes "lfq_rep q as fs"
  shows "\<exists>a q1. new_entry q = (a, q1) \<and> lfq_mid q1 a as (tl fs) \<and>
           (\<forall>b \<in> set as. lf_heap q1 b = lf_heap q b)"
proof (cases fs)
  case Nil
  with assms have free: "lf_free q = None" and bound: "set as = {..<lf_fresh q}"
    by (auto simp: lfq_rep_def)
  from bound have "lf_fresh q \<notin> set as" and "\<forall>b \<in> set (tl as). b \<noteq> lf_fresh q"
    by (auto dest: set_tlD)
  with assms Nil free bound show ?thesis
    by (auto simp: new_entry_def alloc_entry_def lfq_mid_def lfq_rep_def empty_entry_def
        lessThan_Suc)
next
  case (Cons a fs')
  with assms have free: "lf_free q = Some a" and notin: "a \<notin> set as" "a \<notin> set fs'"
    by (auto simp: lfq_rep_def)
  then have "\<forall>b \<in> set (tl as). b \<noteq> a" by (auto dest: set_tlD)
  with assms Cons free notin show ?thesis
    by (auto simp: new_entry_def upd_entry_def lfq_mid_def lfq_rep_def)
qed


text \<open>The second half of \<open>push\<close>: data in, the new entry becomes the head and is linked.\<close>

definition link_entry :: "'a \<Rightarrow> addr \<Rightarrow> 'a lfqueue \<Rightarrow> 'a lfqueue" where
  "link_entry x a q =
     (let q2 = upd_entry a (put_data x) q;
          q3 = q2\<lparr>lf_head := Some a\<rparr>
      in case lf_head q2 of
           None \<Rightarrow> q3\<lparr>lf_tail := Some a\<rparr>
         | Some h \<Rightarrow> upd_entry h (\<lambda>e. e\<lparr>e_next := Some a\<rparr>) q3)"

lemma push_link: "push x q = (let (a, q1) = new_entry q in link_entry x a q1)"
  by (simp add: push_def link_entry_def Let_def split: prod.splits)

lemma link_entry_rep:
  assumes "lfq_mid q a as fs"
  shows "lfq_rep (link_entry x a q) (as @ [a]) fs"
    and "e_data (lf_heap (link_entry x a q) a) = Some x"
    and "b \<noteq> a \<Longrightarrow> e_data (lf_heap (link_entry x a q) b) = e_data (lf_heap q b)"
proof -
  note mid = assms [unfolded lfq_mid_def]
  show "lfq_rep (link_entry x a q) (as @ [a]) fs"
  proof (cases as rule: rev_cases)
    case Nil
    with mid show ?thesis
      by (auto simp: link_entry_def upd_entry_def put_data_def lfq_rep_def)
  next
    case (snoc bs b)
    let ?h = "(lf_heap q)(a := put_data x (lf_heap q a))"
    have ab: "a \<noteq> b" and dist: "distinct (bs @ [b, a])" using mid snoc by auto
    have "chain ?h (lf_tail q) (bs @ [b])" using mid snoc by auto
    then have "chain (?h(b := (?h b)\<lparr>e_next := Some a\<rparr>)) (lf_tail q) (bs @ [b, a])"
      using dist mid by (intro chain_snoc) (auto simp: put_data_def)
    moreover have "\<forall>c \<in> set (tl (bs @ [b])). c \<noteq> a" using dist by (auto dest: set_tlD)
    ultimately show ?thesis
      using mid snoc ab
      by (cases bs) (auto simp: link_entry_def upd_entry_def lfq_rep_def put_data_def)
  qed
  show "e_data (lf_heap (link_entry x a q) a) = Some x"
    using mid by (auto simp: link_entry_def upd_entry_def put_data_def split: option.splits)
  show "b \<noteq> a \<Longrightarrow> e_data (lf_heap (link_entry x a q) b) = e_data (lf_heap q b)"
    by (auto simp: link_entry_def upd_entry_def put_data_def Let_def split: option.splits)
qed

lemma push_rep:
  assumes "lfq_rep q as fs"
  shows "\<exists>a. lfq_rep (push x q) (as @ [a]) (tl fs) \<and>
           cells (push x q) = cells q @ [Some x]"
proof -
  from new_entry_rep [OF assms] obtain a q1
    where ne: "new_entry q = (a, q1)" and mid: "lfq_mid q1 a as (tl fs)"
      and same: "\<forall>b \<in> set as. lf_heap q1 b = lf_heap q b" by blast
  have p: "push x q = link_entry x a q1" by (simp add: push_link ne)
  have rep: "lfq_rep (push x q) (as @ [a]) (tl fs)"
    unfolding p by (rule link_entry_rep(1) [OF mid])
  have "a \<notin> set as" using mid by (simp add: lfq_mid_def)
  then have "\<forall>b \<in> set as. e_data (lf_heap (push x q) b) = e_data (lf_heap q b)"
    using link_entry_rep(3) [OF mid] same p by metis
  moreover have "e_data (lf_heap (push x q) a) = Some x"
    using link_entry_rep(2) [OF mid] p by simp
  ultimately have "cells (push x q) = cells q @ [Some x]"
    by (simp add: lfq_rep_cells [OF rep] lfq_rep_cells [OF assms])
  with rep show ?thesis by blast
qed

text \<open>\<open>pop\<close> by the number of live entries: none, one (which stays, emptied), more.\<close>

lemma pop_rep_none:
  assumes "lfq_rep q [] fs" shows "pop q = (None, q)"
  using assms by (simp add: pop_def lfq_rep_def)

lemma pop_rep_one:
  assumes "lfq_rep q [a] fs"
  shows "fst (pop q) = e_data (lf_heap q a)"
    and "lfq_rep (snd (pop q)) [a] fs"
    and "e_data (lf_heap (snd (pop q)) a) = None"
  using assms
  by (auto simp: pop_def lfq_rep_def split_beta upd_entry_def Let_def split: option.splits)

lemma pop_rep_more:
  assumes "lfq_rep q (a # b # as) fs"
  shows "fst (pop q) = e_data (lf_heap q a)"
    and "lfq_rep (snd (pop q)) (b # as) (a # fs)"
    and "c \<noteq> a \<Longrightarrow> e_data (lf_heap (snd (pop q)) c) = e_data (lf_heap q c)"
  using assms
  by (auto simp: pop_def lfq_rep_def split_beta upd_entry_def del_entry_def Let_def
      split: option.splits)


lemma pop_cells:
  assumes "lfq_ok q"
  shows "lfq_ok (snd (pop q))"
    and "fst (pop q) = cells_front (cells q)"
    and "cells (snd (pop q)) = cells_rest (cells q)"
proof -
  from assms obtain as fs where r: "lfq_rep q as fs" by (auto simp: lfq_ok_def)
  have "lfq_ok (snd (pop q)) \<and> fst (pop q) = cells_front (cells q) \<and>
        cells (snd (pop q)) = cells_rest (cells q)"
  proof (cases as rule: remdups_adj.cases)
    case 1
    with r show ?thesis using pop_rep_none [of q fs] assms by (simp add: lfq_rep_cells)
  next
    case (2 a)
    with r have r2: "lfq_rep q [a] fs" by simp
    show ?thesis
      using pop_rep_one [OF r2]
      by (auto simp: lfq_rep_cells [OF r2] lfq_rep_cells [OF pop_rep_one(2) [OF r2]] intro: lfq_okI)
  next
    case (3 a b bs)
    with r have r3: "lfq_rep q (a # b # bs) fs" by simp
    then have "a \<notin> set (b # bs)" by (auto simp: lfq_rep_def)
    then have "\<forall>c \<in> set (b # bs). e_data (lf_heap (snd (pop q)) c) = e_data (lf_heap q c)"
      using pop_rep_more(3) [OF r3] by (metis (no_types))
    then show ?thesis
      using pop_rep_more(1,2) [OF r3]
      by (auto simp: lfq_rep_cells [OF r3] lfq_rep_cells [OF pop_rep_more(2) [OF r3]] intro: lfq_okI)
  qed
  then show "lfq_ok (snd (pop q))" and "fst (pop q) = cells_front (cells q)"
    and "cells (snd (pop q)) = cells_rest (cells q)" by auto
qed

lemma push_cells:
  assumes "lfq_ok q"
  shows "lfq_ok (push x q)" and "cells (push x q) = cells q @ [Some x]"
  using assms push_rep [of q _ _ x] unfolding lfq_ok_def by blast+

interpretation lq: cell_queue lfq_empty push pop cells lfq_ok
  by unfold_locales
    (auto simp: lfq_ok_empty cells_empty push_cells pop_cells lfq_ok_cells_wf)


section \<open>Storage\<close>

lemma lfq_ok_cells_length: "lfq_ok q \<Longrightarrow> length (cells q) \<le> lf_fresh q"
  using lfq_rep_length lfq_rep_cells by (fastforce simp: lfq_ok_def)

lemma new_entry_fresh:
  "lf_fresh (snd (new_entry q)) = (if lf_free q = None then Suc (lf_fresh q) else lf_fresh q)"
  by (simp add: new_entry_def alloc_entry_def upd_entry_def Let_def split: option.splits)

lemma push_fresh:
  "lf_fresh (push x q) = (if lf_free q = None then Suc (lf_fresh q) else lf_fresh q)"
  using new_entry_fresh [of q]
  by (auto simp: push_def upd_entry_def Let_def split: prod.splits option.splits)

lemma pop_fresh: "lf_fresh (snd (pop q)) = lf_fresh q"
  by (simp add: pop_def upd_entry_def del_entry_def Let_def split: option.splits prod.splits)

lemma free_None_iff:
  assumes "lfq_ok q" shows "lf_free q = None \<longleftrightarrow> length (cells q) = lf_fresh q"
proof -
  from assms obtain as fs where r: "lfq_rep q as fs" by (auto simp: lfq_ok_def)
  then have "lf_free q = None \<longleftrightarrow> fs = []" by (cases fs) (auto simp: lfq_rep_def)
  with lfq_rep_length [OF r] show ?thesis by (auto simp: lfq_rep_cells [OF r])
qed

text \<open>The preallocating constructor: a free list of exactly \<open>n\<close> entries and an empty queue.\<close>

lemma prealloc_rep:
  assumes "chain (lf_heap q) (Some a) fs" and "distinct fs" and "set fs = {..<lf_fresh q}"
    and "\<forall>b. e_data (lf_heap q b) = None" and "prealloc n a q = (b, q')"
  shows "\<exists>fs'. chain (lf_heap q') (Some b) fs' \<and> distinct fs' \<and> set fs' = {..<lf_fresh q'} \<and>
           lf_fresh q' = lf_fresh q + n \<and> (\<forall>b. e_data (lf_heap q' b) = None) \<and>
           lf_head q' = lf_head q \<and> lf_tail q' = lf_tail q"
  using assms
proof (induction n arbitrary: a q fs)
  case 0
  then show ?case by auto
next
  case (Suc n)
  let ?q1 = "upd_entry (lf_fresh q) (\<lambda>e. e\<lparr>e_next := Some a\<rparr>) (snd (alloc_entry q))"
  have q1: "lf_fresh ?q1 = Suc (lf_fresh q)" "lf_head ?q1 = lf_head q" "lf_tail ?q1 = lf_tail q"
    "lf_heap ?q1 = (lf_heap q)(lf_fresh q := empty_entry\<lparr>e_next := Some a\<rparr>)"
    by (simp_all add: alloc_entry_def upd_entry_def)
  have pre: "prealloc n (lf_fresh q) ?q1 = (b, q')"
    using Suc.prems(5) by (simp add: alloc_entry_def)
  have "chain (lf_heap ?q1) (Some (lf_fresh q)) (lf_fresh q # fs)"
    and "distinct (lf_fresh q # fs)"
    and "set (lf_fresh q # fs) = {..<lf_fresh ?q1}"
    and "\<forall>b. e_data (lf_heap ?q1 b) = None"
    using Suc.prems(1-4) by (auto simp: q1 empty_entry_def lessThan_Suc)
  from Suc.IH [OF this pre] show ?case by (simp add: q1)
qed

lemma with_capacity_rep:
  fixes n :: nat
  defines "q \<equiv> lfq_with_capacity n :: 'a lfqueue"
  shows "\<exists>fs. lfq_rep q [] fs \<and> lf_fresh q = n"
proof (cases n)
  case 0
  then show ?thesis
    by (auto simp: q_def lfq_with_capacity_def lfq_rep_def lfq_empty_def)
next
  case (Suc m)
  let ?q1 = "snd (alloc_entry (lfq_empty :: 'a lfqueue))"
  obtain b q2 where pre: "prealloc m 0 ?q1 = (b, q2)" by (meson surj_pair)
  then have w: "q = q2\<lparr>lf_free := Some b\<rparr>"
    by (simp add: q_def lfq_with_capacity_def Suc alloc_entry_def lfq_empty_def)
  have "chain (lf_heap ?q1) (Some 0) [0]" and "distinct [0::nat]"
    and "set [0] = {..<lf_fresh ?q1}" and "\<forall>b. e_data (lf_heap ?q1 b) = None"
    by (auto simp: alloc_entry_def lfq_empty_def empty_entry_def)
  from prealloc_rep [OF this pre] obtain fs where fs:
    "chain (lf_heap q2) (Some b) fs" "distinct fs" "set fs = {..<lf_fresh q2}"
    "lf_fresh q2 = n" "\<forall>b. e_data (lf_heap q2 b) = None"
    "lf_head q2 = None" "lf_tail q2 = None"
    by (auto simp: Suc alloc_entry_def lfq_empty_def)
  then have "lfq_rep (q2\<lparr>lf_free := Some b\<rparr>) [] fs" by (auto simp: lfq_rep_def)
  with fs(4) show ?thesis unfolding w by auto
qed

section \<open>Properties\<close>

text \<open>
  C26: push appends at the new end and pop takes from the old end: the heap of linked entries
  refines the list of cells, and every operation keeps the invariant.
\<close>

theorem lfq_refines_cells:
  assumes "lfq_ok q"
  shows "lfq_ok (push x q) \<and> cells (push x q) = cells q @ [Some x] \<and>
         lfq_ok (snd (pop q)) \<and> pop q = (cells_front (cells q), snd (pop q)) \<and>
         cells (snd (pop q)) = cells_rest (cells q)"
  using assms push_cells pop_cells by (metis prod.collapse)

theorem lfq_refines_cells_witness:
  "cells (push (2::nat) (push 1 lfq_empty)) = [Some 1, Some 2]"
proof -
  have "lfq_ok (push (1::nat) lfq_empty)" and "cells (push (1::nat) lfq_empty) = [Some 1]"
    by (simp_all add: lq.laws)
  then show ?thesis using lfq_refines_cells [of "push (1::nat) lfq_empty" 2] by simp
qed

text \<open>
  C1: whatever sequence of pushes and pops is run on a fresh queue, the values delivered
  followed by the values still queued are exactly the values pushed, in order: nothing is lost,
  duplicated or reordered.
\<close>

theorem lfq_fifo:
  "vals (fst (run_qops push pop ops lfq_empty)) @ vals (cells (snd (run_qops push pop ops lfq_empty)))
   = pushed ops"
  using lq.run_qops_fifo [OF lq.ok_empty] by (simp add: lq.cells_empty)

text \<open>
  A pop reports an empty queue although elements are queued exactly when the oldest entry
  is the emptied one a former pop left behind; the next pop then delivers the oldest element.
\<close>

theorem lfq_spurious_empty:
  assumes "lfq_ok q" and "vals (cells q) \<noteq> []"
  shows "(fst (pop q) = None \<longleftrightarrow> hd (cells q) = None) \<and>
         (fst (pop q) = None \<longrightarrow> fst (pop (snd (pop q))) = Some (hd (vals (cells q))))"
proof (intro conjI impI)
  from assms(2) have "cells q \<noteq> []" by auto
  then show "fst (pop q) = None \<longleftrightarrow> hd (cells q) = None"
    by (cases "cells q") (simp_all add: lq.pop_front assms(1))
  assume "fst (pop q) = None"
  then show "fst (pop (snd (pop q))) = Some (hd (vals (cells q)))"
    using lq.second_pop [OF assms] by (simp add: prod_eq_iff)
qed

theorem lfq_spurious_empty_witness:
  "fst (pop (push (2::nat) (snd (pop (push 1 lfq_empty))))) = None \<and>
   fst (pop (snd (pop (push (2::nat) (snd (pop (push 1 lfq_empty))))))) = Some 2"
proof -
  let ?q = "push (2::nat) (snd (pop (push 1 lfq_empty)))"
  have ok: "lfq_ok ?q" and cells: "cells ?q = [None, Some 2]" by (simp_all add: lq.laws)
  from lfq_spurious_empty [OF ok] cells show ?thesis by simp
qed

text \<open>
  The number of entries a queue owns grows only when every entry is in use: a push makes it
  the maximum of what it was and one more than the cells in use, and a pop never changes it.
\<close>

theorem lfq_storage_bound:
  assumes "lfq_ok q"
  shows "lf_fresh (push x q) = max (lf_fresh q) (Suc (length (cells q))) \<and>
         lf_fresh (snd (pop q)) = lf_fresh q"
  using free_None_iff [OF assms] lfq_ok_cells_length [OF assms]
  by (auto simp: push_fresh pop_fresh)

theorem lfq_storage_bound_witness:
  "lf_fresh (push (7::nat) (snd (pop (push 1 lfq_empty)))) = 2"
proof -
  let ?q = "snd (pop (push (1::nat) lfq_empty))"
  have "lfq_ok ?q" and "cells ?q = [None]" by (simp_all add: lq.laws)
  moreover have "lf_fresh ?q = 1" by (simp add: pop_fresh push_fresh lfq_empty_def)
  ultimately have "lf_fresh (push 7 ?q) = max 1 (Suc (length [None :: nat option]))"
    using lfq_storage_bound [of ?q 7] by metis
  then show ?thesis by simp
qed

text \<open>
  A queue built with capacity \<open>n\<close> is empty and well formed, and as long as at most
  \<open>n\<close> cells are in use no push allocates.
\<close>

theorem lfq_capacity_reserved:
  fixes xs :: "'a list"
  shows "lfq_ok (lfq_with_capacity n :: 'a lfqueue) \<and>
         cells (lfq_with_capacity n) = ([] :: 'a option list) \<and>
         lf_fresh (foldr push xs (lfq_with_capacity n)) = max n (length xs)"
proof -
  obtain fs where c: "lfq_rep (lfq_with_capacity n :: 'a lfqueue) [] fs"
    and n: "lf_fresh (lfq_with_capacity n :: 'a lfqueue) = n"
    using with_capacity_rep by blast
  have ok: "lfq_ok (lfq_with_capacity n :: 'a lfqueue)"
    and e: "cells (lfq_with_capacity n) = ([] :: 'a option list)"
    using lfq_okI [OF c] by (simp_all add: lfq_rep_cells [OF c])
  have "lfq_ok (foldr push xs (lfq_with_capacity n)) \<and>
        length (cells (foldr push xs (lfq_with_capacity n))) = length xs \<and>
        lf_fresh (foldr push xs (lfq_with_capacity n)) = max n (length xs)"
  proof (induction xs)
    case (Cons x xs)
    then show ?case
      using free_None_iff [of "foldr push xs (lfq_with_capacity n)"]
      by (auto simp: lq.laws push_fresh max_def split: if_splits)
  qed (simp add: ok e n)
  with ok e show ?thesis by simp
qed

text \<open>
  C36: the destructor of a well-formed queue, which every sequence of pushes and pops leaves behind, ends, and deletes every
  entry ever allocated, queued or free, exactly once.
\<close>

theorem lfq_destroy_exact:
  assumes "lfq_ok q"
  shows "\<exists>ds. lfq_destroy q = Some ds \<and> distinct ds \<and> set ds = {..<lf_fresh q}"
proof -
  from assms obtain as fs where r: "lfq_rep q as fs" by (auto simp: lfq_ok_def)
  then have "chain (lf_heap q) (lf_tail q) as" and "chain (lf_heap q) (lf_free q) fs"
    by (simp_all add: lfq_rep_def)
  then have "lfq_destroy q = Some (as @ fs)"
    by (simp add: lfq_destroy_def delete_chain_chain)
  with r show ?thesis by (auto simp: lfq_rep_def)
qed

theorem lfq_destroy_exact_witness:
  "\<exists>ds. lfq_destroy (push (1::nat) lfq_empty) = Some ds \<and> distinct ds \<and> set ds = {..<1}"
proof -
  have "lfq_ok (push (1::nat) lfq_empty)" by (simp add: lq.laws)
  moreover have "lf_fresh (push (1::nat) lfq_empty) = 1" by (simp add: push_fresh lfq_empty_def)
  ultimately show ?thesis using lfq_destroy_exact [of "push (1::nat) lfq_empty"] by simp
qed

end
