(* ===== verification/Transition.thy ===== *)
theory Transition imports Main begin

text \<open>
  Interleavings. A concurrent part of the library is a state, a set of labels (which task
  performs which atomic access) and a partial step function; a schedule is a list of labels.
  Atomic accesses interleave one at a time (sequential consistency); the weaker memory orders
  the code asks for are not modelled.
\<close>

inductive reach :: "'s \<Rightarrow> ('l \<Rightarrow> 's \<Rightarrow> 's option) \<Rightarrow> 's \<Rightarrow> bool" for init step where
  reach_init: "reach init step init"
| reach_step: "reach init step s \<Longrightarrow> step l s = Some t \<Longrightarrow> reach init step t"

fun run :: "('l \<Rightarrow> 's \<Rightarrow> 's option) \<Rightarrow> 'l list \<Rightarrow> 's \<Rightarrow> 's option" where
  "run step [] s = Some s"
| "run step (l # ls) s = (case step l s of None \<Rightarrow> None | Some t \<Rightarrow> run step ls t)"

lemma reach_run:
  "reach init step s \<Longrightarrow> run step ls s = Some t \<Longrightarrow> reach init step t"
  by (induction ls arbitrary: s) (auto split: option.splits intro: reach_step)

lemma run_reach: "run step ls init = Some t \<Longrightarrow> reach init step t"
  by (rule reach_run [OF reach_init])

text \<open>A schedule that evaluates to a state with a property shows a reachable state with it.\<close>

definition run_sat :: "('l \<Rightarrow> 's \<Rightarrow> 's option) \<Rightarrow> 'l list \<Rightarrow> 's \<Rightarrow> ('s \<Rightarrow> bool) \<Rightarrow> bool" where
  "run_sat step ls s P = (case run step ls s of None \<Rightarrow> False | Some t \<Rightarrow> P t)"

lemma run_satE:
  assumes "run_sat step ls init P"
  obtains s where "run step ls init = Some s" and "reach init step s" and "P s"
  using assms by (auto simp: run_sat_def split: option.splits intro: run_reach)

lemma run_append:
  "run step (ls @ ms) s = (case run step ls s of None \<Rightarrow> None | Some t \<Rightarrow> run step ms t)"
  by (induction ls arbitrary: s) (auto split: option.splits)

lemma reach_invariant:
  assumes "reach init step s" and "I init"
    and "\<And>l s t. I s \<Longrightarrow> step l s = Some t \<Longrightarrow> I t"
  shows "I s"
  using assms(1) by (induction rule: reach.induct) (auto intro: assms(2,3))

lemma run_invariant:
  assumes "run step ls s = Some t" and "I s"
    and "\<And>l s t. I s \<Longrightarrow> step l s = Some t \<Longrightarrow> I t"
  shows "I t"
  using assms(1,2) by (induction ls arbitrary: s) (auto split: option.splits intro: assms(3))

section \<open>Sums over the threads\<close>

text \<open>How a sum over the threads changes when one of them moves.\<close>

lemma sum_upd:
  fixes f :: "'p \<Rightarrow> 'a :: cancel_comm_monoid_add"
  assumes "i < (N :: nat)"
  shows "(\<Sum>j<N. f ((pc(i := x)) j)) + f (pc i) = (\<Sum>j<N. f (pc j)) + f x"
proof -
  have "(\<Sum>j<N. f ((pc(i := x)) j)) = f x + (\<Sum>j \<in> {..<N} - {i}. f (pc j))"
    using assms by (subst sum.remove [of _ i]) (auto intro: sum.cong)
  moreover have "(\<Sum>j<N. f (pc j)) = f (pc i) + (\<Sum>j \<in> {..<N} - {i}. f (pc j))"
    using assms by (subst sum.remove [of _ i]) auto
  ultimately show ?thesis by (simp add: ac_simps)
qed

end
