(* ===== verification/Lfqueue_Atomic.thy ===== *)
theory Lfqueue_Atomic imports Lfqueue Transition begin

text \<open>
  \<^verbatim>\<open>lfqueue\<close> used by several threads at once: \<open>push\<close> and \<open>pop\<close> as programs of
  single accesses. One step is one load, store, exchange or compare-and-exchange of
  \<^verbatim>\<open>head_\<close>, \<^verbatim>\<open>tail_\<close>, \<^verbatim>\<open>free_\<close>, an entry's \<^verbatim>\<open>next\<close> or its flag \<^verbatim>\<open>has_value\<close>, or
  one write or read of its storage, with the local computation after it. A queue of references
  has one atomic pointer in an entry, which \<open>put_data\<close> stores and \<open>take_data\<close> exchanges. In a queue of values
  \<open>put_data\<close> constructs the object and then stores the flag, and \<open>take_data\<close> exchanges the flag and
  then reads the object; the values are of a type with a trivial destructor, as the coroutine handles and
  blocking tasks of the library are.
\<close>

section \<open>The accesses of push and pop\<close>

text \<open>Which \<open>data_t\<close> the entries have.\<close>

datatype data_kind = By_value | By_reference

text \<open>Where a thread is: the next access, with the local variables it needs.\<close>

datatype 'a lfq_pc =
    Idle
  | New_load 'a
  | New_next 'a "addr option"
  | New_cas 'a addr "addr option"
  | New_clear 'a addr
  | Push_put 'a addr
  | Push_flag 'a addr                          \<comment> \<open>the object constructed, the flag to be stored\<close>
  | Push_exchange 'a addr
  | Push_link addr "addr option"
  | Pop_load
  | Pop_next addr
  | Pop_cas addr "addr option"
  | Pop_take addr "addr option"
  | Pop_read addr "addr option"                \<comment> \<open>the flag was set, the object to be read\<close>
  | Pop_finish addr "addr option" "'a option"
  | Del_next addr "addr option" "'a option"
  | Del_cas addr "addr option" "'a option"
  | Returned "'a option"

fun new_entry_access :: "'a lfq_pc \<Rightarrow> 'a lfqueue \<Rightarrow> 'a lfq_pc \<times> 'a lfqueue" where
  "new_entry_access (New_load x) q = (New_next x (lf_free q), q)"
| "new_entry_access (New_next x None) q = (let (a, q1) = alloc_entry q in (Push_put x a, q1))"
| "new_entry_access (New_next x (Some a)) q = (New_cas x a (e_next (lf_heap q a)), q)"
| "new_entry_access (New_cas x a nxt) q =
     (if lf_free q = Some a then (New_clear x a, q\<lparr>lf_free := nxt\<rparr>)
      else (New_next x (lf_free q), q))"
| "new_entry_access (New_clear x a) q = (Push_put x a, upd_entry a (\<lambda>e. e\<lparr>e_next := None\<rparr>) q)"
| "new_entry_access pc q = (pc, q)"

fun put_access :: "data_kind \<Rightarrow> 'a lfq_pc \<Rightarrow> 'a lfqueue \<Rightarrow> 'a lfq_pc \<times> 'a lfqueue" where
  "put_access By_value (Push_put x a) q = (Push_flag x a, upd_entry a (\<lambda>e. e\<lparr>e_value := Some x\<rparr>) q)"
| "put_access By_reference (Push_put x a) q = (Push_exchange x a, upd_entry a (put_data x) q)"
| "put_access k (Push_flag x a) q = (Push_exchange x a, upd_entry a (\<lambda>e. e\<lparr>e_has := True\<rparr>) q)"
| "put_access k pc q = new_entry_access pc q"

fun push_access :: "data_kind \<Rightarrow> 'a lfq_pc \<Rightarrow> 'a lfqueue \<Rightarrow> 'a lfq_pc \<times> 'a lfqueue" where
  "push_access k (Push_exchange x a) q = (Push_link a (lf_head q), q\<lparr>lf_head := Some a\<rparr>)"
| "push_access k (Push_link a None) q = (Idle, q\<lparr>lf_tail := Some a\<rparr>)"
| "push_access k (Push_link a (Some h)) q = (Idle, upd_entry h (\<lambda>e. e\<lparr>e_next := Some a\<rparr>) q)"
| "push_access k pc q = put_access k pc q"

fun del_entry_access :: "'a lfq_pc \<Rightarrow> 'a lfqueue \<Rightarrow> 'a lfq_pc \<times> 'a lfqueue" where
  "del_entry_access (Del_next a nxt r) q =
     (Del_cas a nxt r, upd_entry a (\<lambda>e. e\<lparr>e_next := nxt\<rparr>) q)"
| "del_entry_access (Del_cas a nxt r) q =
     (if lf_free q = nxt then (Returned r, q\<lparr>lf_free := Some a\<rparr>)
      else (Del_next a (lf_free q) r, q))"
| "del_entry_access pc q = (pc, q)"

fun take_access :: "data_kind \<Rightarrow> 'a lfq_pc \<Rightarrow> 'a lfqueue \<Rightarrow> 'a lfq_pc \<times> 'a lfqueue" where
  "take_access By_value (Pop_take t nxt) q =
     (if e_has (lf_heap q t) then (Pop_read t nxt, upd_entry t (\<lambda>e. e\<lparr>e_has := False\<rparr>) q)
      else (Pop_finish t nxt None, q))"
| "take_access By_reference (Pop_take t nxt) q =
     (let (r, e) = take_data (lf_heap q t) in (Pop_finish t nxt r, upd_entry t (\<lambda>_. e) q))"
| "take_access k (Pop_read t nxt) q = (Pop_finish t nxt (e_value (lf_heap q t)), q)"
| "take_access k pc q = del_entry_access pc q"

fun pop_access :: "data_kind \<Rightarrow> 'a lfq_pc \<Rightarrow> 'a lfqueue \<Rightarrow> 'a lfq_pc \<times> 'a lfqueue" where
  "pop_access k Pop_load q =
     (case lf_tail q of None \<Rightarrow> (Returned None, q) | Some t \<Rightarrow> (Pop_next t, q))"
| "pop_access k (Pop_next t) q = (Pop_cas t (e_next (lf_heap q t)), q)"
| "pop_access k (Pop_cas t nxt) q =
     (if lf_tail q = Some t then (Pop_take t nxt, q\<lparr>lf_tail := nxt\<rparr>) else (Pop_load, q))"
| "pop_access k (Pop_finish t None r) q = (Returned r, q\<lparr>lf_tail := Some t\<rparr>)"
| "pop_access k (Pop_finish t (Some b) r) q = (Del_next t (lf_free q) r, q)"
| "pop_access k pc q = take_access k pc q"

fun pushing :: "'a lfq_pc \<Rightarrow> bool" where
  "pushing (New_load x) = True"
| "pushing (New_next x a) = True"
| "pushing (New_cas x a nxt) = True"
| "pushing (New_clear x a) = True"
| "pushing (Push_put x a) = True"
| "pushing (Push_flag x a) = True"
| "pushing (Push_exchange x a) = True"
| "pushing (Push_link a old) = True"
| "pushing pc = False"

definition lfq_access :: "data_kind \<Rightarrow> 'a lfq_pc \<Rightarrow> 'a lfqueue \<Rightarrow> 'a lfq_pc \<times> 'a lfqueue" where
  "lfq_access k pc q = (if pushing pc then push_access k pc q else pop_access k pc q)"

section \<open>Threads\<close>

record 'a lfq_sys =
  lc_q :: "'a lfqueue"
  lc_pc :: "nat \<Rightarrow> 'a lfq_pc"
  lc_args :: "nat \<Rightarrow> 'a list"           \<comment> \<open>what each thread has pushed, in order\<close>
  lc_results :: "nat \<Rightarrow> 'a option list" \<comment> \<open>what its pops have returned, in order\<close>

datatype 'a lfq_label = Start_push nat 'a | Start_pop nat | Access nat | Return nat

fun between :: "'a lfq_pc \<Rightarrow> bool" where
  "between Idle = True"
| "between (Returned r) = True"
| "between pc = False"

definition lfq_sys_init :: "'a lfqueue \<Rightarrow> 'a lfq_sys" where
  "lfq_sys_init q = \<lparr>lc_q = q, lc_pc = (\<lambda>_. Idle), lc_args = (\<lambda>_. []), lc_results = (\<lambda>_. [])\<rparr>"

fun lfq_step :: "data_kind \<Rightarrow> 'a lfq_label \<Rightarrow> 'a lfq_sys \<Rightarrow> 'a lfq_sys option" where
  "lfq_step k (Start_push i x) s =
     (case lc_pc s i of
        Idle \<Rightarrow> Some (s\<lparr>lc_pc := (lc_pc s)(i := New_load x), lc_args := (lc_args s)(i := lc_args s i @ [x])\<rparr>)
      | _ \<Rightarrow> None)"
| "lfq_step k (Start_pop i) s =
     (case lc_pc s i of Idle \<Rightarrow> Some (s\<lparr>lc_pc := (lc_pc s)(i := Pop_load)\<rparr>) | _ \<Rightarrow> None)"
| "lfq_step k (Access i) s =
     (if between (lc_pc s i) then None
      else (let (pc', q) = lfq_access k (lc_pc s i) (lc_q s)
            in Some (s\<lparr>lc_q := q, lc_pc := (lc_pc s)(i := pc')\<rparr>)))"
| "lfq_step k (Return i) s =
     (case lc_pc s i of
        Returned r \<Rightarrow> Some (s\<lparr>lc_pc := (lc_pc s)(i := Idle), lc_results := (lc_results s)(i := lc_results s i @ [r])\<rparr>)
      | _ \<Rightarrow> None)"

section \<open>Alone, the accesses are the sequential operations\<close>

lemma access_numeral: "(f ^^ numeral k) z = (f ^^ pred_numeral k) (f z)"
  by (simp add: numeral_eq_Suc funpow_swap1)

lemmas access_defs = lfq_access_def upd_entry_def take_data_def alloc_entry_def Let_def

lemma push_alone:
  "((\<lambda>(pc, q). lfq_access k pc q) ^^ 8) (New_load x, q) = (Idle, push x q)"
  by (cases k; cases "lf_free q"; cases "lf_head q")
    (simp_all add: access_numeral access_defs push_def new_entry_def put_data_def)

lemma pop_alone:
  "((\<lambda>(pc, q). lfq_access k pc q) ^^ 8) (Pop_load, q) = (Returned (fst (pop q)), snd (pop q))"
  by (cases k; cases "lf_tail q"; cases "e_next (lf_heap q (the (lf_tail q)))"; cases "e_has (lf_heap q (the (lf_tail q)))")
    (simp_all add: access_numeral access_defs pop_def del_entry_def)

text \<open>
  The accesses of \<open>push\<close> and of \<open>pop\<close>, run without interference from any
  state whatever, are the sequential operations: at most eight accesses lead to the same queue and
  the same answer.
\<close>

theorem lfq_alone_is_sequential:
  "((\<lambda>(pc, q). lfq_access k pc q) ^^ 8) (New_load x, q) = (Idle, push x q) \<and>
   ((\<lambda>(pc, q). lfq_access k pc q) ^^ 8) (Pop_load, q) = (Returned (fst (pop q)), snd (pop q))"
  by (intro conjI push_alone pop_alone)

section \<open>What overlapping operations break\<close>

text \<open>A push that finds a free entry, or a pop that leaves a successor behind, with the accesses it takes.\<close>

definition accesses :: "data_kind \<Rightarrow> nat \<Rightarrow> 'a lfq_label list" where
  "accesses k i = replicate (case k of By_value \<Rightarrow> 8 | By_reference \<Rightarrow> 7) (Access i)"

definition short_accesses :: "data_kind \<Rightarrow> nat \<Rightarrow> 'a lfq_label list" where
  "short_accesses k i = replicate (case k of By_value \<Rightarrow> 6 | By_reference \<Rightarrow> 5) (Access i)"

text \<open>
  A second thread on either side makes the queue lose elements, because an entry that is
  recycled has the address it had before. With two pushing threads, a push that read the first
  free entry and its successor, and is overtaken by pushes and a pop that recycle that entry, puts
  a queued entry on the free list with its compare-and-exchange; the next push overwrites it. With
  two popping threads, a pop that read \<open>tail_\<close> and its successor, and is overtaken until the same
  entry is the tail again, sets \<open>tail_\<close> to an entry that is free by then; what is pushed next is
  out of reach. In both runs all threads are between operations in the end, some elements were
  never delivered, and the queue holds none.
\<close>

theorem lfq_aba_loses_elements:
  "(\<exists>s. reach (lfq_sys_init (lfq_with_capacity 2)) (lfq_step k) s \<and> lc_pc s 1 = Idle \<and> lc_pc s 2 = Idle \<and>
       lc_args s 1 = [10] \<and> lc_args s 2 = [20, 30, 40 :: nat] \<and>
       vals (lc_results s 2) = [20, 40] \<and> lc_results s 1 = [] \<and> vals (cells (lc_q s)) = []) \<and>
   (\<exists>s. reach (lfq_sys_init lfq_empty) (lfq_step k) s \<and> lc_pc s 0 = Idle \<and> lc_pc s 1 = Idle \<and> lc_pc s 2 = Idle \<and>
       lc_args s 0 = [10, 20, 30, 40 :: nat] \<and> lc_args s 1 = [] \<and> lc_args s 2 = [] \<and>
       lc_results s 1 = [Some 30] \<and> lc_results s 2 = [Some 10, Some 20, None] \<and> vals (cells (lc_q s)) = [])"
proof (rule conjI)
  let ?P = "\<lambda>s. lc_pc s 1 = Idle \<and> lc_pc s 2 = Idle \<and>
       lc_args s 1 = [10] \<and> lc_args s 2 = [20, 30, 40 :: nat] \<and>
       vals (lc_results s 2) = [20, 40] \<and> lc_results s 1 = [] \<and> vals (cells (lc_q s)) = []"
  let ?ls = "[Start_push 1 10] @ replicate 2 (Access 1) @
     [Start_push 2 20] @ accesses k 2 @ [Start_push 2 30] @ accesses k 2 @
     [Start_pop 2] @ accesses k 2 @ [Return 2] @ short_accesses k 1 @
     [Start_push 2 40] @ accesses k 2 @ [Start_pop 2] @ short_accesses k 2 @ [Return 2]"
  have "run_sat (lfq_step k) ?ls (lfq_sys_init (lfq_with_capacity 2)) ?P" by (cases k; hypsubst; code_simp)
  then obtain s where "reach (lfq_sys_init (lfq_with_capacity 2)) (lfq_step k) s" and "?P s" by (rule run_satE)
  then show "\<exists>s. reach (lfq_sys_init (lfq_with_capacity 2)) (lfq_step k) s \<and> ?P s" by blast
next
  let ?P = "\<lambda>s. lc_pc s 0 = Idle \<and> lc_pc s 1 = Idle \<and> lc_pc s 2 = Idle \<and>
       lc_args s 0 = [10, 20, 30, 40 :: nat] \<and> lc_args s 1 = [] \<and> lc_args s 2 = [] \<and>
       lc_results s 1 = [Some 30] \<and> lc_results s 2 = [Some 10, Some 20, None] \<and> vals (cells (lc_q s)) = []"
  let ?ls = "[Start_push 0 10] @ short_accesses k 0 @ [Start_push 0 20] @ short_accesses k 0 @
     [Start_pop 1] @ replicate 2 (Access 1) @
     [Start_pop 2] @ accesses k 2 @ [Return 2] @ [Start_push 0 30] @ accesses k 0 @
     [Start_pop 2] @ accesses k 2 @ [Return 2] @ short_accesses k 1 @ [Return 1] @
     [Start_push 0 40] @ accesses k 0 @ [Start_pop 2] @ replicate 5 (Access 2) @ [Return 2]"
  have "run_sat (lfq_step k) ?ls (lfq_sys_init lfq_empty) ?P" by (cases k; hypsubst; code_simp)
  then obtain s where "reach (lfq_sys_init lfq_empty) (lfq_step k) s" and "?P s" by (rule run_satE)
  then show "\<exists>s. reach (lfq_sys_init lfq_empty) (lfq_step k) s \<and> ?P s" by blast
qed

text \<open>
  In a queue of values it also delivers an element twice. The queued entry that the stale push
  put on the free list is taken by the next push, which constructs its object there while the flag
  is still set; a pop takes that object before the push stores the flag, and another one takes it
  again afterwards. The entry's own \<^verbatim>\<open>next\<close> then is itself.
\<close>

theorem lfq_value_delivered_twice:
  "\<exists>s. reach (lfq_sys_init (lfq_with_capacity 2)) (lfq_step By_value) s \<and>
       lc_args s 1 = [10] \<and> lc_args s 2 = [20, 30, 40 :: nat] \<and> lc_args s 3 = [] \<and>
       lc_results s 3 = [Some 20, Some 40, Some 40] \<and> lc_pc s 2 = Idle \<and> lc_pc s 3 = Idle"
proof -
  let ?P = "\<lambda>s. lc_args s 1 = [10] \<and> lc_args s 2 = [20, 30, 40 :: nat] \<and> lc_args s 3 = [] \<and>
       lc_results s 3 = [Some 20, Some 40, Some 40] \<and> lc_pc s 2 = Idle \<and> lc_pc s 3 = Idle"
  let ?ls = "[Start_push 1 10] @ replicate 2 (Access 1) @
     [Start_push 2 20] @ replicate 8 (Access 2) @ [Start_push 2 30] @ replicate 8 (Access 2) @
     [Start_pop 3] @ replicate 8 (Access 3) @ [Return 3, Access 1, Start_push 2 40] @ replicate 5 (Access 2) @
     [Start_pop 3] @ replicate 6 (Access 3) @ [Return 3] @ replicate 3 (Access 2) @
     [Start_pop 3] @ replicate 8 (Access 3) @ [Return 3]"
  have "run_sat (lfq_step By_value) ?ls (lfq_sys_init (lfq_with_capacity 2)) ?P" by code_simp
  then obtain s where "reach (lfq_sys_init (lfq_with_capacity 2)) (lfq_step By_value) s" and "?P s" by (rule run_satE)
  then show ?thesis by blast
qed

end
