(* ===== verification/Lfqueue_Invariant.thy ===== *)
theory Lfqueue_Invariant imports Lfqueue_Atomic begin

text \<open>
  \<^verbatim>\<open>lfqueue\<close> while one thread pushes and one pops: the invariant of their
  interleaved accesses. The entries are the linked ones, a new head that is not linked yet, the free
  ones, and those a thread holds. Each thread's part of the invariant depends on few of them, which
  the frame lemmas state, so that every access is one short case.
\<close>

section \<open>One pusher and one popper\<close>

text \<open>What of the queue a thread holds at each point.\<close>

fun own :: "'a lfq_pc \<Rightarrow> addr list" where
  "own (New_clear x a) = [a]"
| "own (Push_put x a) = [a]"
| "own (Push_flag x a) = [a]"
| "own (Push_exchange x a) = [a]"
| "own pc = []"

fun pend :: "'a lfq_pc \<Rightarrow> addr list" where
  "pend (Push_link a old) = [a]"
| "pend pc = []"

fun todo :: "'a lfq_pc \<Rightarrow> 'a list" where
  "todo (New_load x) = [x]"
| "todo (New_next x a) = [x]"
| "todo (New_cas x a nxt) = [x]"
| "todo (New_clear x a) = [x]"
| "todo (Push_put x a) = [x]"
| "todo (Push_flag x a) = [x]"
| "todo (Push_exchange x a) = [x]"
| "todo pc = []"

fun taken :: "'a lfq_pc \<Rightarrow> addr list" where
  "taken (Pop_read a (Some b)) = [a]"
| "taken (Pop_finish a (Some b) r) = [a]"
| "taken (Del_next a nxt r) = [a]"
| "taken (Del_cas a nxt r) = [a]"
| "taken pc = []"

fun inflight :: "'a lfq_pc \<Rightarrow> 'a list" where
  "inflight (Pop_finish a nxt r) = vals [r]"
| "inflight (Del_next a nxt r) = vals [r]"
| "inflight (Del_cas a nxt r) = vals [r]"
| "inflight (Returned r) = vals [r]"
| "inflight pc = []"

text \<open>An object whose flag is reset and that is still to be read is on its way as well.\<close>

definition transit :: "'a lfqueue \<Rightarrow> 'a lfq_pc \<Rightarrow> 'a list" where
  "transit q pc = (case pc of Pop_read t nxt \<Rightarrow> vals [e_value (lf_heap q t)] | _ \<Rightarrow> inflight pc)"

definition first :: "addr list \<Rightarrow> addr option" where
  "first as = (case as of [] \<Rightarrow> None | a # _ \<Rightarrow> Some a)"

definition final :: "addr list \<Rightarrow> addr option" where
  "final as = (if as = [] then None else Some (last as))"

definition linked :: "(addr \<Rightarrow> 'a entry) \<Rightarrow> addr list \<Rightarrow> bool" where
  "linked h as \<longleftrightarrow> chain h (first as) as"

fun pusher_ok :: "'a lfqueue \<Rightarrow> addr list \<Rightarrow> addr list \<Rightarrow> 'a lfq_pc \<Rightarrow> bool" where
  "pusher_ok q as fs Idle = True"
| "pusher_ok q as fs (New_load x) = True"
| "pusher_ok q as fs (New_next x f) = (\<forall>a. f = Some a \<longrightarrow> a \<in> set fs)"
| "pusher_ok q as fs (New_cas x a nxt) = (a \<in> set fs \<and> nxt = e_next (lf_heap q a))"
| "pusher_ok q as fs (New_clear x a) = (e_data (lf_heap q a) = None)"
| "pusher_ok q as fs (Push_put x a) = (e_data (lf_heap q a) = None \<and> e_next (lf_heap q a) = None)"
| "pusher_ok q as fs (Push_flag x a) = (e_value (lf_heap q a) = Some x \<and> e_next (lf_heap q a) = None)"
| "pusher_ok q as fs (Push_exchange x a) = (e_data (lf_heap q a) = Some x \<and> e_next (lf_heap q a) = None)"
| "pusher_ok q as fs (Push_link a old) =
     (e_next (lf_heap q a) = None \<and> e_data (lf_heap q a) \<noteq> None \<and> old = final as)"
| "pusher_ok q as fs pc = False"

text \<open>While the popper is between the two ends of its own operation, \<open>tail_\<close> is its business.\<close>

fun popper_ok :: "'a lfqueue \<Rightarrow> addr list \<Rightarrow> 'a lfq_pc \<Rightarrow> bool" where
  "popper_ok q as Idle = (lf_tail q = first as)"
| "popper_ok q as Pop_load = (lf_tail q = first as)"
| "popper_ok q as (Pop_next t) = (lf_tail q = first as \<and> first as = Some t)"
| "popper_ok q as (Pop_cas t nxt) =
     (lf_tail q = first as \<and> first as = Some t \<and> (nxt = None \<or> nxt = e_next (lf_heap q t)))"
| "popper_ok q as (Pop_take t nxt) =
     (first as = Some t \<and> lf_tail q = nxt \<and> (nxt = None \<or> nxt = e_next (lf_heap q t)))"
| "popper_ok q as (Pop_read t None) =
     (first as = Some t \<and> lf_tail q = None \<and> e_data (lf_heap q t) = None)"
| "popper_ok q as (Pop_read t (Some b)) = (lf_tail q = first as \<and> e_data (lf_heap q t) = None)"
| "popper_ok q as (Pop_finish t None r) =
     (first as = Some t \<and> lf_tail q = None \<and> e_data (lf_heap q t) = None)"
| "popper_ok q as (Pop_finish t (Some b) r) = (lf_tail q = first as \<and> e_data (lf_heap q t) = None)"
| "popper_ok q as (Del_next t f r) = (lf_tail q = first as \<and> e_data (lf_heap q t) = None)"
| "popper_ok q as (Del_cas t f r) =
     (lf_tail q = first as \<and> e_data (lf_heap q t) = None \<and> e_next (lf_heap q t) = f)"
| "popper_ok q as (Returned r) = (lf_tail q = first as)"
| "popper_ok q as pc = False"

text \<open>
  \<open>as\<close>: the linked entries, oldest first; a new head that is not linked yet is pending at the
  pusher. Every entry is linked, pending, free, or held by one of the threads.
\<close>

definition spsc_inv :: "'a lfqueue \<Rightarrow> addr list \<Rightarrow> addr list \<Rightarrow> 'a lfq_pc \<Rightarrow> 'a lfq_pc \<Rightarrow> bool" where
  "spsc_inv q as fs pu po \<longleftrightarrow>
     linked (lf_heap q) as \<and>
     linked (lf_heap q) fs \<and> lf_free q = first fs \<and>
     distinct (as @ fs @ own pu @ pend pu @ taken po) \<and>
     set (as @ fs @ own pu @ pend pu @ taken po) = {..<lf_fresh q} \<and>
     lf_head q = final (as @ pend pu) \<and>
     (\<forall>a \<in> set (tl as). e_data (lf_heap q a) \<noteq> None) \<and>
     (\<forall>a \<in> set fs. e_data (lf_heap q a) = None) \<and>
     pusher_ok q as fs pu \<and> popper_ok q as po"

definition content :: "'a lfqueue \<Rightarrow> addr list \<Rightarrow> 'a lfq_pc \<Rightarrow> 'a list" where
  "content q as pu = vals (map (\<lambda>a. e_data (lf_heap q a)) (as @ pend pu))"

lemma first_simps [simp]: "first [] = None" "first (a # as) = Some a"
  by (simp_all add: first_def)

lemma first_Some: "first as = Some a \<longleftrightarrow> (\<exists>bs. as = a # bs)"
  by (cases as) auto

lemma final_simps [simp]: "final [] = None" "final (as @ [a]) = Some a"
  by (simp_all add: final_def)

lemma chain_first: "chain h p as \<Longrightarrow> p = first as"
  by (cases as) auto

lemma chain_linked: "chain h p as \<longleftrightarrow> p = first as \<and> linked h as"
  by (auto simp: linked_def dest: chain_first)

lemma linked_simps [simp]:
  "linked h []" "linked h (a # as) \<longleftrightarrow> e_next (h a) = first as \<and> linked h as"
  by (simp_all add: linked_def) (metis chain_first)

lemma first_append: "as \<noteq> [] \<Longrightarrow> first (as @ bs) = first as"
  by (cases as) auto

lemma map_data_upd [simp]:
  "a \<notin> set as \<Longrightarrow> map (\<lambda>b. e_data (if b = a then e else h b)) as = map (\<lambda>b. e_data (h b)) as"
  by auto

text \<open>What a thread's part of the invariant depends on.\<close>

lemma linked_cong:
  assumes "\<forall>a \<in> set as. h' a = h a" and "linked h as"
  shows "linked h' as"
  using assms by (induction as) auto

lemma pusher_frame:
  assumes "pusher_ok q as fs pu" and "\<forall>a \<in> set (fs @ own pu @ pend pu). lf_heap q' a = lf_heap q a"
    and "final as' = final as" and "set fs \<subseteq> set fs'"
  shows "pusher_ok q' as' fs' pu"
  using assms by (cases "(q, as, fs, pu)" rule: pusher_ok.cases) auto

lemma popper_frame:
  assumes "popper_ok q as po" and "lf_tail q' = lf_tail q" and "first as' = first as"
    and "\<forall>a \<in> set (as @ taken po). e_data (lf_heap q' a) = e_data (lf_heap q a)"
    and "\<forall>a \<in> set (taken po). lf_heap q' a = lf_heap q a"
    and "\<forall>a \<in> set as. e_next (lf_heap q' a) = e_next (lf_heap q a) \<or> e_next (lf_heap q a) = None"
  shows "popper_ok q' as' po"
  using assms by (cases "(q, as, po)" rule: popper_ok.cases) (auto simp: first_Some)

lemma content_cong:
  assumes "\<forall>a \<in> set (as @ pend pu). e_data (lf_heap q' a) = e_data (lf_heap q a)"
  shows "content q' as pu = content q as pu"
proof -
  have "map (\<lambda>a. e_data (lf_heap q' a)) (as @ pend pu) = map (\<lambda>a. e_data (lf_heap q a)) (as @ pend pu)"
    using assms by (intro map_cong) auto
  then show ?thesis by (simp only: content_def)
qed

lemma transit_cong:
  assumes "popper_ok q as po" and "\<forall>a \<in> set (as @ taken po). e_value (lf_heap q' a) = e_value (lf_heap q a)"
  shows "transit q' po = transit q po"
  using assms by (cases "(q, as, po)" rule: popper_ok.cases) (auto simp: transit_def first_Some)

text \<open>An access by one thread that leaves the entries of everybody else alone.\<close>

lemma spsc_inv_frame:
  assumes inv: "spsc_inv q as fs pu po"
    and heap: "\<forall>a \<in> set (as @ fs @ taken po). lf_heap q' a = lf_heap q a"
    and rest: "lf_tail q' = lf_tail q" "lf_head q' = final (as @ pend pu')" "lf_free q' = first fs'"
      "set fs' \<subseteq> set fs" "linked (lf_heap q) fs'"
      "distinct (as @ fs' @ own pu' @ pend pu' @ taken po)"
      "set (as @ fs' @ own pu' @ pend pu' @ taken po) = {..<lf_fresh q'}"
      "pusher_ok q' as fs' pu'"
  shows "spsc_inv q' as fs' pu' po"
proof -
  from inv have l: "linked (lf_heap q) as" and po: "popper_ok q as po"
    and ne: "\<forall>a \<in> set (tl as). e_data (lf_heap q a) \<noteq> None"
    and em: "\<forall>a \<in> set fs. e_data (lf_heap q a) = None"
    unfolding spsc_inv_def by blast+
  have "linked (lf_heap q') as" by (rule linked_cong [OF _ l]) (simp add: heap)
  moreover have "linked (lf_heap q') fs'"
    using rest(4) heap by (intro linked_cong [OF _ rest(5)]) auto
  moreover have "popper_ok q' as po"
    by (rule popper_frame [OF po rest(1) refl]) (use heap in auto)
  moreover have "\<forall>a \<in> set (tl as). e_data (lf_heap q' a) \<noteq> None"
    using ne heap by (simp add: set_tlD)
  moreover have "\<forall>a \<in> set fs'. e_data (lf_heap q' a) = None"
    using em heap rest(4) by auto
  ultimately show ?thesis using rest unfolding spsc_inv_def by blast
qed

lemma pusher_new_load:
  assumes "spsc_inv q as fs (New_load x) po"
  shows "spsc_inv q as fs (New_next x (lf_free q)) po"
  using assms by (auto simp: spsc_inv_def first_Some)

lemma pusher_alloc:
  assumes inv: "spsc_inv q as fs (New_next x None) po"
  shows "spsc_inv (snd (alloc_entry q)) as fs (Push_put x (fst (alloc_entry q))) po"
proof (rule spsc_inv_frame [OF inv])
  have "\<forall>a \<in> set (as @ fs @ taken po). a \<noteq> lf_fresh q"
    using inv unfolding spsc_inv_def by auto
  then show "\<forall>a \<in> set (as @ fs @ taken po). lf_heap (snd (alloc_entry q)) a = lf_heap q a"
    by (auto simp: alloc_entry_def)
qed (use inv in \<open>auto simp: spsc_inv_def alloc_entry_def empty_entry_def lessThan_Suc\<close>)

lemma pusher_next:
  assumes "spsc_inv q as fs (New_next x (Some a)) po"
  shows "spsc_inv q as fs (New_cas x a (e_next (lf_heap q a))) po"
  using assms by (auto simp: spsc_inv_def)

lemma pusher_cas:
  assumes inv: "spsc_inv q as fs (New_cas x a nxt) po" and eq: "lf_free q = Some a"
  shows "spsc_inv (q\<lparr>lf_free := nxt\<rparr>) as (tl fs) (New_clear x a) po"
proof -
  obtain gs where fs: "fs = a # gs" using inv eq by (cases fs) (auto simp: spsc_inv_def)
  show ?thesis
    by (rule spsc_inv_frame [OF inv])
      (use inv fs in \<open>auto simp: spsc_inv_def\<close>)
qed

lemma pusher_cas_fails:
  assumes "spsc_inv q as fs (New_cas x a nxt) po"
  shows "spsc_inv q as fs (New_next x (lf_free q)) po"
  using assms by (auto simp: spsc_inv_def first_Some)

lemma pusher_clear:
  assumes inv: "spsc_inv q as fs (New_clear x a) po"
  shows "spsc_inv (upd_entry a (\<lambda>e. e\<lparr>e_next := None\<rparr>) q) as fs (Push_put x a) po"
  by (rule spsc_inv_frame [OF inv])
    (use inv in \<open>auto simp: spsc_inv_def upd_entry_def\<close>)

lemma pusher_put:
  assumes inv: "spsc_inv q as fs (Push_put x a) po"
  shows "spsc_inv (upd_entry a (put_data x) q) as fs (Push_exchange x a) po"
  by (rule spsc_inv_frame [OF inv])
    (use inv in \<open>auto simp: spsc_inv_def upd_entry_def put_data_def\<close>)

lemma pusher_store:
  assumes inv: "spsc_inv q as fs (Push_put x a) po"
  shows "spsc_inv (upd_entry a (\<lambda>e. e\<lparr>e_value := Some x\<rparr>) q) as fs (Push_flag x a) po"
  by (rule spsc_inv_frame [OF inv])
    (use inv in \<open>auto simp: spsc_inv_def upd_entry_def\<close>)

lemma pusher_flag:
  assumes inv: "spsc_inv q as fs (Push_flag x a) po"
  shows "spsc_inv (upd_entry a (\<lambda>e. e\<lparr>e_has := True\<rparr>) q) as fs (Push_exchange x a) po"
  by (rule spsc_inv_frame [OF inv])
    (use inv in \<open>auto simp: spsc_inv_def upd_entry_def\<close>)

lemma pusher_exchange:
  assumes inv: "spsc_inv q as fs (Push_exchange x a) po"
  shows "spsc_inv (q\<lparr>lf_head := Some a\<rparr>) as fs (Push_link a (lf_head q)) po"
  by (rule spsc_inv_frame [OF inv])
    (use inv in \<open>auto simp: spsc_inv_def\<close>)


text \<open>Linking the new entry: behind the old head, or as the first entry ever.\<close>

lemma linked_snoc:
  assumes "linked h (as @ [b])" and "distinct (as @ [b, a])" and "e_next (h a) = None"
  shows "linked (h(b := (h b)\<lparr>e_next := Some a\<rparr>)) (as @ [b, a])"
  using assms
proof (induction as)
  case (Cons c as)
  then show ?case by (cases as) auto
qed auto

lemma pusher_link_first:
  assumes "spsc_inv q as fs (Push_link a None) po"
  shows "spsc_inv (q\<lparr>lf_tail := Some a\<rparr>) [a] fs Idle po \<and>
    content (q\<lparr>lf_tail := Some a\<rparr>) [a] Idle = content q as (Push_link a None)"
proof -
  have as: "as = []" using assms by (auto simp: spsc_inv_def final_def split: if_splits)
  have "popper_ok (q\<lparr>lf_tail := Some a\<rparr>) [a] po"
    using assms unfolding spsc_inv_def as by (cases "(q, as, po)" rule: popper_ok.cases) auto
  with assms show ?thesis unfolding spsc_inv_def as by (auto simp: content_def final_def)
qed

lemma pusher_link_next:
  assumes inv: "spsc_inv q as fs (Push_link a (Some h)) po"
  shows "spsc_inv (upd_entry h (\<lambda>e. e\<lparr>e_next := Some a\<rparr>) q) (as @ [a]) fs Idle po \<and>
    content (upd_entry h (\<lambda>e. e\<lparr>e_next := Some a\<rparr>) q) (as @ [a]) Idle =
      content q as (Push_link a (Some h))"
proof -
  let ?q = "upd_entry h (\<lambda>e. e\<lparr>e_next := Some a\<rparr>) q"
  have "as \<noteq> []" and "h = last as" using inv by (auto simp: spsc_inv_def final_def split: if_splits)
  then obtain bs where as: "as = bs @ [h]" by (metis append_butlast_last_id)
  from inv have l: "linked (lf_heap q) (bs @ [h])" and fl: "linked (lf_heap q) fs"
    and dist: "distinct (bs @ [h] @ fs @ [a] @ taken po)" and po: "popper_ok q (bs @ [h]) po"
    and na: "e_next (lf_heap q a) = None" "e_data (lf_heap q a) \<noteq> None"
    and ne: "\<forall>b \<in> set (tl (bs @ [h])). e_data (lf_heap q b) \<noteq> None"
    unfolding spsc_inv_def as by auto
  have data: "e_data (lf_heap ?q b) = e_data (lf_heap q b)" for b by (simp add: upd_entry_def)
  have same: "b \<noteq> h \<Longrightarrow> lf_heap ?q b = lf_heap q b" for b by (simp add: upd_entry_def)
  have fst: "first (bs @ [h, a]) = first (bs @ [h])" by (cases bs) auto
  have nh: "e_next (lf_heap q h) = None" using l unfolding linked_def by (rule chain_last)
  have "linked (lf_heap ?q) (bs @ [h, a])"
    using linked_snoc [OF l _ na(1)] dist by (auto simp: upd_entry_def)
  moreover have "linked (lf_heap ?q) fs"
    by (rule linked_cong [OF _ fl]) (intro ballI same, use dist in auto)
  moreover have "popper_ok ?q (bs @ [h, a]) po"
    by (rule popper_frame [OF po _ fst]) (use dist nh in \<open>auto simp: upd_entry_def\<close>)
  moreover have "\<forall>b \<in> set (tl (bs @ [h, a])). e_data (lf_heap ?q b) \<noteq> None"
    using ne na(2) unfolding data by (cases bs) auto
  ultimately have "spsc_inv ?q (bs @ [h, a]) fs Idle po"
    using inv unfolding spsc_inv_def as data by (auto simp: final_def upd_entry_def)
  moreover have "content ?q (bs @ [h, a]) Idle = content q as (Push_link a (Some h))"
    unfolding content_def data as by simp
  ultimately show ?thesis unfolding as by simp
qed


text \<open>All accesses of the pusher.\<close>

lemma pusher_access:
  assumes inv: "spsc_inv q as fs pu po" and pu: "pushing pu"
    and step: "lfq_access k pu q = (pu', q')"
  shows "\<exists>as' fs'. spsc_inv q' as' fs' pu' po \<and>
    content q' as' pu' @ todo pu' = content q as pu @ todo pu"
proof (cases pu)
  case (New_load x)
  with inv step show ?thesis using pusher_new_load [of q as fs x po]
    by (auto simp: lfq_access_def content_def)
next
  case (New_next x f)
  show ?thesis
  proof (cases f)
    case None
    have "\<forall>a \<in> set as. a \<noteq> lf_fresh q" using inv unfolding spsc_inv_def by auto
    then have "content (snd (alloc_entry q)) as (Push_put x (lf_fresh q)) = content q as pu"
      by (auto simp: content_def alloc_entry_def New_next intro!: arg_cong [where f = vals])
    moreover have "pu' = Push_put x (lf_fresh q)" and "q' = snd (alloc_entry q)"
      using step by (auto simp: lfq_access_def New_next None alloc_entry_def)
    moreover have "spsc_inv (snd (alloc_entry q)) as fs (Push_put x (lf_fresh q)) po"
      using pusher_alloc [OF inv [unfolded New_next None]] by (simp add: alloc_entry_def)
    ultimately show ?thesis by (auto simp: New_next)
  next
    case (Some a)
    with inv step New_next show ?thesis using pusher_next [of q as fs x a po]
      by (auto simp: lfq_access_def content_def)
  qed
next
  case (New_cas x a nxt)
  with inv step show ?thesis
    using pusher_cas [of q as fs x a nxt po] pusher_cas_fails [of q as fs x a nxt po]
    by (cases "lf_free q = Some a") (auto simp: lfq_access_def content_def)
next
  case (New_clear x a)
  have "content (upd_entry a (\<lambda>e. e\<lparr>e_next := None\<rparr>) q) as pu = content q as pu"
    by (rule content_cong) (simp add: upd_entry_def)
  with step pusher_clear [OF inv [unfolded New_clear]] show ?thesis
    by (auto simp: lfq_access_def New_clear content_def)
next
  case (Push_put x a)
  have "content (upd_entry a f q) as pu = content q as pu" for f
    using inv unfolding spsc_inv_def Push_put by (intro content_cong) (auto simp: upd_entry_def)
  with step pusher_put [OF inv [unfolded Push_put]] pusher_store [OF inv [unfolded Push_put]] show ?thesis
    by (cases k) (auto simp: lfq_access_def Push_put content_def)
next
  case (Push_flag x a)
  have "content (upd_entry a (\<lambda>e. e\<lparr>e_has := True\<rparr>) q) as pu = content q as pu"
    using inv unfolding spsc_inv_def Push_flag by (intro content_cong) (auto simp: upd_entry_def)
  with step pusher_flag [OF inv [unfolded Push_flag]] show ?thesis
    by (auto simp: lfq_access_def Push_flag content_def)
next
  case (Push_exchange x a)
  have "e_data (lf_heap q a) = Some x" using inv unfolding spsc_inv_def Push_exchange by simp
  with step Push_exchange pusher_exchange [OF inv [unfolded Push_exchange]] show ?thesis
    by (auto simp: lfq_access_def content_def)
next
  case (Push_link a old)
  with step pusher_link_first [of q as fs a po] pusher_link_next [of q as fs a _ po] inv show ?thesis
    by (cases old) (auto simp: lfq_access_def)
qed (use pu in auto)

lemma push_values:
  assumes step: "lfq_access k pu q = (pu', q')" and pu: "pushing pu" and a: "a \<noteq> lf_fresh q" "a \<notin> set (own pu)"
  shows "e_value (lf_heap q' a) = e_value (lf_heap q a)"
proof (cases pu)
  case (New_next x f)
  with step a show ?thesis by (cases f) (auto simp: lfq_access_def alloc_entry_def)
next
  case (Push_put x b)
  with step a show ?thesis by (cases k) (auto simp: lfq_access_def upd_entry_def)
next
  case (Push_link b old)
  with step a show ?thesis by (cases old) (auto simp: lfq_access_def upd_entry_def)
qed (use step pu a in \<open>auto simp: lfq_access_def upd_entry_def split: if_splits\<close>)

lemma pusher_transit:
  assumes inv: "spsc_inv q as fs pu po" and pu: "pushing pu" and step: "lfq_access k pu q = (pu', q')"
  shows "transit q' po = transit q po"
proof (rule transit_cong)
  show "popper_ok q as po" using inv unfolding spsc_inv_def by blast
  have "\<forall>a \<in> set (as @ taken po). a \<noteq> lf_fresh q \<and> a \<notin> set (own pu)" using inv unfolding spsc_inv_def by auto
  with push_values [OF step pu] show "\<forall>a \<in> set (as @ taken po). e_value (lf_heap q' a) = e_value (lf_heap q a)"
    by blast
qed

section \<open>The accesses of the popper\<close>

lemma popper_load:
  assumes "spsc_inv q as fs pu Pop_load"
  shows "spsc_inv q as fs pu (case lf_tail q of None \<Rightarrow> Returned None | Some t \<Rightarrow> Pop_next t)"
  using assms by (auto simp: spsc_inv_def split: option.splits)

lemma popper_next:
  assumes "spsc_inv q as fs pu (Pop_next t)"
  shows "spsc_inv q as fs pu (Pop_cas t (e_next (lf_heap q t)))"
  using assms by (auto simp: spsc_inv_def)

text \<open>The pusher relies on its own entries, the free ones and the newest linked one.\<close>

lemma popper_frame_inv:
  assumes inv: "spsc_inv q as fs pu po"
    and heap: "\<forall>a \<in> set (fs @ own pu @ pend pu). lf_heap q' a = lf_heap q a"
    and rest: "lf_head q' = lf_head q" "lf_free q' = lf_free q" "lf_fresh q' = lf_fresh q"
      "final (as' @ pend pu) = final (as @ pend pu)" "final as' = final as"
      "linked (lf_heap q') as'" "\<forall>a \<in> set (tl as'). e_data (lf_heap q' a) \<noteq> None"
      "distinct (as' @ fs @ own pu @ pend pu @ taken po')"
      "set (as' @ taken po') = set (as @ taken po)" "popper_ok q' as' po'"
  shows "spsc_inv q' as' fs pu po'"
proof -
  from inv have l: "linked (lf_heap q) fs" and pu: "pusher_ok q as fs pu"
    and em: "\<forall>a \<in> set fs. e_data (lf_heap q a) = None"
    unfolding spsc_inv_def by blast+
  have "linked (lf_heap q') fs" by (rule linked_cong [OF _ l]) (use heap in auto)
  moreover have "pusher_ok q' as' fs pu"
    by (rule pusher_frame [OF pu heap rest(5) order_refl])
  moreover have "\<forall>a \<in> set fs. e_data (lf_heap q' a) = None" using em heap by auto
  moreover have "set (as' @ fs @ own pu @ pend pu @ taken po') = {..<lf_fresh q'}"
    using inv rest(3,9) unfolding spsc_inv_def by auto
  ultimately show ?thesis using inv rest unfolding spsc_inv_def by simp
qed

lemma popper_cas:
  assumes inv: "spsc_inv q as fs pu (Pop_cas t nxt)"
  shows "lf_tail q = Some t \<and> spsc_inv (q\<lparr>lf_tail := nxt\<rparr>) as fs pu (Pop_take t nxt)"
proof -
  have "spsc_inv (q\<lparr>lf_tail := nxt\<rparr>) as fs pu (Pop_take t nxt)"
    by (rule popper_frame_inv [OF inv]) (use inv in \<open>auto simp: spsc_inv_def\<close>)
  with inv show ?thesis by (auto simp: spsc_inv_def)
qed

text \<open>Taking the data: an entry with a successor leaves the queue, the last one stays.\<close>

lemma popper_take:
  assumes inv: "spsc_inv q as fs pu (Pop_take t nxt)"
    and q': "q' = upd_entry t (\<lambda>e. e\<lparr>e_has := False\<rparr>) q"
  shows "\<exists>as'. spsc_inv q' as' fs pu (Pop_finish t nxt r) \<and>
    vals [e_data (lf_heap q t)] @ content q' as' pu = content q as pu"
proof -
  obtain bs where as: "as = t # bs" and nxt: "nxt = None \<or> nxt = e_next (lf_heap q t)"
    and tl: "lf_tail q = nxt"
    using inv by (auto simp: spsc_inv_def first_Some)
  from inv have l: "e_next (lf_heap q t) = first bs" "linked (lf_heap q) bs"
    and dist: "distinct (t # bs @ fs @ own pu @ pend pu)"
    and ne: "\<forall>a \<in> set bs. e_data (lf_heap q a) \<noteq> None"
    unfolding spsc_inv_def as by auto
  have same: "a \<noteq> t \<Longrightarrow> lf_heap q' a = lf_heap q a" for a by (simp add: q' upd_entry_def)
  have gone: "e_data (lf_heap q' t) = None" "e_next (lf_heap q' t) = first bs"
    using l by (simp_all add: q' upd_entry_def)
  have q'_sel: "lf_head q' = lf_head q" "lf_free q' = lf_free q" "lf_fresh q' = lf_fresh q" "lf_tail q' = lf_tail q"
    by (simp_all add: q' upd_entry_def)
  have lbs: "linked (lf_heap q') bs" by (rule linked_cong [OF _ l(2)]) (intro ballI same, use dist in auto)
  have heap: "\<forall>a \<in> set (fs @ own pu @ pend pu). lf_heap q' a = lf_heap q a"
    by (intro ballI same) (use dist in auto)
  have ne': "\<forall>a \<in> set bs. e_data (lf_heap q' a) \<noteq> None"
  proof
    fix a assume a: "a \<in> set bs"
    with dist have "lf_heap q' a = lf_heap q a" by (intro same) auto
    with ne a show "e_data (lf_heap q' a) \<noteq> None" by simp
  qed
  have ne2: "\<forall>a \<in> set (tl bs). e_data (lf_heap q' a) \<noteq> None" using ne' by (simp add: set_tlD)
  have data: "map (\<lambda>a. e_data (lf_heap q' a)) (bs @ pend pu) = map (\<lambda>a. e_data (lf_heap q a)) (bs @ pend pu)"
    by (intro map_cong refl arg_cong [where f = e_data] same) (use dist in auto)
  have cont: "content q (t # bs) pu = vals [e_data (lf_heap q t)] @ content q' bs pu"
    unfolding content_def data by (cases "e_data (lf_heap q t)") auto
  show ?thesis
  proof (cases nxt)
    case None
    have "spsc_inv q' as fs pu (Pop_finish t nxt r)"
      by (rule popper_frame_inv [OF inv heap q'_sel(1-3)])
        (use lbs ne' gone dist tl None in \<open>auto simp: as q'_sel\<close>)
    moreover have "content q' (t # bs) pu = content q' bs pu" by (simp add: content_def gone)
    ultimately show ?thesis unfolding as cont by auto
  next
    case (Some b)
    then have "bs \<noteq> []" "first bs = Some b" using nxt l by (auto simp: first_def split: list.splits)
    have "spsc_inv q' bs fs pu (Pop_finish t nxt r)"
      by (rule popper_frame_inv [OF inv heap q'_sel(1-3)])
        (use lbs ne2 gone(1) dist tl Some \<open>bs \<noteq> []\<close> \<open>first bs = Some b\<close> in
          \<open>auto simp: as q'_sel final_def\<close>)
    then show ?thesis unfolding as cont by auto
  qed
qed

lemma popper_reads:
  "spsc_inv q as fs pu (Pop_read t nxt) \<longleftrightarrow> spsc_inv q as fs pu (Pop_finish t nxt r)"
  by (cases nxt) (simp_all add: spsc_inv_def)

lemma popper_restore:
  assumes inv: "spsc_inv q as fs pu (Pop_finish t None r)"
  shows "spsc_inv (q\<lparr>lf_tail := Some t\<rparr>) as fs pu (Returned r)"
  by (rule popper_frame_inv [OF inv]) (use inv in \<open>auto simp: spsc_inv_def\<close>)

lemma popper_del_load:
  assumes inv: "spsc_inv q as fs pu (Pop_finish t (Some b) r)"
  shows "spsc_inv q as fs pu (Del_next t (lf_free q) r)"
  by (rule popper_frame_inv [OF inv]) (use inv in \<open>auto simp: spsc_inv_def\<close>)

lemma popper_del_next:
  assumes inv: "spsc_inv q as fs pu (Del_next t f r)"
  shows "spsc_inv (upd_entry t (\<lambda>e. e\<lparr>e_next := f\<rparr>) q) as fs pu (Del_cas t f r)"
proof -
  let ?q = "upd_entry t (\<lambda>e. e\<lparr>e_next := f\<rparr>) q"
  from inv have l: "linked (lf_heap q) as" and dist: "distinct (as @ fs @ own pu @ pend pu @ [t])"
    and ne: "\<forall>a \<in> set (tl as). e_data (lf_heap q a) \<noteq> None"
    and tail: "lf_tail q = first as" "e_data (lf_heap q t) = None"
    unfolding spsc_inv_def by auto
  have same: "a \<noteq> t \<Longrightarrow> lf_heap ?q a = lf_heap q a" for a by (simp add: upd_entry_def)
  have data: "e_data (lf_heap ?q a) = e_data (lf_heap q a)" for a by (simp add: upd_entry_def)
  show ?thesis
  proof (rule popper_frame_inv [OF inv])
    show "\<forall>a \<in> set (fs @ own pu @ pend pu). lf_heap ?q a = lf_heap q a"
      by (intro ballI same) (use dist in auto)
    show "linked (lf_heap ?q) as"
      by (rule linked_cong [OF _ l]) (intro ballI same, use dist in auto)
    show "\<forall>a \<in> set (tl as). e_data (lf_heap ?q a) \<noteq> None" using ne unfolding data .
    show "popper_ok ?q as (Del_cas t f r)" using tail by (simp add: upd_entry_def)
  qed (use dist in \<open>simp_all add: upd_entry_def\<close>)
qed

lemma popper_del_cas:
  assumes inv: "spsc_inv q as fs pu (Del_cas t f r)" and free: "lf_free q = f"
  shows "spsc_inv (q\<lparr>lf_free := Some t\<rparr>) as (t # fs) pu (Returned r)"
proof -
  from inv have pu: "pusher_ok q as fs pu" unfolding spsc_inv_def by blast
  have "pusher_ok (q\<lparr>lf_free := Some t\<rparr>) as (t # fs) pu" by (rule pusher_frame [OF pu]) auto
  with inv free show ?thesis unfolding spsc_inv_def by auto
qed

lemma popper_del_again:
  assumes inv: "spsc_inv q as fs pu (Del_cas t f r)"
  shows "spsc_inv q as fs pu (Del_next t (lf_free q) r)"
  by (rule popper_frame_inv [OF inv]) (use inv in \<open>auto simp: spsc_inv_def\<close>)

text \<open>All accesses of the popper.\<close>

lemma popper_access:
  assumes inv: "spsc_inv q as fs pu po" and po: "\<not> pushing po" "\<not> between po"
    and step: "lfq_access k po q = (po', q')"
  shows "\<exists>as' fs'. spsc_inv q' as' fs' pu po' \<and>
    transit q' po' @ content q' as' pu = transit q po @ content q as pu"
proof (cases po)
  case Pop_load
  with inv step popper_load [of q as fs pu] show ?thesis
    by (cases "lf_tail q") (auto simp: lfq_access_def transit_def)
next
  case (Pop_next t)
  with inv step popper_next [of q as fs pu t] show ?thesis by (auto simp: lfq_access_def transit_def)
next
  case (Pop_cas t nxt)
  with step popper_cas [OF inv [unfolded Pop_cas]] show ?thesis
    by (auto simp: lfq_access_def content_def transit_def)
next
  case (Pop_take t nxt)
  let ?e = "lf_heap q t" and ?q = "upd_entry t (\<lambda>e. e\<lparr>e_has := False\<rparr>) q"
  have same: "?q = q" if "\<not> e_has ?e"
    using that by (cases ?e; cases q) (auto simp: upd_entry_def fun_eq_iff)
  have "q' = ?q \<and> (if k = By_value \<and> e_has ?e then po' = Pop_read t nxt else po' = Pop_finish t nxt (e_data ?e))"
    using step same by (cases k; cases "e_has ?e")
      (auto simp: lfq_access_def Pop_take upd_entry_def take_data_def e_data_def)
  with popper_take [OF inv [unfolded Pop_take] refl, of "e_data ?e"] show ?thesis
    by (auto simp: Pop_take transit_def popper_reads [of _ _ _ _ t nxt "e_data ?e"] e_data_def upd_entry_def
        split: if_splits)
next
  case (Pop_read t nxt)
  with inv step popper_reads [of q as fs pu t nxt "e_value (lf_heap q t)"] show ?thesis
    by (cases k) (auto simp: lfq_access_def transit_def)
next
  case (Pop_finish t nxt r)
  show ?thesis
  proof (cases nxt)
    case None
    with inv step Pop_finish popper_restore [of q as fs pu t r] show ?thesis
      by (auto simp: lfq_access_def content_def transit_def)
  next
    case (Some b)
    have "spsc_inv q as fs pu (Del_next t (lf_free q) r)"
      by (rule popper_del_load) (rule inv [unfolded Pop_finish Some])
    with step show ?thesis by (auto simp: lfq_access_def Pop_finish Some transit_def)
  qed
next
  case (Del_next t f r)
  have "t \<notin> set (as @ pend pu)" using inv unfolding spsc_inv_def Del_next by auto
  then have "content (upd_entry t (\<lambda>e. e\<lparr>e_next := f\<rparr>) q) as pu = content q as pu"
    by (intro content_cong) (auto simp: upd_entry_def)
  with step popper_del_next [OF inv [unfolded Del_next]] show ?thesis
    by (auto simp: lfq_access_def Del_next transit_def)
next
  case (Del_cas t f r)
  with inv step popper_del_cas [of q as fs pu t f r] popper_del_again [of q as fs pu t f r] show ?thesis
    by (cases "lf_free q = f") (auto simp: lfq_access_def content_def transit_def)
qed (use po in auto)


end
