(* ===== verification/Lfqueue_Orderly.thy ===== *)
theory Lfqueue_Orderly imports Lfqueue_Invariant begin

text \<open>
  \<^verbatim>\<open>lfqueue\<close> used by any number of threads in an orderly way: no two pushes overlap and no two pops
  overlap, while a push and a pop interleave access by access. Then at every moment at most one
  thread has the part of the pusher and at most one that of the popper, and their invariant is that of
  \<open>Lfqueue_Invariant\<close>, whichever threads they are.
\<close>

section \<open>Orderly runs\<close>

definition popping :: "'a lfq_pc \<Rightarrow> bool" where
  "popping pc \<longleftrightarrow> pc \<noteq> Idle \<and> \<not> pushing pc"

definition threads_in :: "nat \<Rightarrow> ('a lfq_pc \<Rightarrow> bool) \<Rightarrow> 'a lfq_sys \<Rightarrow> nat list" where
  "threads_in n P s = filter (\<lambda>i. P (lc_pc s i)) [0..<n]"

text \<open>At most one thread is in a push, and at most one is in a pop.\<close>

definition orderly :: "nat \<Rightarrow> 'a lfq_sys \<Rightarrow> bool" where
  "orderly n s \<longleftrightarrow> length (threads_in n pushing s) \<le> 1 \<and> length (threads_in n popping s) \<le> 1"

text \<open>The steps of a system with a queue that keep the use of the queue orderly.\<close>

definition in_order :: "nat \<Rightarrow> ('s \<Rightarrow> 'a lfq_sys) \<Rightarrow> ('l \<Rightarrow> 's \<Rightarrow> 's option) \<Rightarrow> 'l \<Rightarrow> 's \<Rightarrow> 's option" where
  "in_order n queue step l s =
     (case step l s of None \<Rightarrow> None | Some t \<Rightarrow> if orderly n (queue t) then Some t else None)"

lemma in_orderD: "in_order n queue step l s = Some t \<Longrightarrow> step l s = Some t \<and> orderly n (queue t)"
  by (simp add: in_order_def split: option.splits if_splits)

lemma in_order_reach: "reach init (in_order n queue step) s \<Longrightarrow> reach init step s"
  by (induction rule: reach.induct) (auto dest: in_orderD intro: reach.intros)

lemma length_le_1_eq: "length xs \<le> Suc 0 \<Longrightarrow> i \<in> set xs \<Longrightarrow> j \<in> set xs \<Longrightarrow> i = j"
  by (cases xs; cases "tl xs") auto

lemma orderly_one:
  assumes "orderly n s" and "i < n" and "j < n"
  shows "pushing (lc_pc s i) \<Longrightarrow> pushing (lc_pc s j) \<Longrightarrow> i = j"
    and "popping (lc_pc s i) \<Longrightarrow> popping (lc_pc s j) \<Longrightarrow> i = j"
  using assms length_le_1_eq [of "threads_in n pushing s" i j] length_le_1_eq [of "threads_in n popping s" i j]
  by (simp_all add: orderly_def threads_in_def)

lemma one_at_most:
  assumes "\<And>i. P (lc_pc s i) \<Longrightarrow> i = p" shows "length (threads_in n P s) \<le> 1"
proof -
  have "set (threads_in n P s) \<subseteq> {p}" using assms by (auto simp: threads_in_def)
  then have "card (set (threads_in n P s)) \<le> card {p}" by (rule card_mono [rotated]) simp
  moreover have "distinct (threads_in n P s)" by (simp add: threads_in_def)
  ultimately show ?thesis by (metis card.empty card_insert_disjoint distinct_card empty_iff finite.emptyI One_nat_def)
qed

section \<open>The parts of the pusher and of the popper\<close>

definition role :: "('a lfq_pc \<Rightarrow> bool) \<Rightarrow> 'a lfq_sys \<Rightarrow> 'a lfq_pc \<Rightarrow> bool" where
  "role P s pc \<longleftrightarrow> (P pc \<and> (\<exists>i. lc_pc s i = pc)) \<or> (pc = Idle \<and> (\<forall>i. \<not> P (lc_pc s i)))"

lemma role_is:
  assumes "role P s pc" and "P (lc_pc s i)" and "\<And>j. P (lc_pc s j) \<Longrightarrow> j = i"
  shows "pc = lc_pc s i"
  using assms unfolding role_def by metis

lemma role_none: "role P s pc \<Longrightarrow> (\<And>i. \<not> P (lc_pc s i)) \<Longrightarrow> pc = Idle"
  by (auto simp: role_def)

lemma role_moves:
  assumes "lc_pc t = (lc_pc s)(i := x)" and "\<And>j. P (lc_pc s j) \<Longrightarrow> j = i" and "P x \<or> x = Idle" and "\<not> P Idle"
  shows "role P t x"
proof (cases "P x")
  case True
  then show ?thesis using assms(1) by (auto simp: role_def intro: exI [of _ i])
next
  case False
  then show ?thesis using assms by (auto simp: role_def)
qed

lemma role_stays:
  assumes "lc_pc t = (lc_pc s)(i := x)" and "\<not> P (lc_pc s i)" and "\<not> P x"
  shows "role P t pc = role P s pc"
proof -
  have "(\<exists>j. lc_pc t j = pc) = (\<exists>j. lc_pc s j = pc)" if "P pc"
    using that assms by (metis fun_upd_apply)
  moreover have "(\<forall>j. \<not> P (lc_pc t j)) = (\<forall>j. \<not> P (lc_pc s j))" using assms by (metis fun_upd_apply)
  ultimately show ?thesis by (auto simp: role_def)
qed

lemma push_goes_on:
  assumes "pushing pc" and "lfq_access k pc q = (pc', q')" shows "pushing pc' \<or> pc' = Idle"
proof (cases pc)
  case (New_next x f)
  with assms show ?thesis by (cases f) (auto simp: lfq_access_def alloc_entry_def)
next
  case (Push_put x b)
  with assms show ?thesis by (cases k) (auto simp: lfq_access_def)
next
  case (Push_link b old)
  with assms show ?thesis by (cases old) (auto simp: lfq_access_def)
qed (use assms in \<open>auto simp: lfq_access_def split: if_splits\<close>)

lemma pop_goes_on:
  assumes "popping pc" and "\<not> between pc" and "lfq_access k pc q = (pc', q')" shows "popping pc'"
proof (cases pc)
  case (Pop_take t nxt)
  with assms show ?thesis
    by (cases k) (auto simp: lfq_access_def popping_def Let_def split: if_splits prod.splits)
next
  case (Pop_finish t nxt r)
  with assms show ?thesis by (cases nxt) (auto simp: lfq_access_def popping_def)
qed (use assms in \<open>auto simp: lfq_access_def popping_def split: if_splits option.splits\<close>)

section \<open>What a step gives to the queue and takes from it\<close>

fun thread_of :: "'a lfq_label \<Rightarrow> nat" where
  "thread_of (Start_push i x) = i"
| "thread_of (Start_pop i) = i"
| "thread_of (Access i) = i"
| "thread_of (Return i) = i"

fun offered :: "'a lfq_label \<Rightarrow> 'a list" where
  "offered (Start_push i x) = [x]"
| "offered l = []"

fun handed :: "'a lfq_label \<Rightarrow> 'a lfq_sys \<Rightarrow> 'a list" where
  "handed (Return i) q = (case lc_pc q i of Returned r \<Rightarrow> vals [r] | _ \<Rightarrow> [])"
| "handed l q = []"

section \<open>The invariant\<close>

text \<open>\<open>gs\<close> and \<open>ts\<close> are what was pushed to and popped from the queue since it was \<open>q0\<close>, in order.\<close>

definition orderly_books :: "'a lfqueue \<Rightarrow> nat \<Rightarrow> 'a list \<Rightarrow> 'a list \<Rightarrow> 'a lfq_sys \<Rightarrow> bool" where
  "orderly_books q0 n gs ts s \<longleftrightarrow>
     orderly n s \<and> (\<forall>i \<ge> n. lc_pc s i = Idle) \<and>
     (\<exists>pu po as fs. role pushing s pu \<and> role popping s po \<and> spsc_inv (lc_q s) as fs pu po \<and>
        vals (cells q0) @ gs = ts @ transit (lc_q s) po @ content (lc_q s) as pu @ todo pu)"

lemma orderly_booksI:
  assumes "orderly n s" and "\<forall>i \<ge> n. lc_pc s i = Idle" and "role pushing s pu" and "role popping s po"
    and "spsc_inv (lc_q s) as fs pu po"
    and "vals (cells q0) @ gs = ts @ transit (lc_q s) po @ content (lc_q s) as pu @ todo pu"
  shows "orderly_books q0 n gs ts s"
  using assms unfolding orderly_books_def by blast

lemma orderly_booksE:
  assumes "orderly_books q0 n gs ts s"
  obtains pu po as fs where "orderly n s" and "\<forall>i \<ge> n. lc_pc s i = Idle"
    and "role pushing s pu" and "role popping s po" and "spsc_inv (lc_q s) as fs pu po"
    and "vals (cells q0) @ gs = ts @ transit (lc_q s) po @ content (lc_q s) as pu @ todo pu"
  using assms unfolding orderly_books_def by blast

lemma spsc_quiescent:
  "spsc_inv q as fs Idle Idle \<longleftrightarrow> lfq_rep q as fs"
  by (auto simp: spsc_inv_def lfq_rep_def chain_linked final_def)

lemma not_in [simp]: "\<not> pushing Idle" "\<not> popping Idle" "\<not> popping (New_load x)" "popping Pop_load" "popping (Returned r)"
  by (simp_all add: popping_def)

lemma transit_simps [simp]: "transit q Idle = []" "transit q Pop_load = []" "transit q (Returned r) = vals [r]"
  by (simp_all add: transit_def)

lemma orderly_init:
  assumes "lfq_ok q" shows "orderly_books q n [] [] (lfq_sys_init q)"
proof -
  from assms obtain as fs where r: "lfq_rep q as fs" by (auto simp: lfq_ok_def)
  show ?thesis
    by (rule orderly_booksI [of n _ Idle Idle as fs])
       (use r in \<open>simp_all add: orderly_def threads_in_def lfq_sys_init_def role_def spsc_quiescent content_def lfq_rep_cells\<close>)
qed

lemma start_push_books:
  assumes books: "orderly_books q0 n gs ts s" and step: "lfq_step k (Start_push i x) s = Some t"
    and i: "i < n" and t: "orderly n t"
  shows "orderly_books q0 n (gs @ [x]) ts t"
proof -
  from step have idle: "lc_pc s i = Idle"
    and t_def: "t = s\<lparr>lc_pc := (lc_pc s)(i := New_load x), lc_args := (lc_args s)(i := lc_args s i @ [x])\<rparr>"
    by (auto split: lfq_pc.splits)
  from books show ?thesis
  proof (cases rule: orderly_booksE)
    case (1 pu po as fs)
    have none: "\<not> pushing (lc_pc s j)" for j
    proof
      assume j: "pushing (lc_pc s j)"
      with 1(2) have "j < n" by (metis not_in(1) not_le)
      with orderly_one(1) [OF t i this] j idle show False by (cases "j = i") (auto simp: t_def)
    qed
    with 1(3) have pu: "pu = Idle" by (rule role_none)
    have "role pushing t (New_load x)" by (rule role_moves [of t s i]) (use none in \<open>auto simp: t_def\<close>)
    moreover have "role popping t po" using 1(4) role_stays [of t s i "New_load x" popping po] idle by (simp add: t_def)
    moreover have "spsc_inv (lc_q t) as fs (New_load x) po" using 1(5) by (simp add: pu t_def spsc_inv_def)
    ultimately show ?thesis
      by (intro orderly_booksI [OF t, of "New_load x" po as fs]) (use 1 i in \<open>auto simp: t_def pu content_def\<close>)
  qed
qed

lemma start_pop_books:
  assumes books: "orderly_books q0 n gs ts s" and step: "lfq_step k (Start_pop i) s = Some t"
    and i: "i < n" and t: "orderly n t"
  shows "orderly_books q0 n gs ts t"
proof -
  from step have idle: "lc_pc s i = Idle" and t_def: "t = s\<lparr>lc_pc := (lc_pc s)(i := Pop_load)\<rparr>"
    by (auto split: lfq_pc.splits)
  from books show ?thesis
  proof (cases rule: orderly_booksE)
    case (1 pu po as fs)
    have none: "\<not> popping (lc_pc s j)" for j
    proof
      assume j: "popping (lc_pc s j)"
      with 1(2) have "j < n" by (metis not_in(2) not_le)
      with orderly_one(2) [OF t i this] j idle show False by (cases "j = i") (auto simp: t_def)
    qed
    with 1(4) have po: "po = Idle" by (rule role_none)
    have "role popping t Pop_load" by (rule role_moves [of t s i]) (use none in \<open>auto simp: t_def\<close>)
    moreover have "role pushing t pu" using 1(3) role_stays [of t s i Pop_load pushing pu] idle by (simp add: t_def)
    moreover have "spsc_inv (lc_q t) as fs pu Pop_load" using 1(5) by (simp add: po t_def spsc_inv_def)
    ultimately show ?thesis
      by (intro orderly_booksI [OF t, of pu Pop_load]) (use 1 i in \<open>auto simp: t_def po\<close>)
  qed
qed

lemma same_turns:
  assumes "orderly n s" and "\<forall>i \<ge> n. lc_pc s i = Idle"
  shows "pushing (lc_pc s i) \<Longrightarrow> pushing (lc_pc s j) \<Longrightarrow> j = i"
    and "popping (lc_pc s i) \<Longrightarrow> popping (lc_pc s j) \<Longrightarrow> j = i"
  using orderly_one [OF assms(1), of j i] assms(2) by (metis not_in(1) not_in(2) not_le)+

lemma access_books:
  assumes books: "orderly_books q0 n gs ts s" and step: "lfq_step k (Access i) s = Some t"
    and i: "i < n" and t: "orderly n t"
  shows "orderly_books q0 n gs ts t"
proof -
  obtain pc' q' where acc: "lfq_access k (lc_pc s i) (lc_q s) = (pc', q')" by force
  with step have busy: "\<not> between (lc_pc s i)" and t_def: "t = s\<lparr>lc_q := q', lc_pc := (lc_pc s)(i := pc')\<rparr>"
    by (auto split: if_splits)
  from books show ?thesis
  proof (cases rule: orderly_booksE)
    case (1 pu po as fs)
    note turn = same_turns [OF 1(1,2), of i]
    show ?thesis
    proof (cases "pushing (lc_pc s i)")
      case True
      have pu: "pu = lc_pc s i" by (rule role_is [OF 1(3) True]) (rule turn(1) [OF True])
      note goes = push_goes_on [OF True acc]
      have "role pushing t pc'" by (rule role_moves [of t s i]) (use goes turn(1) [OF True] in \<open>auto simp: t_def\<close>)
      moreover have "role popping t po"
        using 1(4) role_stays [of t s i pc' popping po] True goes by (auto simp: t_def popping_def)
      moreover from pusher_access [OF 1(5) _ acc [folded pu]] True pu obtain as' fs' where
        "spsc_inv q' as' fs' pc' po" "content q' as' pc' @ todo pc' = content (lc_q s) as pu @ todo pu" by auto
      moreover have "transit q' po = transit (lc_q s) po"
        by (rule pusher_transit [OF 1(5) _ acc [folded pu]]) (use True pu in simp)
      ultimately show ?thesis
        by (intro orderly_booksI [OF t, of pc' po as' fs']) (use 1 i in \<open>simp_all add: t_def\<close>)
    next
      case False
      with busy have pop: "popping (lc_pc s i)" by (auto simp: popping_def)
      have po: "po = lc_pc s i" by (rule role_is [OF 1(4) pop]) (rule turn(2) [OF pop])
      note goes = pop_goes_on [OF pop busy acc]
      have "role popping t pc'" by (rule role_moves [of t s i]) (use goes turn(2) [OF pop] in \<open>auto simp: t_def\<close>)
      moreover have "role pushing t pu"
        using 1(3) role_stays [of t s i pc' pushing pu] False goes by (auto simp: t_def popping_def)
      moreover from popper_access [OF 1(5) _ _ acc [folded po]] False busy po obtain as' fs' where
        "spsc_inv q' as' fs' pu pc'" and
        "transit q' pc' @ content q' as' pu = transit (lc_q s) po @ content (lc_q s) as pu" by auto
      ultimately show ?thesis
        by (intro orderly_booksI [OF t, of pu pc' as' fs'])
           (use 1 i in \<open>simp_all add: t_def append_assoc [symmetric] del: append_assoc\<close>)
    qed
  qed
qed

lemma return_books:
  assumes books: "orderly_books q0 n gs ts s" and step: "lfq_step k (Return i) s = Some t" and t: "orderly n t"
  shows "orderly_books q0 n gs (ts @ handed (Return i) s) t"
proof -
  from step obtain r where ret: "lc_pc s i = Returned r"
    and t_def: "t = s\<lparr>lc_pc := (lc_pc s)(i := Idle), lc_results := (lc_results s)(i := lc_results s i @ [r])\<rparr>"
    by (auto split: lfq_pc.splits)
  from books show ?thesis
  proof (cases rule: orderly_booksE)
    case (1 pu po as fs)
    have pop: "popping (lc_pc s i)" by (simp add: ret)
    note turn = same_turns(2) [OF 1(1,2) pop]
    have po: "po = Returned r" using role_is [OF 1(4) pop turn] ret by simp
    have "role popping t Idle" by (rule role_moves [of t s i]) (use turn in \<open>auto simp: t_def\<close>)
    moreover have "role pushing t pu" using 1(3) role_stays [of t s i Idle pushing pu] ret by (simp add: t_def)
    moreover have "spsc_inv (lc_q t) as fs pu Idle" using 1(5) by (simp add: po t_def spsc_inv_def)
    ultimately show ?thesis
      by (intro orderly_booksI [OF t, of pu Idle as fs]) (use 1 ret in \<open>simp_all add: t_def po\<close>)
  qed
qed

lemma orderly_step:
  assumes "orderly_books q0 n gs ts s" and "lfq_step k l s = Some t" and "thread_of l < n" and "orderly n t"
  shows "orderly_books q0 n (gs @ offered l) (ts @ handed l s) t"
  using assms start_push_books start_pop_books access_books return_books
  by (cases l) (auto simp del: lfq_step.simps handed.simps(1))

text \<open>What is pushed and not popped, and what it is when nobody is in an operation.\<close>

definition at_rest :: "'a lfq_sys \<Rightarrow> bool" where
  "at_rest s \<longleftrightarrow> (\<forall>i. lc_pc s i = Idle)"

lemma orderly_content:
  assumes "orderly_books q0 n gs ts s"
  obtains rest where "vals (cells q0) @ gs = ts @ rest"
    and "at_rest s \<Longrightarrow> lfq_ok (lc_q s) \<and> rest = vals (cells (lc_q s))"
  using assms
proof (cases rule: orderly_booksE)
  case (1 pu po as fs)
  have "lfq_ok (lc_q s) \<and> transit (lc_q s) po @ content (lc_q s) as pu @ todo pu = vals (cells (lc_q s))" if "at_rest s"
  proof -
    have "pu = Idle" "po = Idle"
      using role_none [OF 1(3)] role_none [OF 1(4)] that by (simp_all add: at_rest_def)
    with 1(5) show ?thesis by (auto simp: spsc_quiescent content_def lfq_rep_cells intro: lfq_okI)
  qed
  with 1(6) that show thesis by metis
qed

section \<open>First in, first out\<close>

text \<open>What the pops of a run hand over, in the order of their returns.\<close>

fun taken_along :: "data_kind \<Rightarrow> 'a lfq_label list \<Rightarrow> 'a lfq_sys \<Rightarrow> 'a list" where
  "taken_along k [] s = []"
| "taken_along k (l # ls) s =
     handed l s @ (case lfq_step k l s of None \<Rightarrow> [] | Some t \<Rightarrow> taken_along k ls t)"

lemma orderly_run:
  assumes "run (in_order n (\<lambda>s. s) (lfq_step k)) ls s = Some t" and "orderly_books q0 n gs ts s"
    and "\<forall>l \<in> set ls. thread_of l < n"
  shows "orderly_books q0 n (gs @ concat (map offered ls)) (ts @ taken_along k ls s) t"
  using assms
proof (induction ls arbitrary: s gs ts)
  case (Cons l ls)
  from Cons.prems(1) obtain u where u: "lfq_step k l s = Some u" "orderly n u"
    and rest: "run (in_order n (\<lambda>s. s) (lfq_step k)) ls u = Some t"
    by (auto split: option.splits dest: in_orderD simp del: lfq_step.simps)
  from orderly_step [OF Cons.prems(2) u(1) _ u(2)] Cons.prems(3)
  have "orderly_books q0 n (gs @ offered l) (ts @ handed l s) u" by simp
  from Cons.IH [OF rest this] Cons.prems(3) u(1) show ?case by (simp del: lfq_step.simps handed.simps)
qed simp

text \<open>
  C4: for any number of threads, queues of values and of references: in every interleaving of the single accesses
  in which no two pushes overlap and no two pops overlap, what the pops have delivered is, in
  order, a prefix of what was queued and pushed, so that nothing is delivered twice or out of order; and whenever no
  thread is in an operation, the queue is a well-formed sequential queue that holds exactly the rest.
\<close>

theorem lfq_orderly_fifo:
  assumes "lfq_ok q" and "run (in_order n (\<lambda>s. s) (lfq_step k)) ls (lfq_sys_init q) = Some s"
    and "\<forall>l \<in> set ls. thread_of l < n"
  shows "\<exists>rest. vals (cells q) @ concat (map offered ls) = taken_along k ls (lfq_sys_init q) @ rest \<and>
           ((\<forall>i. lc_pc s i = Idle) \<longrightarrow> lfq_ok (lc_q s) \<and> rest = vals (cells (lc_q s)))"
  using orderly_content [OF orderly_run [OF assms(2) orderly_init [OF assms(1)] assms(3)]]
  by (metis append_Nil at_rest_def)

text \<open>Two threads push in turn, two pop in turn, and each pop overlaps with a push.\<close>

definition orderly_example :: "nat lfq_label list" where
  "orderly_example = [Start_push 0 10] @ replicate 6 (Access 0) @ [Start_push 1 20] @ replicate 3 (Access 1) @
     [Start_pop 2] @ replicate 2 (Access 2) @ replicate 3 (Access 1) @ replicate 4 (Access 2) @ [Return 2, Start_pop 3] @
     replicate 3 (Access 3) @ [Start_push 0 30] @ replicate 4 (Access 0) @ replicate 4 (Access 3) @ [Return 3]"

theorem lfq_orderly_fifo_witness:
  "\<exists>s rest. run (in_order 4 (\<lambda>s. s) (lfq_step By_value)) orderly_example (lfq_sys_init lfq_empty) = Some s \<and>
     taken_along By_value orderly_example (lfq_sys_init lfq_empty) = [10] \<and> [10, 20, 30] = [10] @ rest"
proof -
  have "(case run (in_order 4 (\<lambda>s. s) (lfq_step By_value)) orderly_example (lfq_sys_init lfq_empty) of None \<Rightarrow> False | Some s \<Rightarrow> True) \<and>
      taken_along By_value orderly_example (lfq_sys_init lfq_empty) = [10] \<and>
      concat (map offered orderly_example) = [10, 20, 30]"
    by code_simp
  then obtain s where s: "run (in_order 4 (\<lambda>s. s) (lfq_step By_value)) orderly_example (lfq_sys_init lfq_empty) = Some s"
    and d: "taken_along By_value orderly_example (lfq_sys_init lfq_empty) = [10]" "concat (map offered orderly_example) = [10, 20, 30]"
    by (auto split: option.splits)
  have "\<forall>l \<in> set orderly_example. thread_of l < 4" by (simp add: orderly_example_def)
  from lfq_orderly_fifo [OF lfq_ok_empty s this] s d show ?thesis by (simp add: cells_empty)
qed

end
