(* ===== verification/Lfqueue_Spsc.thy ===== *)
theory Lfqueue_Spsc imports Lfqueue_Orderly begin

text \<open>
  \<^verbatim>\<open>lfqueue\<close> with one pushing and one popping thread: their use of the queue is always orderly.
\<close>

section \<open>Every interleaving of one pusher and one popper\<close>

text \<open>Thread \<open>p\<close> only pushes, thread \<open>c\<close> only pops, and there are no others.\<close>

fun spsc_step :: "data_kind \<Rightarrow> nat \<Rightarrow> nat \<Rightarrow> 'a lfq_label \<Rightarrow> 'a lfq_sys \<Rightarrow> 'a lfq_sys option" where
  "spsc_step k p c (Start_push i x) s = (if i = p then lfq_step k (Start_push i x) s else None)"
| "spsc_step k p c (Start_pop i) s = (if i = c then lfq_step k (Start_pop i) s else None)"
| "spsc_step k p c (Access i) s = lfq_step k (Access i) s"
| "spsc_step k p c (Return i) s = lfq_step k (Return i) s"

definition apart :: "nat \<Rightarrow> nat \<Rightarrow> 'a lfq_sys \<Rightarrow> bool" where
  "apart p c s \<longleftrightarrow> (\<forall>i. i \<noteq> p \<longrightarrow> i \<noteq> c \<longrightarrow> lc_pc s i = Idle) \<and> \<not> popping (lc_pc s p) \<and> \<not> pushing (lc_pc s c)"

lemma apart_orderly: "apart p c s \<Longrightarrow> orderly n s"
  using one_at_most [of pushing s p n] one_at_most [of popping s c n]
  by (auto simp: orderly_def apart_def) (metis not_in(1), metis not_in(2))

lemma apart_step:
  assumes "apart p c s" and "p \<noteq> c" and "spsc_step k p c l s = Some t"
  shows "apart p c t"
proof (cases l)
  case (Access i)
  obtain pc' q' where acc: "lfq_access k (lc_pc s i) (lc_q s) = (pc', q')" by force
  with Access assms(3) have busy: "\<not> between (lc_pc s i)" and t: "t = s\<lparr>lc_q := q', lc_pc := (lc_pc s)(i := pc')\<rparr>"
    by (auto split: if_splits)
  then have "i = p \<or> i = c" using assms(1) by (auto simp: apart_def)
  then show ?thesis
  proof
    assume i: "i = p"
    with busy assms(1) have "pushing (lc_pc s i)" by (auto simp: apart_def popping_def)
    from push_goes_on [OF this acc] assms(1,2) i show ?thesis by (auto simp: apart_def popping_def t)
  next
    assume i: "i = c"
    with busy assms(1) have "popping (lc_pc s i)" by (auto simp: apart_def popping_def)
    from pop_goes_on [OF this busy acc] assms(1,2) i show ?thesis by (auto simp: apart_def popping_def t)
  qed
qed (use assms in \<open>auto simp: apart_def popping_def split: if_splits lfq_pc.splits\<close>)

definition spsc_sys_inv :: "'a lfqueue \<Rightarrow> nat \<Rightarrow> nat \<Rightarrow> 'a lfq_sys \<Rightarrow> bool" where
  "spsc_sys_inv q0 p c s \<longleftrightarrow> (\<forall>i. i \<noteq> p \<longrightarrow> i \<noteq> c \<longrightarrow> lc_pc s i = Idle) \<and> apart p c s \<and>
     orderly_books q0 (Suc (max p c)) (lc_args s p) (vals (lc_results s c)) s"

lemma spsc_history:
  assumes "apart p c s" and "spsc_step k p c l s = Some t"
  shows "lfq_step k l s = Some t" and "thread_of l < Suc (max p c)"
    and "lc_args t p = lc_args s p @ offered l" and "vals (lc_results t c) = vals (lc_results s c) @ handed l s"
proof -
  from assms have "lfq_step k l s = Some t \<and> (thread_of l = p \<or> thread_of l = c) \<and>
      lc_args t p = lc_args s p @ offered l \<and> vals (lc_results t c) = vals (lc_results s c) @ handed l s"
  proof (cases l)
    case (Return i)
    with assms obtain r where r: "lc_pc s i = Returned r" by (auto split: lfq_pc.splits)
    with assms(1) have "i = c" by (cases "i = p") (auto simp: apart_def popping_def)
    with r Return assms(2) show ?thesis by auto
  qed (auto simp: apart_def split: if_splits lfq_pc.splits prod.splits)
  then show "lfq_step k l s = Some t" and "thread_of l < Suc (max p c)"
    and "lc_args t p = lc_args s p @ offered l" and "vals (lc_results t c) = vals (lc_results s c) @ handed l s"
    by auto
qed

lemma spsc_step_inv:
  assumes "p \<noteq> c" and inv: "spsc_sys_inv q0 p c s" and step: "spsc_step k p c l s = Some t"
  shows "spsc_sys_inv q0 p c t"
proof -
  from inv have ap: "apart p c s" by (simp add: spsc_sys_inv_def)
  note apart = apart_step [OF ap assms(1) step] and h = spsc_history [OF ap step]
  from inv have "orderly_books q0 (Suc (max p c)) (lc_args s p) (vals (lc_results s c)) s" by (simp add: spsc_sys_inv_def)
  from orderly_step [OF this h(1,2) apart_orderly [OF apart]] apart show ?thesis
    by (simp add: spsc_sys_inv_def h apart_def)
qed

lemma spsc_reach_inv:
  assumes "lfq_ok q" and "p \<noteq> c" and "reach (lfq_sys_init q) (spsc_step k p c) s"
  shows "spsc_sys_inv q p c s"
  using assms(3)
proof (rule reach_invariant)
  show "spsc_sys_inv q p c (lfq_sys_init q)"
    using orderly_init [OF assms(1)] by (simp add: spsc_sys_inv_def apart_def lfq_sys_init_def)
qed (rule spsc_step_inv [OF assms(2)])

text \<open>
  C2: with one pushing and one popping thread the queue, of values or of references, is linearisable in order, however their
  single accesses interleave: what the pops have returned is a prefix of what was queued and
  pushed; and whenever both threads are between operations, the queue is a well-formed sequential
  queue that holds exactly the rest.
\<close>

theorem lfq_spsc_fifo:
  assumes "lfq_ok q" and "p \<noteq> c" and "reach (lfq_sys_init q) (spsc_step k p c) s"
  shows "(\<exists>rest. vals (cells q) @ lc_args s p = vals (lc_results s c) @ rest) \<and>
    (lc_pc s p = Idle \<and> lc_pc s c = Idle \<longrightarrow>
       lfq_ok (lc_q s) \<and> vals (cells q) @ lc_args s p = vals (lc_results s c) @ vals (cells (lc_q s)))"
proof -
  from spsc_reach_inv [OF assms] have books: "orderly_books q (Suc (max p c)) (lc_args s p) (vals (lc_results s c)) s"
    and others: "\<forall>i. i \<noteq> p \<longrightarrow> i \<noteq> c \<longrightarrow> lc_pc s i = Idle" by (simp_all add: spsc_sys_inv_def)
  have "lc_pc s p = Idle \<and> lc_pc s c = Idle \<longrightarrow> at_rest s"
    using others by (auto simp: at_rest_def)
  with orderly_content [OF books] show ?thesis by metis
qed

theorem lfq_spsc_fifo_witness:
  "\<exists>s. reach (lfq_sys_init lfq_empty) (spsc_step By_reference 1 2) s \<and> lc_results s 2 = [None, Some 5] \<and>
       lfq_ok (lc_q s) \<and> vals (cells (lc_q s)) = [6 :: nat]"
proof -
  let ?ls = "[Start_push 1 5] @ replicate 4 (Access 1) @ [Start_pop 2, Access 2, Return 2, Start_pop 2,
     Access 1, Access 2, Start_push 1 6] @ replicate 2 (Access 1) @ replicate 2 (Access 2) @
     replicate 3 (Access 1) @ replicate 2 (Access 2) @ [Return 2]"
  have "run_sat (spsc_step By_reference 1 2) ?ls (lfq_sys_init lfq_empty)
      (\<lambda>s. lc_results s 2 = [None, Some (5::nat)] \<and> lc_args s 1 = [5, 6] \<and> lc_pc s 1 = Idle \<and> lc_pc s 2 = Idle)"
    by code_simp
  then obtain s where r: "reach (lfq_sys_init lfq_empty) (spsc_step By_reference 1 2) s"
    and s: "lc_results s 2 = [None, Some (5::nat)]" "lc_args s 1 = [5, 6]" "lc_pc s 1 = Idle" "lc_pc s 2 = Idle"
    by (rule run_satE) blast
  from lfq_spsc_fifo [OF lfq_ok_empty _ r] s r show ?thesis by (auto simp: cells_empty)
qed

end
