(* ===== verification/Mutex.thy ===== *)
theory Mutex imports Lfqueue Transition begin

text \<open>
  \<^verbatim>\<open>crasy::mutex\<close> and \<^verbatim>\<open>mutex_lock_future\<close> (src/include/crasy/mutex.hpp,
  src/src/mutex.cpp): the operations, and runs of any number of tasks that
  \<^verbatim>\<open>co_await\<close> the lock and unlock it. The queue of suspended tasks is the model of
  \<^verbatim>\<open>lfqueue\<close>. The runs of this theory are those in which no two operations on that queue overlap, so that one
  operation is one step; \<open>Mutex_Accesses\<close> has the runs with its single accesses, where pushes and pops overlap.

  The C++ rule for \<^verbatim>\<open>co_await\<close>: \<open>await_ready\<close> is called once; if it returns false,
  \<open>await_suspend\<close> is called; a task resumed later goes on with \<open>await_resume\<close> and
  does not ask \<open>await_ready\<close> again.
\<close>

section \<open>State and operations\<close>

record mutex =
  mx_locked :: bool
  mx_suspended :: "handle lfqueue"

definition mutex_init :: mutex where
  "mutex_init = \<lparr>mx_locked = False, mx_suspended = lfq_empty\<rparr>"

definition mutex_try_lock :: "mutex \<Rightarrow> bool \<times> mutex" where
  "mutex_try_lock m = (\<not> mx_locked m, m\<lparr>mx_locked := True\<rparr>)"

text \<open>\<open>unlock\<close>: the store, then pop one suspended task and schedule it.\<close>

definition mutex_unlock_store :: "mutex \<Rightarrow> mutex" where
  "mutex_unlock_store m = m\<lparr>mx_locked := False\<rparr>"

definition mutex_unlock_wake :: "mutex \<Rightarrow> exec_ctx \<Rightarrow> (fault + unit) \<times> mutex \<times> exec_ctx" where
  "mutex_unlock_wake m ex =
     (let (suspended, q) = pop (mx_suspended m);
          m1 = m\<lparr>mx_suspended := q\<rparr>
      in case suspended of
           None \<Rightarrow> (Inr (), m1, ex)
         | Some h \<Rightarrow> (let (r, ex1) = schedule_task h ex in (r, m1, ex1)))"

definition mutex_unlock :: "mutex \<Rightarrow> exec_ctx \<Rightarrow> (fault + unit) \<times> mutex \<times> exec_ctx" where
  "mutex_unlock m ex = mutex_unlock_wake (mutex_unlock_store m) ex"

definition lock_future_ready :: "mutex \<Rightarrow> bool \<times> mutex" where
  "lock_future_ready m = mutex_try_lock m"

text \<open>
  \<open>await_suspend\<close>: enqueue the task, then look at the flag again; if it is clear, schedule
  \<^verbatim>\<open>*suspended_.pop()\<close>, whose dereference is undefined when the pop reports no value.
\<close>

definition lock_future_push :: "handle \<Rightarrow> mutex \<Rightarrow> mutex" where
  "lock_future_push h m = m\<lparr>mx_suspended := push h (mx_suspended m)\<rparr>"

definition lock_future_check :: "mutex \<Rightarrow> exec_ctx \<Rightarrow> (fault + unit) \<times> mutex \<times> exec_ctx" where
  "lock_future_check m ex =
     (if \<not> mx_locked m
      then (let (suspended, q) = pop (mx_suspended m);
                m1 = m\<lparr>mx_suspended := q\<rparr>
            in case suspended of
                 None \<Rightarrow> (Inl (Undefined Empty_option_deref), m1, ex)
               | Some h \<Rightarrow> (let (r, ex1) = schedule_task h ex in (r, m1, ex1)))
      else (Inr (), m, ex))"

definition lock_future_suspend ::
    "handle \<Rightarrow> mutex \<Rightarrow> exec_ctx \<Rightarrow> (fault + unit) \<times> mutex \<times> exec_ctx" where
  "lock_future_suspend h m ex = lock_future_check (lock_future_push h m) ex"

section \<open>Tasks\<close>

datatype co_state =
    Outside       \<comment> \<open>does not hold the lock and is not asking for it\<close>
  | Not_ready     \<comment> \<open>\<open>await_ready\<close> returned false, \<open>await_suspend\<close> not yet entered\<close>
  | Suspended     \<comment> \<open>in the queue, or scheduled but not resumed yet\<close>
  | Critical      \<comment> \<open>past \<open>co_await\<close>\<close>
  | Unlocking     \<comment> \<open>inside \<open>unlock\<close>, the flag cleared, the pop still to do\<close>

record mx_sys =
  sy_mx :: mutex
  sy_ex :: exec_ctx
  sy_co :: "handle \<Rightarrow> co_state"
  sy_checking :: nat            \<comment> \<open>\<open>await_suspend\<close> calls that have pushed and not yet checked the flag\<close>
  sy_pushed :: "handle list"    \<comment> \<open>history: tasks in the order they suspended\<close>
  sy_resumed :: "handle list"   \<comment> \<open>history: tasks in the order they were resumed\<close>
  sy_fault :: "fault option"

datatype mx_label =
    L_ready handle | L_push handle | L_check | L_resume | L_store handle | L_wake handle

definition mx_init :: mx_sys where
  "mx_init = \<lparr>sy_mx = mutex_init, sy_ex = \<lparr>in_exec = True, posted = []\<rparr>,
              sy_co = (\<lambda>_. Outside), sy_checking = 0,
              sy_pushed = [], sy_resumed = [], sy_fault = None\<rparr>"

definition fault_of :: "fault + unit \<Rightarrow> fault option" where
  "fault_of r = (case r of Inl f \<Rightarrow> Some f | Inr _ \<Rightarrow> None)"

text \<open>
  One atomic access of one task, or one whole operation on the queue: the runs are those in which queue operations do not
  overlap. After a fault nothing is defined any more, so nothing steps.
  Resuming a handle whose task is not suspended would be undefined: the fault
  \<open>Null_resume\<close>.
\<close>

fun mx_step :: "mx_label \<Rightarrow> mx_sys \<Rightarrow> mx_sys option" where
  "mx_step (L_ready h) s =
     (if sy_fault s = None \<and> sy_co s h = Outside
      then (let (ok, m) = lock_future_ready (sy_mx s)
            in Some (s\<lparr>sy_mx := m, sy_co := (sy_co s)(h := if ok then Critical else Not_ready)\<rparr>))
      else None)"
| "mx_step (L_push h) s =
     (if sy_fault s = None \<and> sy_co s h = Not_ready
      then Some (s\<lparr>sy_mx := lock_future_push h (sy_mx s), sy_co := (sy_co s)(h := Suspended),
                   sy_checking := Suc (sy_checking s), sy_pushed := sy_pushed s @ [h]\<rparr>)
      else None)"
| "mx_step L_check s =
     (if sy_fault s = None \<and> sy_checking s > 0
      then (let (r, m, ex) = lock_future_check (sy_mx s) (sy_ex s)
            in Some (s\<lparr>sy_mx := m, sy_ex := ex, sy_checking := sy_checking s - 1,
                       sy_fault := fault_of r\<rparr>))
      else None)"
| "mx_step L_resume s =
     (case posted (sy_ex s) of
        [] \<Rightarrow> None
      | h # hs \<Rightarrow>
          (if sy_fault s \<noteq> None then None
           else if sy_co s h = Suspended
           then Some (s\<lparr>sy_ex := (sy_ex s)\<lparr>posted := hs\<rparr>, sy_co := (sy_co s)(h := Critical),
                        sy_resumed := sy_resumed s @ [h]\<rparr>)
           else Some (s\<lparr>sy_fault := Some (Undefined Null_resume)\<rparr>)))"
| "mx_step (L_store h) s =
     (if sy_fault s = None \<and> sy_co s h = Critical
      then Some (s\<lparr>sy_mx := mutex_unlock_store (sy_mx s), sy_co := (sy_co s)(h := Unlocking)\<rparr>)
      else None)"
| "mx_step (L_wake h) s =
     (if sy_fault s = None \<and> sy_co s h = Unlocking
      then (let (r, m, ex) = mutex_unlock_wake (sy_mx s) (sy_ex s)
            in Some (s\<lparr>sy_mx := m, sy_ex := ex, sy_co := (sy_co s)(h := Outside),
                       sy_fault := fault_of r\<rparr>))
      else None)"

abbreviation mx_reach :: "mx_sys \<Rightarrow> bool" where
  "mx_reach \<equiv> reach mx_init mx_step"


section \<open>Invariants\<close>

definition mx_waiting :: "mx_sys \<Rightarrow> handle list" where
  "mx_waiting s = posted (sy_ex s) @ vals (cells (mx_suspended (sy_mx s)))"

definition mx_inv :: "mx_sys \<Rightarrow> bool" where
  "mx_inv s \<longleftrightarrow>
     lfq_ok (mx_suspended (sy_mx s)) \<and> in_exec (sy_ex s) \<and>
     distinct (mx_waiting s) \<and> (\<forall>h. h \<in> set (mx_waiting s) \<longleftrightarrow> sy_co s h = Suspended) \<and>
     sy_pushed s = sy_resumed s @ mx_waiting s \<and>
     sy_fault s \<in> {None, Some (Undefined Empty_option_deref)}"

lemma mutex_unlock_wake_frame:
  assumes "lfq_ok (mx_suspended m)" and "in_exec ex" and "mutex_unlock_wake m ex = (r, m1, ex1)"
  shows "r = Inr ()" and "mx_locked m1 = mx_locked m" and "lfq_ok (mx_suspended m1)" and "in_exec ex1"
    and "posted ex1 @ vals (cells (mx_suspended m1)) = posted ex @ vals (cells (mx_suspended m))"
  using assms
  by (auto simp: mutex_unlock_wake_def Let_def split: prod.splits option.splits
      dest: lq.pop_SomeD lq.pop_NoneD)

lemma lock_future_check_frame:
  assumes "lfq_ok (mx_suspended m)" and "in_exec ex" and "lock_future_check m ex = (r, m1, ex1)"
  shows "r \<in> {Inr (), Inl (Undefined Empty_option_deref)}" and "mx_locked m1 = mx_locked m"
    and "lfq_ok (mx_suspended m1)" and "in_exec ex1"
    and "posted ex1 @ vals (cells (mx_suspended m1)) = posted ex @ vals (cells (mx_suspended m))"
  using assms
  by (auto simp: lock_future_check_def Let_def split: prod.splits option.splits if_splits
      dest: lq.pop_SomeD lq.pop_NoneD)

lemma mx_inv_init: "mx_inv mx_init"
  by (simp add: mx_inv_def mx_init_def mutex_init_def mx_waiting_def lq.laws)

text \<open>A step that neither suspends nor resumes a task.\<close>

lemma mx_inv_keeps:
  assumes "mx_inv s" and "lfq_ok (mx_suspended (sy_mx t))" and "in_exec (sy_ex t)" and "mx_waiting t = mx_waiting s"
    and "\<And>h. sy_co t h = Suspended \<longleftrightarrow> sy_co s h = Suspended"
    and "sy_pushed t = sy_pushed s" and "sy_resumed t = sy_resumed s"
    and "sy_fault t \<in> {None, Some (Undefined Empty_option_deref)}"
  shows "mx_inv t"
  using assms by (simp add: mx_inv_def)

lemma mx_inv_check:
  assumes inv: "mx_inv s" and c: "lock_future_check (sy_mx s) (sy_ex s) = (r, m, ex)"
  shows "mx_inv (s\<lparr>sy_mx := m, sy_ex := ex, sy_checking := k, sy_fault := fault_of r\<rparr>)"
proof -
  from inv have "lfq_ok (mx_suspended (sy_mx s))" and "in_exec (sy_ex s)" by (simp_all add: mx_inv_def)
  note fr = lock_future_check_frame [OF this c]
  show ?thesis by (rule mx_inv_keeps [OF inv]) (use fr in \<open>auto simp: mx_waiting_def fault_of_def\<close>)
qed

lemma mx_inv_wake:
  assumes inv: "mx_inv s" and co: "sy_co s h = Unlocking" and c: "mutex_unlock_wake (sy_mx s) (sy_ex s) = (r, m, ex)"
  shows "mx_inv (s\<lparr>sy_mx := m, sy_ex := ex, sy_co := (sy_co s)(h := Outside), sy_fault := fault_of r\<rparr>)"
proof -
  from inv have "lfq_ok (mx_suspended (sy_mx s))" and "in_exec (sy_ex s)" by (simp_all add: mx_inv_def)
  note fr = mutex_unlock_wake_frame [OF this c]
  show ?thesis by (rule mx_inv_keeps [OF inv]) (use fr co in \<open>auto simp: mx_waiting_def fault_of_def\<close>)
qed

lemma mx_inv_step:
  assumes inv: "mx_inv s" and step: "mx_step l s = Some t"
  shows "mx_inv t"
proof (cases l)
  case (L_ready h)
  then show ?thesis
    by (intro mx_inv_keeps [OF inv])
      (use step inv in \<open>auto simp: mx_inv_def mx_waiting_def lock_future_ready_def mutex_try_lock_def split: if_splits\<close>)
next
  case (L_push h)
  with step have "sy_co s h = Not_ready"
    and t: "t = s\<lparr>sy_mx := lock_future_push h (sy_mx s), sy_co := (sy_co s)(h := Suspended),
                  sy_checking := Suc (sy_checking s), sy_pushed := sy_pushed s @ [h]\<rparr>"
    by (simp_all split: if_splits)
  moreover from t inv have "mx_waiting t = mx_waiting s @ [h]"
    by (simp add: mx_inv_def mx_waiting_def lock_future_push_def lq.laws)
  ultimately show ?thesis using inv by (simp add: mx_inv_def lock_future_push_def lq.laws)
next
  case L_check
  with step show ?thesis by (auto split: if_splits prod.splits intro: mx_inv_check [OF inv])
next
  case L_resume
  with inv step obtain h hs where p: "posted (sy_ex s) = h # hs" and co: "sy_co s h = Suspended"
    and t: "t = s\<lparr>sy_ex := (sy_ex s)\<lparr>posted := hs\<rparr>, sy_co := (sy_co s)(h := Critical),
                  sy_resumed := sy_resumed s @ [h]\<rparr>"
    by (auto simp: mx_inv_def mx_waiting_def split: list.splits if_splits)
  then have "mx_waiting s = h # mx_waiting t" by (simp add: mx_waiting_def)
  with t inv show ?thesis by (auto simp: mx_inv_def)
next
  case (L_store h)
  then show ?thesis
    by (intro mx_inv_keeps [OF inv])
      (use step inv in \<open>auto simp: mx_inv_def mx_waiting_def mutex_unlock_store_def split: if_splits\<close>)
next
  case (L_wake h)
  with step show ?thesis by (auto split: if_splits prod.splits intro: mx_inv_wake [OF inv])
qed

lemma mx_reach_inv: "mx_reach s \<Longrightarrow> mx_inv s"
  by (rule reach_invariant [where I = mx_inv]) (auto intro: mx_inv_init mx_inv_step)

text \<open>Mutual exclusion as long as no suspended task has been resumed.\<close>

definition mx_excl :: "mx_sys \<Rightarrow> bool" where
  "mx_excl s \<longleftrightarrow> sy_resumed s = [] \<longrightarrow>
     (\<forall>h. sy_co s h = Critical \<longrightarrow> mx_locked (sy_mx s)) \<and>
     (\<forall>h k. sy_co s h = Critical \<longrightarrow> sy_co s k = Critical \<longrightarrow> h = k)"

lemma mx_excl_init: "mx_excl mx_init"
  by (simp add: mx_excl_def mx_init_def)


lemma mx_excl_step:
  assumes "mx_excl s" and "mx_step l s = Some t" shows "mx_excl t"
proof (cases l)
  case L_check
  obtain r m ex where c: "lock_future_check (sy_mx s) (sy_ex s) = (r, m, ex)" by (metis prod_cases3)
  then have "mx_locked m = mx_locked (sy_mx s)"
    by (auto simp: lock_future_check_def Let_def split: prod.splits option.splits if_splits)
  with L_check assms c show ?thesis by (auto simp: mx_excl_def split: if_splits)
next
  case (L_wake h)
  obtain r m ex where c: "mutex_unlock_wake (sy_mx s) (sy_ex s) = (r, m, ex)" by (metis prod_cases3)
  then have "mx_locked m = mx_locked (sy_mx s)"
    by (auto simp: mutex_unlock_wake_def Let_def split: prod.splits option.splits)
  with L_wake assms c show ?thesis by (auto simp: mx_excl_def split: if_splits)
qed (use assms in \<open>force simp: mx_excl_def lock_future_ready_def mutex_try_lock_def
  lock_future_push_def mutex_unlock_store_def split: if_splits list.splits\<close>)+

lemma mx_reach_excl: "mx_reach s \<Longrightarrow> mx_excl s"
  by (rule reach_invariant [where I = mx_excl]) (auto intro: mx_excl_init mx_excl_step)

section \<open>Schedules\<close>

text \<open>
  Task 0 holds the lock, task 1 suspends, task 0 unlocks and wakes it, task 1 is resumed. The
  queue is left with its emptied cell.
\<close>

definition mx_handover :: "mx_label list" where
  "mx_handover = [L_ready 0, L_ready 1, L_push 1, L_check, L_store 0, L_wake 0, L_resume]"

lemma mx_step_Outside:
  assumes "mx_step l s = Some t" and "l \<noteq> L_ready h" and "sy_co s h = Outside"
  shows "sy_co t h = Outside"
  using assms
  by (cases l) (auto split: if_splits list.splits prod.splits)

lemma mx_run_Outside:
  "run mx_step ls s = Some t \<Longrightarrow> L_ready h \<notin> set ls \<Longrightarrow> sy_co s h = Outside \<Longrightarrow> sy_co t h = Outside"
  by (induction ls arbitrary: s) (auto split: option.splits, metis mx_step_Outside)

section \<open>Properties\<close>

text \<open>
  \<open>unlock\<close> clears the flag and takes one waiter off the queue. When the oldest cell
  holds a waiter, that one alone is scheduled; when the oldest cell is empty nobody is, even if
  waiters are queued behind it. Outside an executor the call throws after the waiter has
  already been taken off the queue.
\<close>

theorem mutex_unlock_effect:
  assumes "lfq_ok (mx_suspended m)" and "mutex_unlock m ex = (r, m1, ex1)"
  shows "\<not> mx_locked m1 \<and> lfq_ok (mx_suspended m1) \<and>
         cells (mx_suspended m1) = cells_rest (cells (mx_suspended m)) \<and>
         (case cells_front (cells (mx_suspended m)) of
            None \<Rightarrow> r = Inr () \<and> ex1 = ex
          | Some h \<Rightarrow> (r, ex1) = schedule_task h ex \<and>
                      vals (cells (mx_suspended m)) = h # vals (cells (mx_suspended m1)))"
proof -
  obtain c q where p: "pop (mx_suspended m) = (c, q)" by (metis surj_pair)
  note d = lq.popD [OF assms(1) p]
  have "c = Some h \<Longrightarrow> vals (cells (mx_suspended m)) = h # vals (cells q)" for h
    using p lq.pop_SomeD(1) [OF assms(1)] by blast
  with assms(2) p d(3) show ?thesis
    unfolding d(1,2) [symmetric]
    by (auto simp: mutex_unlock_def mutex_unlock_store_def mutex_unlock_wake_def Let_def
        split: prod.splits option.splits)
qed

theorem mutex_unlock_effect_witness:
  "\<exists>m1 ex1. mutex_unlock (lock_future_push 4 mutex_init) \<lparr>in_exec = True, posted = []\<rparr> = (Inr (), m1, ex1) \<and>
     posted ex1 = [4] \<and> cells (mx_suspended m1) = [None]"
proof -
  let ?m = "lock_future_push 4 mutex_init" and ?ex = "\<lparr>in_exec = True, posted = []\<rparr>"
  obtain r m1 ex1 where u: "mutex_unlock ?m ?ex = (r, m1, ex1)" by (metis prod_cases3)
  have "lfq_ok (mx_suspended ?m)" and "cells (mx_suspended ?m) = [Some 4]"
    by (simp_all add: lock_future_push_def mutex_init_def lq.laws)
  with mutex_unlock_effect [OF _ u] u show ?thesis by auto
qed

text \<open>
  In the runs in which no two operations on the queue overlap, a task that waits for the mutex is in exactly one place (the
  queue or the executor's run list) and there once, so it is never resumed twice and never
  dropped; and tasks are resumed in the order in which they suspended.
\<close>

theorem mutex_waiters_once_in_order:
  assumes "mx_reach s"
  shows "distinct (mx_waiting s) \<and> (\<forall>h. h \<in> set (mx_waiting s) \<longleftrightarrow> sy_co s h = Suspended) \<and>
         sy_pushed s = sy_resumed s @ mx_waiting s \<and> sy_fault s \<noteq> Some (Undefined Null_resume)"
  using mx_reach_inv [OF assms] by (auto simp: mx_inv_def)

theorem mutex_waiters_once_in_order_witness:
  "\<exists>s. mx_reach s \<and> sy_resumed s = [1] \<and> mx_waiting s = []"
proof -
  have "run_sat mx_step mx_handover mx_init (\<lambda>s. sy_resumed s = [1] \<and> sy_pushed s = [1])"
    by code_simp
  then obtain s where r: "mx_reach s" and s: "sy_resumed s = [1]" "sy_pushed s = [1]"
    by (rule run_satE) auto
  from mutex_waiters_once_in_order [OF r] s have "mx_waiting s = []" by simp
  with r s show ?thesis by blast
qed

text \<open>
  As long as every task that got the lock got it from \<open>await_ready\<close> (none was resumed
  from the queue), at most one task is in its critical section, and the flag is set then.
\<close>

theorem mutex_fast_path_exclusive:
  assumes "mx_reach s" and "sy_resumed s = []" and "sy_co s h = Critical" and "sy_co s k = Critical"
  shows "h = k \<and> mx_locked (sy_mx s)"
  using mx_reach_excl [OF assms(1)] assms(2-) by (auto simp: mx_excl_def)

theorem mutex_fast_path_exclusive_witness:
  "\<exists>s. mx_reach s \<and> sy_co s 5 = Critical \<and> mx_locked (sy_mx s)"
proof -
  have "run_sat mx_step [L_ready 5] mx_init (\<lambda>s. sy_resumed s = [] \<and> sy_co s 5 = Critical)"
    by code_simp
  then obtain s where r: "mx_reach s" and s: "sy_resumed s = []" "sy_co s 5 = Critical"
    by (rule run_satE) auto
  from mutex_fast_path_exclusive [OF r s(1) s(2) s(2)] r s show ?thesis by blast
qed

text \<open>
  The lock does not exclude once a waiter has been resumed: a resumed task enters its
  critical section without setting the flag, so a second task acquires the lock at once.
\<close>

theorem mutex_resumed_waiter_not_exclusive:
  "\<exists>s. mx_reach s \<and> sy_fault s = None \<and> sy_co s 1 = Critical \<and> sy_co s 2 = Critical"
proof -
  have "run_sat mx_step (mx_handover @ [L_ready 2]) mx_init
          (\<lambda>s. sy_fault s = None \<and> sy_co s 1 = Critical \<and> sy_co s 2 = Critical)"
    by code_simp
  then show ?thesis by (rule run_satE) blast
qed

text \<open>
  A lost wake-up is reachable: a task stays suspended while the lock is free, the run list
  is empty and no other task is doing anything, because the pop in \<open>unlock\<close> reported the
  emptied cell a former hand-over left in the queue.
\<close>

theorem mutex_lost_wakeup:
  "\<exists>s. mx_reach s \<and> sy_fault s = None \<and> sy_co s = (\<lambda>_. Outside)(3 := Suspended) \<and>
       \<not> mx_locked (sy_mx s) \<and> posted (sy_ex s) = [] \<and> sy_checking s = 0"
proof -
  let ?ls = "mx_handover @ [L_store 1, L_wake 1, L_ready 2, L_ready 3, L_push 3, L_check,
                            L_store 2, L_wake 2]"
  have "run_sat mx_step ?ls mx_init
          (\<lambda>s. sy_fault s = None \<and> sy_co s 3 = Suspended \<and> (\<forall>h \<in> set [0, 1, 2]. sy_co s h = Outside) \<and>
               \<not> mx_locked (sy_mx s) \<and> posted (sy_ex s) = [] \<and> sy_checking s = 0)"
    by code_simp
  then obtain s where r: "run mx_step ?ls mx_init = Some s" and reach: "mx_reach s"
    and s: "sy_fault s = None" "sy_co s 3 = Suspended" "\<forall>h \<in> set [0, 1, 2]. sy_co s h = Outside"
      "\<not> mx_locked (sy_mx s)" "posted (sy_ex s) = []" "sy_checking s = 0"
    by (rule run_satE) auto
  have "sy_co s h = Outside" if "h \<noteq> 3" for h
  proof (cases "h \<in> set [0, 1, 2]")
    case False
    with that have "L_ready h \<notin> set ?ls" by (simp add: mx_handover_def)
    from mx_run_Outside [OF r this] show ?thesis by (simp add: mx_init_def)
  qed (use s(3) in blast)
  then have "sy_co s = (\<lambda>_. Outside)(3 := Suspended)" using s(2) by (auto simp: fun_eq_iff)
  with reach s show ?thesis by blast
qed

text \<open>
  The dereference in \<open>await_suspend\<close> can be of an empty option: the flag is clear, the
  task has just been queued, and the pop reports the emptied cell before it.
\<close>

theorem mutex_suspend_undefined:
  "\<exists>s. mx_reach s \<and> sy_fault s = Some (Undefined Empty_option_deref)"
proof -
  have "run_sat mx_step (mx_handover @ [L_store 1, L_wake 1, L_ready 2, L_ready 3,
          L_store 2, L_wake 2, L_push 3, L_check]) mx_init
          (\<lambda>s. sy_fault s = Some (Undefined Empty_option_deref))"
    by code_simp
  then show ?thesis by (rule run_satE) blast
qed

end
