(* ===== verification/Lfqueue_Ledger.thy ===== *)
theory Lfqueue_Ledger imports Lfqueue_Orderly "HOL-Library.Multiset" begin

text \<open>
  \<^verbatim>\<open>lfqueue\<close> of references with any number of pushing and popping threads whose accesses interleave in
  any way: what survives the recycling of
  entries that \<open>lfq_aba_loses_elements\<close> shows to be unsafe. Every element is accounted for:
  on its way in, in the pointer of an entry, on its way out, or delivered. As one access stores or
  exchanges the pointer, an access moves an element
  from one account to the next or overwrites it, and never copies it. In a queue of values, where flag and object are
  accessed apart, this is not so: \<open>lfq_value_delivered_twice\<close>.
\<close>

section \<open>The accounts\<close>

text \<open>The element a push has not stored yet.\<close>

fun unput :: "'a lfq_pc \<Rightarrow> 'a multiset" where
  "unput (New_load x) = {#x#}"
| "unput (New_next x a) = {#x#}"
| "unput (New_cas x a nxt) = {#x#}"
| "unput (New_clear x a) = {#x#}"
| "unput (Push_put x a) = {#x#}"
| "unput pc = {#}"

definition cell_data :: "'a entry \<Rightarrow> 'a multiset" where
  "cell_data e = mset (vals [e_data e])"

definition stored_at :: "(addr \<Rightarrow> 'a entry) \<Rightarrow> addr set" where
  "stored_at h = {a. e_data (h a) \<noteq> None}"

definition stored :: "(addr \<Rightarrow> 'a entry) \<Rightarrow> 'a multiset" where
  "stored h = (\<Sum>a \<in> stored_at h. cell_data (h a))"

definition pushed_by :: "nat \<Rightarrow> 'a lfq_sys \<Rightarrow> 'a multiset" where
  "pushed_by n s = (\<Sum>i<n. mset (lc_args s i))"

definition delivered_to :: "nat \<Rightarrow> 'a lfq_sys \<Rightarrow> 'a multiset" where
  "delivered_to n s = (\<Sum>i<n. mset (vals (lc_results s i)))"

text \<open>The accounts of one thread and of the entries.\<close>

definition held :: "'a lfq_pc \<Rightarrow> 'a multiset" where
  "held pc = unput pc + mset (inflight pc)"

text \<open>The two places where an object and its flag are apart are those of a queue of values.\<close>

fun by_reference :: "'a lfq_pc \<Rightarrow> bool" where
  "by_reference (Push_flag x a) = False"
| "by_reference (Pop_read t nxt) = False"
| "by_reference pc = True"

definition balanced :: "nat \<Rightarrow> 'a lfq_sys \<Rightarrow> bool" where
  "balanced n s \<longleftrightarrow> (\<forall>i<n. by_reference (lc_pc s i)) \<and> finite (stored_at (lf_heap (lc_q s))) \<and>
     delivered_to n s + (\<Sum>i<n. held (lc_pc s i)) + stored (lf_heap (lc_q s)) \<subseteq># pushed_by n s"

section \<open>What a step does to the accounts\<close>

lemma stored_outside: "finite S \<Longrightarrow> stored_at h \<subseteq> S \<Longrightarrow> stored h = (\<Sum>a \<in> S. cell_data (h a))"
  unfolding stored_def by (rule sum.mono_neutral_left) (auto simp: stored_at_def cell_data_def)

lemma stored_at_upd: "finite (stored_at h) \<Longrightarrow> finite (stored_at (h(a := e)))"
  by (rule finite_subset [of _ "insert a (stored_at h)"]) (auto simp: stored_at_def)

lemma stored_upd:
  assumes fin: "finite (stored_at h)"
  shows "stored (h(a := e)) + cell_data (h a) = stored h + cell_data e"
proof -
  let ?S = "insert a (stored_at h)"
  have "stored (h(a := e)) = (\<Sum>b \<in> ?S. cell_data ((h(a := e)) b))"
    by (rule stored_outside) (use fin in \<open>auto simp: stored_at_def\<close>)
  also have "\<dots> = cell_data e + (\<Sum>b \<in> ?S - {a}. cell_data (h b))"
    using fin by (simp add: sum.remove [of ?S a])
  finally have 1: "stored (h(a := e)) = cell_data e + (\<Sum>b \<in> ?S - {a}. cell_data (h b))" .
  have "stored h = (\<Sum>b \<in> ?S. cell_data (h b))"
    by (rule stored_outside) (use fin in auto)
  also have "\<dots> = cell_data (h a) + (\<Sum>b \<in> ?S - {a}. cell_data (h b))"
    using fin by (simp add: sum.remove [of ?S a])
  finally show ?thesis by (simp add: 1)
qed

text \<open>One access: at most what the thread and the entry it writes held before.\<close>

lemma stored_same: "e_data e = e_data (h a) \<Longrightarrow> finite (stored_at h) \<Longrightarrow> stored (h(a := e)) = stored h"
  using stored_upd [of h a e] by (simp add: cell_data_def)

lemma cell_data_simps [simp]:
  "cell_data (e\<lparr>e_next := p\<rparr>) = cell_data e" "cell_data empty_entry = {#}"
  "cell_data (put_data x e) = {#x#}" "cell_data (e\<lparr>e_has := False\<rparr>) = {#}"
  by (simp_all add: cell_data_def empty_entry_def put_data_def)

lemma access_balance:
  assumes fin: "finite (stored_at (lf_heap q))" and pc: "by_reference pc"
    and acc: "lfq_access By_reference pc q = (pc', q')"
  shows "by_reference pc' \<and> finite (stored_at (lf_heap q')) \<and>
         held pc' + stored (lf_heap q') \<subseteq># held pc + stored (lf_heap q)"
proof (cases pc)
  case (New_next x f)
  have "stored ((lf_heap q)(a := empty_entry)) \<subseteq># stored (lf_heap q)" for a
    using stored_upd [OF fin, of a empty_entry] by simp (metis mset_subset_eq_add_left)
  with New_next acc fin stored_at_upd [OF fin] show ?thesis
    by (cases f) (auto simp: lfq_access_def alloc_entry_def held_def)
next
  case (Push_put x a)
  have "{#x#} + stored (lf_heap q) = stored ((lf_heap q)(a := put_data x (lf_heap q a))) + cell_data (lf_heap q a)"
    using stored_upd [OF fin, of a "put_data x (lf_heap q a)"] by simp
  with Push_put acc stored_at_upd [OF fin] show ?thesis
    by (auto simp: lfq_access_def upd_entry_def held_def)
next
  case (Pop_take t nxt)
  have took: "lf_heap q' = (lf_heap q)(t := snd (take_data (lf_heap q t)))" "pc' = Pop_finish t nxt (e_data (lf_heap q t))"
    using acc Pop_take by (auto simp: lfq_access_def upd_entry_def split_beta)
  have "cell_data (snd (take_data (lf_heap q t))) = {#}" by (simp add: cell_data_def)
  with stored_upd [OF fin, of t "snd (take_data (lf_heap q t))"]
  have "stored ((lf_heap q)(t := snd (take_data (lf_heap q t)))) + cell_data (lf_heap q t) = stored (lf_heap q)" by simp
  with Pop_take took stored_at_upd [OF fin] show ?thesis by (simp add: held_def cell_data_def add.commute)
next
  case (Push_link a old)
  with acc fin stored_at_upd [OF fin] show ?thesis
    by (cases old) (auto simp: access_defs held_def stored_same)
next
  case (Pop_finish t nxt r)
  with acc fin show ?thesis by (cases nxt) (auto simp: access_defs held_def)
qed (use pc acc fin stored_at_upd [OF fin] in
    \<open>auto simp: access_defs held_def stored_same split: if_splits option.splits\<close>)

lemma ledger_step:
  assumes "lfq_step By_reference l q = Some q'" and "thread_of l < n"
  shows "delivered_to n q' = delivered_to n q + mset (handed l q)" and "pushed_by n q' = pushed_by n q + mset (offered l)"
proof -
  have "delivered_to n q' = delivered_to n q + mset (handed l q) \<and> pushed_by n q' = pushed_by n q + mset (offered l)"
  proof (cases l)
    case (Start_push i x)
    then show ?thesis
      using assms sum_upd [of i n mset "lc_args q" "lc_args q i @ [x]"]
      by (auto simp: delivered_to_def pushed_by_def split: lfq_pc.splits)
  next
    case (Return i)
    then obtain r where "lc_pc q i = Returned r"
      and "q' = q\<lparr>lc_pc := (lc_pc q)(i := Idle), lc_results := (lc_results q)(i := lc_results q i @ [r])\<rparr>"
      using assms(1) by (auto split: lfq_pc.splits)
    then show ?thesis
      using Return assms(2) sum_upd [of i n "\<lambda>rs. mset (vals rs)" "lc_results q" "lc_results q i @ [r]"]
      by (simp add: delivered_to_def pushed_by_def)
  qed (use assms in \<open>auto simp: delivered_to_def pushed_by_def split: lfq_pc.splits if_splits prod.splits\<close>)
  then show "delivered_to n q' = delivered_to n q + mset (handed l q)" and "pushed_by n q' = pushed_by n q + mset (offered l)"
    by simp_all
qed

lemma access_balanced:
  assumes step: "lfq_step By_reference (Access i) s = Some t" and i: "i < n" and bal: "balanced n s"
  shows "balanced n t"
proof -
  from step obtain pc' q where acc: "lfq_access By_reference (lc_pc s i) (lc_q s) = (pc', q)"
    and t: "t = s\<lparr>lc_q := q, lc_pc := (lc_pc s)(i := pc')\<rparr>"
    by (auto split: if_splits prod.splits)
  from access_balance [OF _ _ acc] bal i have fin: "finite (stored_at (lf_heap q))" and ref: "by_reference pc'"
    and le: "held pc' + stored (lf_heap q) \<subseteq># held (lc_pc s i) + stored (lf_heap (lc_q s))"
    by (simp_all add: balanced_def)
  let ?H = "\<Sum>j<n. held (lc_pc s j)" and ?D = "delivered_to n s"
  have "(\<Sum>j<n. held (lc_pc t j)) + held (lc_pc s i) = ?H + held pc'"
    using sum_upd [OF i, of held "lc_pc s" pc'] t by simp
  then have "held (lc_pc s i) + (?D + (\<Sum>j<n. held (lc_pc t j)) + stored (lf_heap q)) =
      ?D + ?H + (held pc' + stored (lf_heap q))" by (simp add: ac_simps)
  also have "\<dots> \<subseteq># ?D + ?H + (held (lc_pc s i) + stored (lf_heap (lc_q s)))" using le by simp
  also have "\<dots> = held (lc_pc s i) + (?D + ?H + stored (lf_heap (lc_q s)))" by (simp add: ac_simps)
  finally have "?D + (\<Sum>j<n. held (lc_pc t j)) + stored (lf_heap q) \<subseteq># ?D + ?H + stored (lf_heap (lc_q s))"
    by simp
  with bal have "?D + (\<Sum>j<n. held (lc_pc t j)) + stored (lf_heap q) \<subseteq># pushed_by n s"
    unfolding balanced_def by (blast intro: subset_mset.order_trans)
  with fin t ref bal show ?thesis by (simp add: balanced_def delivered_to_def pushed_by_def)
qed

text \<open>A step between the accesses moves a value between its client and the thread's own variables.\<close>

lemma held_step:
  assumes "lfq_step By_reference l s = Some t" and "thread_of l < n" and "\<And>i. l \<noteq> Access i"
  shows "lc_q t = lc_q s" and "(\<Sum>j<n. held (lc_pc t j)) + mset (handed l s) = (\<Sum>j<n. held (lc_pc s j)) + mset (offered l)"
proof -
  have "lc_q t = lc_q s \<and> (\<Sum>j<n. held (lc_pc t j)) + mset (handed l s) = (\<Sum>j<n. held (lc_pc s j)) + mset (offered l)"
  proof (cases l)
    case (Start_push i x)
    with assms sum_upd [of i n held "lc_pc s" "New_load x"] show ?thesis by (auto simp: held_def split: lfq_pc.splits)
  next
    case (Start_pop i)
    with assms sum_upd [of i n held "lc_pc s" Pop_load] show ?thesis by (auto simp: held_def split: lfq_pc.splits)
  next
    case (Return i)
    with assms sum_upd [of i n held "lc_pc s" Idle] show ?thesis by (auto simp: held_def split: lfq_pc.splits)
  qed (use assms in simp)
  then show "lc_q t = lc_q s" and "(\<Sum>j<n. held (lc_pc t j)) + mset (handed l s) = (\<Sum>j<n. held (lc_pc s j)) + mset (offered l)"
    by simp_all
qed

lemma step_balanced:
  assumes step: "lfq_step By_reference l s = Some t" and i: "thread_of l < n" and bal: "balanced n s"
  shows "balanced n t"
proof (cases "\<exists>i. l = Access i")
  case True
  with step i bal show ?thesis by (auto simp del: lfq_step.simps intro: access_balanced)
next
  case False
  then have no: "\<And>i. l \<noteq> Access i" by blast
  note books = ledger_step [OF step i] held_step [OF step i no]
  from bal have fin: "finite (stored_at (lf_heap (lc_q t)))"
    and "delivered_to n s + (\<Sum>j<n. held (lc_pc s j)) + stored (lf_heap (lc_q t)) + mset (offered l) \<subseteq># pushed_by n s + mset (offered l)"
    by (simp_all add: balanced_def books(3))
  then have "delivered_to n s + ((\<Sum>j<n. held (lc_pc s j)) + mset (offered l)) + stored (lf_heap (lc_q t)) \<subseteq># pushed_by n t"
    by (simp add: books(2) ac_simps)
  then have "delivered_to n t + (\<Sum>j<n. held (lc_pc t j)) + stored (lf_heap (lc_q t)) \<subseteq># pushed_by n t"
    unfolding books(4) [symmetric] books(1) by (simp add: ac_simps)
  moreover have "\<forall>i<n. by_reference (lc_pc t i)"
    using bal step no by (cases l) (auto simp: balanced_def split: lfq_pc.splits)
  ultimately show ?thesis using fin by (simp add: balanced_def)
qed

lemma run_balanced:
  "run (lfq_step By_reference) ls s = Some t \<Longrightarrow> balanced n s \<Longrightarrow> \<forall>l \<in> set ls. thread_of l < n \<Longrightarrow> balanced n t"
  by (induction ls arbitrary: s) (auto split: option.splits intro: step_balanced)

lemma no_data_alloc:
  assumes "stored_at (lf_heap q) = {}"
  shows "stored_at (lf_heap (snd (alloc_entry q))) = {}"
  using assms by (auto simp: alloc_entry_def stored_at_def empty_entry_def)

lemma no_data_prealloc:
  "stored_at (lf_heap q) = {} \<Longrightarrow> stored_at (lf_heap (snd (prealloc k a q))) = {}"
proof (induction k arbitrary: a q)
  case (Suc k)
  obtain tmp q1 where a: "alloc_entry q = (tmp, q1)" by (cases "alloc_entry q")
  with no_data_alloc [OF Suc.prems] have "stored_at (lf_heap q1) = {}" by simp
  then have "stored_at (lf_heap (upd_entry tmp (\<lambda>e. e\<lparr>e_next := Some a\<rparr>) q1)) = {}"
    by (auto simp: upd_entry_def stored_at_def)
  from Suc.IH [OF this] a show ?case by simp
qed simp

lemma no_data_at_first: "stored_at (lf_heap (lfq_with_capacity k :: 'a lfqueue)) = {}"
proof -
  have e: "stored_at (lf_heap (lfq_empty :: 'a lfqueue)) = {}" by (simp add: stored_at_def lfq_empty_def empty_entry_def)
  show ?thesis
    using no_data_prealloc [OF no_data_alloc [OF e], of "k - 1" "fst (alloc_entry (lfq_empty :: 'a lfqueue))"] e
    by (simp add: lfq_with_capacity_def split_beta)
qed

lemma init_balanced: "balanced n (lfq_sys_init (lfq_with_capacity k))"
  by (simp add: balanced_def lfq_sys_init_def no_data_at_first stored_def delivered_to_def pushed_by_def held_def)

section \<open>Nothing twice, nothing invented\<close>

text \<open>
  C3: a queue of references, as the condition variable has one: whatever threads push and pop, and in whatever
  order their accesses interleave, overlapping as they may, the
  elements delivered, those on their way out and those stored in entries are together elements
  that were pushed, each as often as it was pushed at most. The recycling of entries can lose an
  element but it cannot deliver one twice or deliver one that was never pushed.
\<close>

theorem lfq_nothing_twice:
  assumes "run (lfq_step By_reference) ls (lfq_sys_init (lfq_with_capacity k)) = Some s"
    and "\<forall>l \<in> set ls. thread_of l < n"
  shows "delivered_to n s + (\<Sum>i<n. mset (inflight (lc_pc s i))) + stored (lf_heap (lc_q s)) \<subseteq># pushed_by n s"
proof -
  from run_balanced [OF assms(1) init_balanced assms(2)]
  have "delivered_to n s + (\<Sum>i<n. held (lc_pc s i)) + stored (lf_heap (lc_q s)) \<subseteq># pushed_by n s"
    by (simp add: balanced_def)
  moreover have "delivered_to n s + (\<Sum>i<n. mset (inflight (lc_pc s i))) + stored (lf_heap (lc_q s))
      \<subseteq># delivered_to n s + (\<Sum>i<n. held (lc_pc s i)) + stored (lf_heap (lc_q s))"
    by (simp add: held_def sum.distrib)
  ultimately show ?thesis by (rule subset_mset.order_trans [rotated])
qed

theorem lfq_nothing_twice_witness:
  "\<exists>s. reach (lfq_sys_init (lfq_with_capacity 2)) (lfq_step By_reference) s \<and>
       delivered_to 3 s + stored (lf_heap (lc_q s)) \<subseteq># pushed_by 3 s \<and>
       delivered_to 3 s = {#20#} \<and> pushed_by 3 s = {#20, 10 :: nat#}"
proof -
  let ?ls = "[Start_push 1 (10 :: nat)] @ replicate 2 (Access 1) @ [Start_push 2 20] @ replicate 7 (Access 2) @
     [Start_pop 0] @ replicate 5 (Access 0) @ [Return 0]"
  have "run_sat (lfq_step By_reference) ?ls (lfq_sys_init (lfq_with_capacity 2))
      (\<lambda>s. lc_results s 0 = [Some 20] \<and> lc_results s 1 = [] \<and> lc_results s 2 = [] \<and>
           lc_args s 0 = [] \<and> lc_args s 1 = [10] \<and> lc_args s 2 = [20])" by code_simp
  then obtain s where r: "run (lfq_step By_reference) ?ls (lfq_sys_init (lfq_with_capacity 2)) = Some s"
    and reach: "reach (lfq_sys_init (lfq_with_capacity 2)) (lfq_step By_reference) s"
    and s: "lc_results s 0 = [Some 20]" "lc_results s 1 = []" "lc_results s 2 = []"
           "lc_args s 0 = []" "lc_args s 1 = [10]" "lc_args s 2 = [20]" by (elim run_satE) simp
  have "\<forall>l \<in> set ?ls. thread_of l < 3" by simp
  from lfq_nothing_twice [OF r this]
  have "delivered_to 3 s + stored (lf_heap (lc_q s)) + (\<Sum>i<3. mset (inflight (lc_pc s i))) \<subseteq># pushed_by 3 s"
    by (simp add: ac_simps)
  then have "delivered_to 3 s + stored (lf_heap (lc_q s)) \<subseteq># pushed_by 3 s"
    by (rule subset_mset.order_trans [rotated]) simp
  with reach s show ?thesis by (intro exI [of _ s]) (simp add: delivered_to_def pushed_by_def numeral_eq_Suc)
qed

end
