(* ===== verification/Queue_Accesses.thy ===== *)
theory Queue_Accesses imports Lfqueue_Ledger begin

text \<open>
  The clients of \<^verbatim>\<open>lfqueue\<close> at its single accesses. A system that reaches a queue only through the
  threads of \<open>lfq_step\<close>, and keeps the history of what it gave to the queue and what it took from
  it, takes in an orderly run what it gave, in order and nothing twice. Of a queue of references it has in every run
  taken no more than it gave. \<open>Mutex_Accesses\<close>, \<open>Shared_Mutex_Accesses\<close>, \<open>Cv_Accesses\<close> and
  \<open>Pool_Accesses\<close> have such systems.
\<close>

lemma empty_balanced: "balanced n (lfq_sys_init lfq_empty)"
  by (simp add: balanced_def lfq_sys_init_def stored_def stored_at_def delivered_to_def pushed_by_def held_def
      lfq_empty_def empty_entry_def)

locale queue_user =
  fixes init :: 's and step :: "'l \<Rightarrow> 's \<Rightarrow> 's option"
    and queue :: "'s \<Rightarrow> 'a lfq_sys" and kind :: data_kind and popped pushed :: "'s \<Rightarrow> 'a list" and n :: nat
  assumes at_first: "queue init = lfq_sys_init lfq_empty \<and> popped init = [] \<and> pushed init = []"
    and by_access: "step l s = Some t \<Longrightarrow>
      (queue t = queue s \<and> popped t = popped s \<and> pushed t = pushed s) \<or>
      (\<exists>ql. thread_of ql < n \<and> lfq_step kind ql (queue s) = Some (queue t) \<and>
            popped t = popped s @ handed ql (queue s) \<and> pushed t = pushed s @ offered ql)"
begin

abbreviation orderly_reach :: "'s \<Rightarrow> bool" where
  "orderly_reach \<equiv> reach init (in_order n queue step)"

lemma reach_books:
  assumes "orderly_reach s" shows "orderly_books lfq_empty n (pushed s) (popped s) (queue s)"
  using assms
proof (induction rule: reach.induct)
  case reach_init
  show ?case using at_first orderly_init [OF lfq_ok_empty] by simp
next
  case (reach_step s l t)
  from in_orderD [OF reach_step.hyps(2)] have "step l s = Some t" and t: "orderly n (queue t)" by auto
  from by_access [OF this(1)] reach_step.IH orderly_step [OF reach_step.IH _ _ t] show ?case by auto
qed

text \<open>What was pushed is what was popped and what is still on its way, in order.\<close>

lemma popped_in_order:
  assumes "orderly_reach s"
  shows "\<exists>rest. pushed s = popped s @ rest \<and> (at_rest (queue s) \<longrightarrow> rest = vals (cells (lc_q (queue s))))"
  using orderly_content [OF reach_books [OF assms]] by (simp add: cells_empty) metis

lemma popped_part: "orderly_reach s \<Longrightarrow> mset (popped s) \<subseteq># mset (pushed s)"
  using popped_in_order [of s] by auto

text \<open>References.\<close>

definition accounted :: "'s \<Rightarrow> bool" where
  "accounted s \<longleftrightarrow> balanced n (queue s) \<and> mset (popped s) = delivered_to n (queue s) \<and>
     mset (pushed s) = pushed_by n (queue s)"

lemma accounted_step:
  assumes kind: "kind = By_reference" and acc: "accounted s" and step: "step l s = Some t"
  shows "accounted t"
  using by_access [OF step] acc
  by (auto simp: accounted_def kind ledger_step intro: step_balanced)

lemma reach_accounted:
  assumes "kind = By_reference" and "reach init step s" shows "accounted s"
  using assms(2)
proof (induction rule: reach.induct)
  case reach_init
  show ?case
    using at_first by (simp add: accounted_def empty_balanced) (simp add: lfq_sys_init_def delivered_to_def pushed_by_def)
qed (rule accounted_step [OF assms(1)])

lemma popped_was_pushed:
  assumes "kind = By_reference" and "reach init step s" shows "mset (popped s) \<subseteq># mset (pushed s)"
  using reach_accounted [OF assms]
  by (simp add: accounted_def balanced_def) (metis mset_subset_eq_add_left subset_mset.order_trans union_assoc)

end

end
