(* ===== verification/Suspended_Tasks.thy ===== *)
theory Suspended_Tasks imports Queue_Accesses begin

text \<open>
  Tasks that suspend into a queue and are scheduled from it, abstractly: which thread runs which task,
  which tasks are suspended, and what is posted to the executor. A system whose every step is one of the
  moves below, and that posts no more than what suspended, resumes no task twice; one that posts the tasks in the order in
  which they suspended resumes them in that order. The
  mutexes at their single accesses (\<open>Mutex_Accesses\<close>, \<open>Shared_Mutex_Accesses\<close>), used in an orderly way, are such systems.
\<close>

record tasks =
  tk_runs :: "nat \<Rightarrow> handle option"   \<comment> \<open>the task a thread runs\<close>
  tk_begun :: "handle \<Rightarrow> bool"
  tk_waits :: "handle \<Rightarrow> bool"        \<comment> \<open>suspended, and not resumed yet\<close>
  tk_posted :: "handle list"
  tk_suspended :: "handle list"      \<comment> \<open>history\<close>
  tk_resumed :: "handle list"        \<comment> \<open>history\<close>

definition tasks_init :: tasks where
  "tasks_init = \<lparr>tk_runs = (\<lambda>_. None), tk_begun = (\<lambda>_. False), tk_waits = (\<lambda>_. False), tk_posted = [],
     tk_suspended = [], tk_resumed = []\<rparr>"

text \<open>
  A thread takes up a new task, goes on with the one it runs or ends it, and suspends it; it schedules tasks at any
  time, and it resumes the task that was posted first. Nothing is said of what follows when that one is
  not suspended.
\<close>

inductive task_move :: "tasks \<Rightarrow> tasks \<Rightarrow> bool" where
  tm_post: "task_move v (v\<lparr>tk_posted := ps\<rparr>)"
| tm_begin: "tk_runs v i = None \<Longrightarrow> \<not> tk_begun v h \<Longrightarrow>
    task_move v (v\<lparr>tk_runs := (tk_runs v)(i := Some h), tk_begun := (tk_begun v)(h := True)\<rparr>)"
| tm_go_on: "tk_runs v i = Some h \<Longrightarrow> task_move v (v\<lparr>tk_waits := (tk_waits v)(h := False), tk_posted := ps\<rparr>)"
| tm_end: "tk_runs v i = Some h \<Longrightarrow> task_move v (v\<lparr>tk_runs := (tk_runs v)(i := None)\<rparr>)"
| tm_suspend: "tk_runs v i = Some h \<Longrightarrow>
    task_move v (v\<lparr>tk_runs := (tk_runs v)(i := None), tk_waits := (tk_waits v)(h := True),
                   tk_suspended := tk_suspended v @ [h]\<rparr>)"
| tm_resume: "tk_runs v i = None \<Longrightarrow> tk_posted v = h # hs \<Longrightarrow>
    task_move v (v\<lparr>tk_runs := (tk_runs v)(i := Some h), tk_waits := (tk_waits v)(h := False),
                   tk_posted := hs, tk_resumed := tk_resumed v @ [h]\<rparr>)"
| tm_misled: "tk_posted v = h # hs \<Longrightarrow> \<not> tk_waits v h \<Longrightarrow> task_move v w"

text \<open>The moves, from the parts of the states.\<close>

lemma posts:
  assumes "tk_runs w = tk_runs v" and "tk_begun w = tk_begun v" and "tk_waits w = tk_waits v"
    and "tk_suspended w = tk_suspended v" and "tk_resumed w = tk_resumed v"
  shows "task_move v w"
proof -
  have "w = v\<lparr>tk_posted := tk_posted w\<rparr>" by (rule tasks.equality) (simp_all add: assms)
  then show ?thesis by (rule ssubst) (rule tm_post)
qed

lemma begins:
  assumes "tk_runs v i = None" and "\<not> tk_begun v h"
    and "tk_runs w = (tk_runs v)(i := Some h)" and "tk_begun w = (tk_begun v)(h := True)" and "tk_waits w = tk_waits v"
    and "tk_posted w = tk_posted v" and "tk_suspended w = tk_suspended v" and "tk_resumed w = tk_resumed v"
  shows "task_move v w"
proof -
  have "w = v\<lparr>tk_runs := (tk_runs v)(i := Some h), tk_begun := (tk_begun v)(h := True)\<rparr>" by (rule tasks.equality) (simp_all add: assms)
  then show ?thesis by (rule ssubst) (rule tm_begin [OF assms(1,2)])
qed

lemma goes_on:
  assumes "tk_runs v i = Some h"
    and "tk_runs w = tk_runs v" and "tk_begun w = tk_begun v" and "tk_waits w = (tk_waits v)(h := False)"
    and "tk_suspended w = tk_suspended v" and "tk_resumed w = tk_resumed v"
  shows "task_move v w"
proof -
  have "w = v\<lparr>tk_waits := (tk_waits v)(h := False), tk_posted := tk_posted w\<rparr>" by (rule tasks.equality) (simp_all add: assms)
  then show ?thesis by (rule ssubst) (rule tm_go_on [OF assms(1)])
qed

lemma ends:
  assumes "tk_runs v i = Some h"
    and "tk_runs w = (tk_runs v)(i := None)" and "tk_begun w = tk_begun v" and "tk_waits w = tk_waits v"
    and "tk_posted w = tk_posted v" and "tk_suspended w = tk_suspended v" and "tk_resumed w = tk_resumed v"
  shows "task_move v w"
proof -
  have "w = v\<lparr>tk_runs := (tk_runs v)(i := None)\<rparr>" by (rule tasks.equality) (simp_all add: assms)
  then show ?thesis by (rule ssubst) (rule tm_end [OF assms(1)])
qed

lemma suspends:
  assumes "tk_runs v i = Some h"
    and "tk_runs w = (tk_runs v)(i := None)" and "tk_begun w = tk_begun v" and "tk_waits w = (tk_waits v)(h := True)"
    and "tk_posted w = tk_posted v" and "tk_suspended w = tk_suspended v @ [h]" and "tk_resumed w = tk_resumed v"
  shows "task_move v w"
proof -
  have "w = v\<lparr>tk_runs := (tk_runs v)(i := None), tk_waits := (tk_waits v)(h := True), tk_suspended := tk_suspended v @ [h]\<rparr>" by (rule tasks.equality) (simp_all add: assms)
  then show ?thesis by (rule ssubst) (rule tm_suspend [OF assms(1)])
qed

lemma resumes:
  assumes "tk_runs v i = None" and "tk_posted v = h # hs"
    and "tk_runs w = (tk_runs v)(i := Some h)" and "tk_begun w = tk_begun v" and "tk_waits w = (tk_waits v)(h := False)"
    and "tk_posted w = hs" and "tk_suspended w = tk_suspended v" and "tk_resumed w = tk_resumed v @ [h]"
  shows "task_move v w"
proof -
  have "w = v\<lparr>tk_runs := (tk_runs v)(i := Some h), tk_waits := (tk_waits v)(h := False), tk_posted := hs, tk_resumed := tk_resumed v @ [h]\<rparr>" by (rule tasks.equality) (simp_all add: assms)
  then show ?thesis by (rule ssubst) (rule tm_resume [OF assms(1,2)])
qed

text \<open>The invariant of the moves.\<close>

definition one_thread_each :: "tasks \<Rightarrow> bool" where
  "one_thread_each v \<longleftrightarrow> (\<forall>i j h. tk_runs v i = Some h \<and> tk_runs v j = Some h \<longrightarrow> i = j)"

definition suspensions_add_up :: "tasks \<Rightarrow> bool" where
  "suspensions_add_up v \<longleftrightarrow>
     (\<forall>h. count (mset (tk_suspended v)) h = count (mset (tk_resumed v)) h + (if tk_waits v h then 1 else 0))"

definition tasks_ok :: "tasks \<Rightarrow> bool" where
  "tasks_ok v \<longleftrightarrow> one_thread_each v \<and> suspensions_add_up v \<and>
     (\<forall>i h. tk_runs v i = Some h \<longrightarrow> tk_begun v h \<and> \<not> tk_waits v h) \<and> (\<forall>h. tk_waits v h \<longrightarrow> tk_begun v h)"

lemma tasks_ok_init: "tasks_ok tasks_init"
  by (simp add: tasks_ok_def tasks_init_def one_thread_each_def suspensions_add_up_def)

lemma posted_at_most_once:
  assumes "tasks_ok v" and "mset (tk_resumed v) + mset (tk_posted v) \<subseteq># mset (tk_suspended v)"
  shows "count (mset (tk_posted v)) h \<le> (if tk_waits v h then 1 else 0)"
  using mset_subset_eq_count [OF assms(2), of h] assms(1)
  by (auto simp: tasks_ok_def suspensions_add_up_def split: if_splits)

lemma posted_waits:
  assumes "tasks_ok v" and "mset (tk_resumed v) + mset (tk_posted v) \<subseteq># mset (tk_suspended v)"
    and "h \<in> set (tk_posted v)"
  shows "tk_waits v h"
proof (rule ccontr)
  assume "\<not> tk_waits v h"
  with posted_at_most_once [OF assms(1,2), of h] assms(3) show False by simp
qed

lemma posted_distinct:
  assumes "tasks_ok v" and "mset (tk_resumed v) + mset (tk_posted v) \<subseteq># mset (tk_suspended v)"
  shows "distinct (tk_posted v)"
proof -
  have "count (mset (tk_posted v)) h = of_bool (h \<in> set (tk_posted v))" for h
    using posted_at_most_once [OF assms, of h] count_mset_0_iff [of "tk_posted v" h]
    by (auto split: if_splits simp: order_class.le_less)
  then show ?thesis by (simp add: distinct_count_atmost_1)
qed

lemma task_move_ok:
  assumes move: "task_move v w" and ok: "tasks_ok v"
    and ledger: "mset (tk_resumed v) + mset (tk_posted v) \<subseteq># mset (tk_suspended v)"
  shows "tasks_ok w"
  using move
proof cases
  case (tm_resume i h hs)
  moreover have "tk_waits v h" by (rule posted_waits [OF ok ledger]) (simp add: tm_resume)
  ultimately show ?thesis
    using ok by (auto simp: tasks_ok_def one_thread_each_def suspensions_add_up_def)
next
  case (tm_misled h hs)
  with posted_waits [OF ok ledger, of h] show ?thesis by simp
qed (use ok in \<open>auto simp: tasks_ok_def one_thread_each_def suspensions_add_up_def; metis\<close>)+

text \<open>Tasks that are resumed in the order in which they suspended.\<close>

lemma waiting_once:
  assumes ok: "tasks_ok v" and order: "tk_suspended v = tk_resumed v @ tk_posted v @ waiting"
  shows "distinct (tk_posted v @ waiting)" and "h \<in> set (tk_posted v @ waiting) \<longleftrightarrow> tk_waits v h"
proof -
  have count: "count (mset (tk_posted v @ waiting)) h = (if tk_waits v h then 1 else 0)" for h
    using ok by (simp add: tasks_ok_def suspensions_add_up_def order)
  show waits: "h \<in> set (tk_posted v @ waiting) \<longleftrightarrow> tk_waits v h" for h
    using count [of h] count_greater_zero_iff [of "mset (tk_posted v @ waiting)" h] by (auto split: if_splits)
  with count show "distinct (tk_posted v @ waiting)"
    unfolding distinct_count_atmost_1 by (simp del: mset_append)
qed

section \<open>Systems of such tasks\<close>

locale suspending =
  fixes init :: 's and step :: "'l \<Rightarrow> 's \<Rightarrow> 's option" and view :: "'s \<Rightarrow> tasks"
  assumes view_init: "view init = tasks_init"
    and step_moves: "step l s = Some t \<Longrightarrow> task_move (view s) (view t)"
    and ledger: "reach init step s \<Longrightarrow> mset (tk_resumed (view s)) + mset (tk_posted (view s)) \<subseteq># mset (tk_suspended (view s))"
begin

lemma reach_ok: "reach init step s \<Longrightarrow> tasks_ok (view s)"
proof (induction rule: reach.induct)
  case (reach_step s l t)
  then show ?case using task_move_ok [OF step_moves] ledger by blast
qed (simp add: view_init tasks_ok_init)

text \<open>What is posted is suspended, so that resuming it is defined.\<close>

lemma resumes_suspended: "reach init step s \<Longrightarrow> h \<in> set (tk_posted (view s)) \<Longrightarrow> tk_waits (view s) h"
  by (rule posted_waits [OF reach_ok ledger])

lemma resumed_once:
  assumes "reach init step s"
  shows "distinct (tk_posted (view s)) \<and> (\<forall>h \<in> set (tk_posted (view s)). tk_waits (view s) h) \<and>
    suspensions_add_up (view s) \<and> one_thread_each (view s)"
  using reach_ok [OF assms] posted_distinct [OF reach_ok ledger, OF assms assms] resumes_suspended [OF assms]
  by (simp add: tasks_ok_def)

lemma resumed_in_order:
  assumes "reach init step s" and "tk_suspended (view s) = tk_resumed (view s) @ tk_posted (view s) @ waiting"
  shows "distinct (tk_posted (view s) @ waiting) \<and> (\<forall>h. h \<in> set (tk_posted (view s) @ waiting) \<longleftrightarrow> tk_waits (view s) h) \<and>
    one_thread_each (view s)"
  using waiting_once [OF reach_ok [OF assms(1)] assms(2)] reach_ok [OF assms(1)] by (simp add: tasks_ok_def)

end

end
