(* ===== verification/Mutex_Accesses.thy ===== *)
theory Mutex_Accesses imports Mutex Suspended_Tasks begin

text \<open>
  \<open>mutex\<close> (src/mutex.cpp) at its single accesses, those of its flag, of its queue \<open>suspended_\<close>, and of the
  awaiter through which \<open>await_suspend\<close> reaches it. Threads run tasks that call the members in any order, also to unlock
  what they do not hold. A thread runs one task until it suspends, finishes the
  \<open>await_suspend\<close> of that task while another thread may already resume it, and then takes the next
  posted task.
\<close>

section \<open>Threads\<close>

datatype mx_pc =
    T_idle
  | T_run handle         \<comment> \<open>running the task\<close>
  | T_suspend handle     \<comment> \<open>\<open>await_ready\<close> was false\<close>
  | T_push handle        \<comment> \<open>in \<open>await_suspend\<close>, in the push\<close>
  | T_check handle       \<comment> \<open>in \<open>await_suspend\<close>, \<open>mtx_\<close> to be read for the flag\<close>
  | T_flag handle        \<comment> \<open>in \<open>await_suspend\<close>, the flag to be read\<close>
  | T_again handle       \<comment> \<open>in \<open>await_suspend\<close>, \<open>mtx_\<close> to be read for the pop\<close>
  | T_check_pop handle   \<comment> \<open>in \<open>await_suspend\<close>, in the pop\<close>
  | T_wake handle        \<comment> \<open>in \<open>unlock\<close>, before the pop\<close>
  | T_wake_pop handle    \<comment> \<open>in \<open>unlock\<close>, in the pop\<close>

record mx_threads =
  ma_locked :: bool
  ma_q :: "handle lfq_sys"       \<comment> \<open>\<open>suspended_\<close>\<close>
  ma_ex :: exec_ctx
  ma_pc :: "nat \<Rightarrow> mx_pc"
  ma_begun :: "handle \<Rightarrow> bool"
  ma_gone :: "nat \<Rightarrow> bool"         \<comment> \<open>the awaiter of the \<open>await_suspend\<close> a thread is in was destroyed\<close>
  ma_waits :: "handle \<Rightarrow> bool"     \<comment> \<open>history: suspended, and not resumed yet\<close>
  ma_pushed :: "handle list"     \<comment> \<open>history\<close>
  ma_popped :: "handle list"     \<comment> \<open>history\<close>
  ma_resumed :: "handle list"    \<comment> \<open>history\<close>
  ma_fault :: "fault option"

definition mx_threads_init :: mx_threads where
  "mx_threads_init = \<lparr>ma_locked = mx_locked mutex_init, ma_q = lfq_sys_init (mx_suspended mutex_init),
     ma_ex = \<lparr>in_exec = True, posted = []\<rparr>, ma_pc = (\<lambda>_. T_idle), ma_begun = (\<lambda>_. False), ma_gone = (\<lambda>_. False),
     ma_waits = (\<lambda>_. False), ma_pushed = [], ma_popped = [], ma_resumed = [], ma_fault = None\<rparr>"

text \<open>The mutex as its members see it, and what they write to its flag.\<close>

definition ma_mutex :: "mx_threads \<Rightarrow> mutex" where
  "ma_mutex s = \<lparr>mx_locked = ma_locked s, mx_suspended = lc_q (ma_q s)\<rparr>"

definition ma_set :: "mutex \<Rightarrow> mx_threads \<Rightarrow> mx_threads" where
  "ma_set m s = s\<lparr>ma_locked := mx_locked m\<rparr>"

text \<open>What \<open>unlock\<close> and \<open>await_suspend\<close> do with the answer of their pop.\<close>

definition unlock_popped :: "handle option \<Rightarrow> exec_ctx \<Rightarrow> (fault + unit) \<times> exec_ctx" where
  "unlock_popped suspended ex = (case suspended of None \<Rightarrow> (Inr (), ex) | Some h \<Rightarrow> schedule_task h ex)"

definition check_popped :: "handle option \<Rightarrow> exec_ctx \<Rightarrow> (fault + unit) \<times> exec_ctx" where
  "check_popped suspended ex =
     (case suspended of None \<Rightarrow> (Inl (Undefined Empty_option_deref), ex) | Some h \<Rightarrow> schedule_task h ex)"

lemma popped_parts:
  "mutex_unlock_wake m ex =
     (let (suspended, q) = pop (mx_suspended m); (r, ex1) = unlock_popped suspended ex
      in (r, m\<lparr>mx_suspended := q\<rparr>, ex1))"
  "\<not> mx_locked m \<Longrightarrow> lock_future_check m ex =
     (let (suspended, q) = pop (mx_suspended m); (r, ex1) = check_popped suspended ex
      in (r, m\<lparr>mx_suspended := q\<rparr>, ex1))"
  by (auto simp: mutex_unlock_wake_def lock_future_check_def unlock_popped_def check_popped_def Let_def
      split: prod.splits option.splits)

definition ma_goto :: "nat \<Rightarrow> mx_pc \<Rightarrow> mx_threads \<Rightarrow> mx_threads" where
  "ma_goto i pc s = s\<lparr>ma_pc := (ma_pc s)(i := pc)\<rparr>"

definition ma_queue :: "handle lfq_label \<Rightarrow> mx_threads \<Rightarrow> mx_threads option" where
  "ma_queue l s = map_option (\<lambda>q. s\<lparr>ma_q := q\<rparr>) (lfq_step By_value l (ma_q s))"

text \<open>The task whose \<open>await_suspend\<close> a thread is in.\<close>

fun finishing :: "mx_pc \<Rightarrow> handle option" where
  "finishing (T_push h) = Some h"
| "finishing (T_check h) = Some h"
| "finishing (T_flag h) = Some h"
| "finishing (T_again h) = Some h"
| "finishing pc = None"

text \<open>
  What a task does next. The awaiter is a part of the task's frame and ends with the expression that
  awaits it, or with the task: \<open>M_leave\<close> and \<open>M_end\<close> destroy the awaiters of the task.
\<close>

datatype mx_call = M_try | M_lock | M_unlock | M_leave | M_end

definition ma_leaves :: "handle \<Rightarrow> mx_threads \<Rightarrow> mx_threads" where
  "ma_leaves h s = s\<lparr>ma_gone := (\<lambda>j. ma_gone s j \<or> finishing (ma_pc s j) = Some h)\<rparr>"

fun ma_calls :: "mx_call \<Rightarrow> nat \<Rightarrow> handle \<Rightarrow> mx_threads \<Rightarrow> mx_threads" where
  "ma_calls M_try i h s = ma_set (snd (mutex_try_lock (ma_mutex s))) s"
| "ma_calls M_lock i h s =
     (let (ready, m) = lock_future_ready (ma_mutex s)
      in ma_goto i (if ready then T_run h else T_suspend h) (ma_set m s))"
| "ma_calls M_unlock i h s = ma_goto i (T_wake h) (ma_set (mutex_unlock_store (ma_mutex s)) s)"
| "ma_calls M_leave i h s = ma_leaves h s"
| "ma_calls M_end i h s = ma_goto i T_idle (ma_leaves h s)"

text \<open>The next access of a thread inside a member; one that runs a task, or none, has no such access.\<close>

fun ma_next :: "mx_pc \<Rightarrow> nat \<Rightarrow> mx_threads \<Rightarrow> mx_threads option" where
  "ma_next (T_suspend h) i s =
     map_option (\<lambda>s1. ma_goto i (T_push h)
         (s1\<lparr>ma_gone := (ma_gone s)(i := False), ma_waits := (ma_waits s)(h := True), ma_pushed := ma_pushed s @ [h]\<rparr>))
       (ma_queue (Start_push i h) s)"
| "ma_next (T_push h) i s =
     (case lc_pc (ma_q s) i of Idle \<Rightarrow> Some (ma_goto i (T_check h) s) | _ \<Rightarrow> ma_queue (Access i) s)"
| "ma_next (T_check h) i s =
     Some (if ma_gone s i then s\<lparr>ma_fault := Some (Undefined Use_after_free)\<rparr> else ma_goto i (T_flag h) s)"
| "ma_next (T_flag h) i s = Some (ma_goto i (if \<not> mx_locked (ma_mutex s) then T_again h else T_idle) s)"
| "ma_next (T_again h) i s =
     (if ma_gone s i then Some (s\<lparr>ma_fault := Some (Undefined Use_after_free)\<rparr>)
      else map_option (ma_goto i (T_check_pop h)) (ma_queue (Start_pop i) s))"
| "ma_next (T_check_pop h) i s =
     (case lc_pc (ma_q s) i of
        Returned p \<Rightarrow>
          (let (r, ex) = check_popped p (ma_ex s)
           in map_option (\<lambda>s1. ma_goto i T_idle
                  (s1\<lparr>ma_ex := ex, ma_popped := ma_popped s @ vals [p], ma_fault := fault_of r\<rparr>)) (ma_queue (Return i) s))
      | _ \<Rightarrow> ma_queue (Access i) s)"
| "ma_next (T_wake h) i s = map_option (ma_goto i (T_wake_pop h)) (ma_queue (Start_pop i) s)"
| "ma_next (T_wake_pop h) i s =
     (case lc_pc (ma_q s) i of
        Returned p \<Rightarrow>
          (let (r, ex) = unlock_popped p (ma_ex s)
           in map_option (\<lambda>s1. ma_goto i (T_run h)
                  (s1\<lparr>ma_ex := ex, ma_popped := ma_popped s @ vals [p], ma_fault := fault_of r\<rparr>)) (ma_queue (Return i) s))
      | _ \<Rightarrow> ma_queue (Access i) s)"
| "ma_next (T_run h) i s = None"
| "ma_next T_idle i s = None"

text \<open>An idle thread takes the next posted task.\<close>

definition ma_resume :: "nat \<Rightarrow> mx_threads \<Rightarrow> mx_threads option" where
  "ma_resume i s =
     (case posted (ma_ex s) of
        [] \<Rightarrow> None
      | h # hs \<Rightarrow>
          (if ma_waits s h
           then Some (ma_goto i (T_run h) (s\<lparr>ma_ex := (ma_ex s)\<lparr>posted := hs\<rparr>, ma_waits := (ma_waits s)(h := False),
                  ma_resumed := ma_resumed s @ [h]\<rparr>))
           else Some (s\<lparr>ma_fault := Some (Undefined Null_resume)\<rparr>)))"

datatype mx_thread_label = A_begin nat handle | A_call nat mx_call | A_next nat | A_resume nat

fun label_thread :: "mx_thread_label \<Rightarrow> nat" where
  "label_thread (A_begin i h) = i"
| "label_thread (A_call i c) = i"
| "label_thread (A_next i) = i"
| "label_thread (A_resume i) = i"

fun ma_move :: "mx_thread_label \<Rightarrow> mx_threads \<Rightarrow> mx_threads option" where
  "ma_move (A_begin i h) s =
     (if ma_pc s i = T_idle \<and> \<not> ma_begun s h
      then Some (ma_goto i (T_run h) (s\<lparr>ma_begun := (ma_begun s)(h := True)\<rparr>)) else None)"
| "ma_move (A_call i c) s = (case ma_pc s i of T_run h \<Rightarrow> Some (ma_calls c i h s) | _ \<Rightarrow> None)"
| "ma_move (A_next i) s = ma_next (ma_pc s i) i s"
| "ma_move (A_resume i) s = (if ma_pc s i = T_idle then ma_resume i s else None)"

definition ma_step :: "nat \<Rightarrow> mx_thread_label \<Rightarrow> mx_threads \<Rightarrow> mx_threads option" where
  "ma_step n l s = (if label_thread l < n \<and> ma_fault s = None then ma_move l s else None)"

lemma ma_sel [simp]:
  "ma_q (ma_goto i pc s) = ma_q s" "ma_ex (ma_goto i pc s) = ma_ex s" "ma_pushed (ma_goto i pc s) = ma_pushed s"
  "ma_popped (ma_goto i pc s) = ma_popped s" "ma_resumed (ma_goto i pc s) = ma_resumed s" "ma_begun (ma_goto i pc s) = ma_begun s"
  "ma_waits (ma_goto i pc s) = ma_waits s" "ma_fault (ma_goto i pc s) = ma_fault s" "ma_gone (ma_goto i pc s) = ma_gone s"
  "ma_pc (ma_goto i pc s) = (ma_pc s)(i := pc)"
  "ma_q (ma_set m s) = ma_q s" "ma_ex (ma_set m s) = ma_ex s" "ma_pushed (ma_set m s) = ma_pushed s"
  "ma_popped (ma_set m s) = ma_popped s" "ma_resumed (ma_set m s) = ma_resumed s" "ma_begun (ma_set m s) = ma_begun s"
  "ma_pc (ma_set m s) = ma_pc s" "ma_waits (ma_set m s) = ma_waits s" "ma_fault (ma_set m s) = ma_fault s"
  "ma_gone (ma_set m s) = ma_gone s"
  "ma_q (ma_leaves h s) = ma_q s" "ma_ex (ma_leaves h s) = ma_ex s" "ma_pushed (ma_leaves h s) = ma_pushed s"
  "ma_popped (ma_leaves h s) = ma_popped s" "ma_resumed (ma_leaves h s) = ma_resumed s" "ma_begun (ma_leaves h s) = ma_begun s"
  "ma_pc (ma_leaves h s) = ma_pc s" "ma_waits (ma_leaves h s) = ma_waits s" "ma_fault (ma_leaves h s) = ma_fault s"
  by (simp_all add: ma_goto_def ma_set_def ma_leaves_def)



section \<open>The steps, by what they do to the queue\<close>









section \<open>The invariant\<close>













section \<open>Properties\<close>


definition mx_example :: "mx_thread_label list" where
  "mx_example = [A_begin 0 1, A_call 0 M_lock, A_begin 1 2, A_call 1 M_lock, A_next 1] @ replicate 7 (A_next 1)"


text \<open>
  The mutex is reached through the awaiter, a part of the task's own frame, after its handle was published: another
  thread can have resumed the task, which has run on and ended, before its
  \<open>await_suspend\<close> reads \<open>mtx_\<close> again.
\<close>

theorem mutex_awaiter_outlived:
  "\<exists>s. reach mx_threads_init (in_order 3 ma_q (ma_step 3)) s \<and> ma_fault s = Some (Undefined Use_after_free) \<and> ma_resumed s = [2]"
proof -
  have "run_sat (in_order 3 ma_q (ma_step 3)) (mx_example @ [A_call 0 M_unlock] @ replicate 8 (A_next 0) @
        [A_resume 2, A_call 2 M_end, A_next 1]) mx_threads_init
      (\<lambda>s. ma_fault s = Some (Undefined Use_after_free) \<and> ma_resumed s = [2])"
    by code_simp
  then show ?thesis by (elim run_satE) blast
qed

end
