(* ===== verification/Shared_Mutex.thy ===== *)
theory Shared_Mutex imports Lfqueue Transition begin

text \<open>
  \<^verbatim>\<open>crasy::shared_mutex\<close> and its two lock futures (src/include/crasy/shared_mutex.hpp,
  src/src/shared_mutex.cpp). The state is one \<^verbatim>\<open>std::size_t\<close>, 64 bits wide as on the
  platforms the library names: the top bit is set while a writer holds the lock or has asked for
  it, the other bits count readers. Additions and subtractions wrap.
\<close>

unbundle bit_operations_syntax

section \<open>The state word\<close>

definition EX_BIT :: "64 word" where
  "EX_BIT = NOT (drop_bit 1 (NOT 0))"

lemma EX_BIT_eq: "EX_BIT = 2 ^ 63"
  unfolding EX_BIT_def by code_simp

lemma unat_EX_BIT [simp]: "unat EX_BIT = 2 ^ 63"
  by (simp add: EX_BIT_eq)

lemma EX_BIT_nz [simp]: "EX_BIT \<noteq> 0"
  unfolding EX_BIT_def by code_simp

lemma ex_clear_iff: "(st AND EX_BIT) = 0 \<longleftrightarrow> unat st < 2 ^ 63" for st :: "64 word"
proof -
  have small: "n < 2 \<Longrightarrow> odd n \<longleftrightarrow> n \<noteq> 0" for n :: nat by (cases n) auto
  have "unat st < 2 ^ 64" using unsigned_less [of st] by simp
  then have "unat st div 2 ^ 63 < 2" by (simp add: less_mult_imp_div_less)
  then have "odd (unat st div 2 ^ 63) \<longleftrightarrow> unat st div 2 ^ 63 \<noteq> 0" by (rule small)
  moreover have "bit (unat st) 63 \<longleftrightarrow> bit st 63" by (simp add: bit_unsigned_iff)
  ultimately have "bit st 63 \<longleftrightarrow> unat st div 2 ^ 63 \<noteq> 0" by (simp add: bit_iff_odd [of "unat st"])
  then show ?thesis by (simp add: EX_BIT_eq and_exp_eq_0_iff_not_bit div_eq_0_iff del: power_numeral)
qed

lemma low_bits_eq: "st AND NOT EX_BIT = take_bit 63 st" for st :: "64 word"
  by (simp add: EX_BIT_def take_bit_eq_mask)

lemma unat_low_bits: "unat (st AND NOT EX_BIT) = unat st mod 2 ^ 63" for st :: "64 word"
proof -
  have "unat (take_bit 63 st) = take_bit 63 (unat st)" by (rule unsigned_take_bit_eq)
  then show ?thesis by (simp only: low_bits_eq take_bit_eq_mod [where 'a = nat])
qed

section \<open>Operations\<close>

record shared_mutex =
  sm_state :: "64 word"
  sm_suspended :: "handle lfqueue"

definition sm_init :: shared_mutex where
  "sm_init = \<lparr>sm_state = 0, sm_suspended = lfq_empty\<rparr>"

type_synonym drained = "((fault + unit) \<times> shared_mutex \<times> exec_ctx) option"

definition sm_drain :: "shared_mutex \<Rightarrow> exec_ctx \<Rightarrow> drained" where
  "sm_drain m ex =
     map_option (\<lambda>(r, q, ex1). (r, m\<lparr>sm_suspended := q\<rparr>, ex1))
       (drain_with pop schedule_task (sm_suspended m) ex)"

definition sm_try_lock :: "shared_mutex \<Rightarrow> bool \<times> shared_mutex" where
  "sm_try_lock m = (if sm_state m = 0 then (True, m\<lparr>sm_state := EX_BIT\<rparr>) else (False, m))"

definition sm_unlock_sub :: "shared_mutex \<Rightarrow> shared_mutex" where
  "sm_unlock_sub m = m\<lparr>sm_state := sm_state m - EX_BIT\<rparr>"

definition sm_unlock :: "shared_mutex \<Rightarrow> exec_ctx \<Rightarrow> drained" where
  "sm_unlock m ex = sm_drain (sm_unlock_sub m) ex"

text \<open>\<open>try_lock_shared\<close> is two atomic accesses: the addition, and the subtraction that undoes it.\<close>

definition sm_shared_add :: "shared_mutex \<Rightarrow> bool \<times> shared_mutex" where
  "sm_shared_add m =
     (let tmp = sm_state m in (tmp AND EX_BIT = 0, m\<lparr>sm_state := tmp + 1\<rparr>))"

definition sm_shared_undo :: "shared_mutex \<Rightarrow> shared_mutex" where
  "sm_shared_undo m = m\<lparr>sm_state := sm_state m - 1\<rparr>"

definition sm_try_lock_shared :: "shared_mutex \<Rightarrow> bool \<times> shared_mutex" where
  "sm_try_lock_shared m =
     (let (free, m1) = sm_shared_add m in if free then (True, m1) else (False, sm_shared_undo m1))"

definition sm_shared_sub :: "shared_mutex \<Rightarrow> bool \<times> shared_mutex" where
  "sm_shared_sub m =
     (let tmp = sm_state m in (tmp AND NOT EX_BIT = 1, m\<lparr>sm_state := tmp - 1\<rparr>))"

definition sm_unlock_shared :: "shared_mutex \<Rightarrow> exec_ctx \<Rightarrow> drained" where
  "sm_unlock_shared m ex =
     (let (last_reader, m1) = sm_shared_sub m
      in if last_reader then sm_drain m1 ex else Some (Inr (), m1, ex))"

text \<open>
  \<open>shared_mutex_lock_future\<close>; \<open>requested\<close> is its own flag. A successful
  \<^verbatim>\<open>compare_exchange\<close> leaves the local \<^verbatim>\<open>state\<close> as it was, with the bit clear.
\<close>

definition ex_future_ready :: "bool \<Rightarrow> shared_mutex \<Rightarrow> bool \<times> bool \<times> shared_mutex" where
  "ex_future_ready requested m =
     (if requested then (sm_state m = EX_BIT, requested, m)
      else (let state = sm_state m
            in if state AND EX_BIT = 0
               then (state = EX_BIT, True, m\<lparr>sm_state := state OR EX_BIT\<rparr>)
               else (False, requested, m)))"

definition sm_enqueue :: "handle \<Rightarrow> shared_mutex \<Rightarrow> shared_mutex" where
  "sm_enqueue h m = m\<lparr>sm_suspended := push h (sm_suspended m)\<rparr>"

definition ex_future_suspend :: "handle \<Rightarrow> shared_mutex \<Rightarrow> exec_ctx \<Rightarrow> drained" where
  "ex_future_suspend h m ex =
     (let m1 = sm_enqueue h m
      in if sm_state m1 = 0 then sm_drain m1 ex else Some (Inr (), m1, ex))"

definition sh_future_ready :: "shared_mutex \<Rightarrow> bool \<times> shared_mutex" where
  "sh_future_ready m = sm_try_lock m"

definition sh_future_suspend :: "handle \<Rightarrow> shared_mutex \<Rightarrow> exec_ctx \<Rightarrow> drained" where
  "sh_future_suspend h m ex =
     (let m1 = sm_enqueue h m
      in if sm_state m1 AND EX_BIT = 0 then sm_drain m1 ex else Some (Inr (), m1, ex))"


lemma sm_drain_state:
  "sm_drain m ex = Some (r, m1, ex1) \<Longrightarrow> sm_state m1 = sm_state m"
  by (auto simp: sm_drain_def)

text \<open>What a drain delivers, by the oldest cell of the queue.\<close>

lemma sm_drain_result:
  assumes "lfq_ok (sm_suspended m)" and "in_exec ex"
  shows "\<exists>q. sm_drain m ex = Some (Inr (), m\<lparr>sm_suspended := q\<rparr>,
            ex\<lparr>posted := posted ex @
               (if cells_front (cells (sm_suspended m)) = None then []
                else vals (cells (sm_suspended m)))\<rparr>) \<and> lfq_ok q \<and>
           cells q = (if cells_front (cells (sm_suspended m)) = None
                      then cells_rest (cells (sm_suspended m)) else [None])"
proof (cases "cells_front (cells (sm_suspended m))")
  case None
  with assms show ?thesis
    by (intro exI [of _ "snd (pop (sm_suspended m))"])
      (simp add: sm_drain_def lq.drain_front_None lq.laws)
next
  case (Some h)
  with assms lq.drain_front_Some [OF assms(1), of schedule_task ex] show ?thesis
    by (fastforce simp: sm_drain_def)
qed

section \<open>Threads that use \<open>try_lock\<close> and \<open>try_lock_shared\<close>\<close>

text \<open>
  \<open>N\<close> threads, each idle, writing, reading, or between the addition of a failed
  \<open>try_lock_shared\<close> and the subtraction that undoes it. A step is one atomic access to the
  state word; the drain after a release does not touch the word (\<open>sm_drain_state\<close>).
\<close>

datatype rw_pc = RW_idle | RW_writer | RW_reader | RW_backoff

record rw_sys =
  rw_mx :: shared_mutex
  rw_pc :: "nat \<Rightarrow> rw_pc"

definition rw_init :: rw_sys where
  "rw_init = \<lparr>rw_mx = sm_init, rw_pc = (\<lambda>_. RW_idle)\<rparr>"

inductive rw_step :: "nat \<Rightarrow> rw_sys \<Rightarrow> rw_sys \<Rightarrow> bool" for N where
  rw_try_ok: "i < N \<Longrightarrow> rw_pc s i = RW_idle \<Longrightarrow> sm_try_lock (rw_mx s) = (True, m) \<Longrightarrow>
    rw_step N s (s\<lparr>rw_mx := m, rw_pc := (rw_pc s)(i := RW_writer)\<rparr>)"
| rw_try_fail: "i < N \<Longrightarrow> rw_pc s i = RW_idle \<Longrightarrow> sm_try_lock (rw_mx s) = (False, m) \<Longrightarrow>
    rw_step N s (s\<lparr>rw_mx := m\<rparr>)"
| rw_unlock: "rw_pc s i = RW_writer \<Longrightarrow>
    rw_step N s (s\<lparr>rw_mx := sm_unlock_sub (rw_mx s), rw_pc := (rw_pc s)(i := RW_idle)\<rparr>)"
| rw_add_ok: "i < N \<Longrightarrow> rw_pc s i = RW_idle \<Longrightarrow> sm_shared_add (rw_mx s) = (True, m) \<Longrightarrow>
    rw_step N s (s\<lparr>rw_mx := m, rw_pc := (rw_pc s)(i := RW_reader)\<rparr>)"
| rw_add_fail: "i < N \<Longrightarrow> rw_pc s i = RW_idle \<Longrightarrow> sm_shared_add (rw_mx s) = (False, m) \<Longrightarrow>
    rw_step N s (s\<lparr>rw_mx := m, rw_pc := (rw_pc s)(i := RW_backoff)\<rparr>)"
| rw_undo: "rw_pc s i = RW_backoff \<Longrightarrow>
    rw_step N s (s\<lparr>rw_mx := sm_shared_undo (rw_mx s), rw_pc := (rw_pc s)(i := RW_idle)\<rparr>)"
| rw_unlock_shared: "rw_pc s i = RW_reader \<Longrightarrow> sm_shared_sub (rw_mx s) = (b, m) \<Longrightarrow>
    rw_step N s (s\<lparr>rw_mx := m, rw_pc := (rw_pc s)(i := RW_idle)\<rparr>)"

fun rw_counts :: "rw_pc \<Rightarrow> bool" where
  "rw_counts RW_reader = True"
| "rw_counts RW_backoff = True"
| "rw_counts _ = False"

definition rw_readers :: "rw_sys \<Rightarrow> nat" where
  "rw_readers s = card {k. rw_counts (rw_pc s k)}"

definition rw_inv :: "nat \<Rightarrow> rw_sys \<Rightarrow> bool" where
  "rw_inv N s \<longleftrightarrow>
     (\<forall>k \<ge> N. rw_pc s k = RW_idle) \<and>
     unat (sm_state (rw_mx s)) = (if \<exists>k. rw_pc s k = RW_writer then 2 ^ 63 else 0) + rw_readers s \<and>
     (\<forall>j k. rw_pc s j = RW_writer \<longrightarrow> rw_pc s k = RW_writer \<longrightarrow> j = k) \<and>
     (\<forall>j k. rw_pc s j = RW_writer \<longrightarrow> rw_pc s k \<noteq> RW_reader)"

lemma rw_inv_init: "rw_inv N rw_init"
  by (simp add: rw_inv_def rw_init_def sm_init_def rw_readers_def)

lemma rw_counts_active: "rw_counts p \<Longrightarrow> p \<noteq> RW_idle"
  by (cases p) simp_all

lemma rw_active_less: "rw_inv N s \<Longrightarrow> rw_counts (rw_pc s k) \<Longrightarrow> k < N"
  by (metis not_le rw_counts_active rw_inv_def)

lemma rw_finite: "rw_inv N s \<Longrightarrow> finite {k. rw_counts (rw_pc s k)}"
  by (rule finite_subset [of _ "{..<N}"]) (auto dest: rw_active_less)

lemma rw_readers_upd:
  assumes "rw_inv N s"
  shows "rw_readers (s\<lparr>rw_mx := m, rw_pc := (rw_pc s)(i := p)\<rparr>) + (if rw_counts (rw_pc s i) then 1 else 0)
         = rw_readers s + (if rw_counts p then 1 else 0)"
  using card_upd [of rw_counts "rw_pc s", OF rw_finite [OF assms]] by (simp add: rw_readers_def)

lemma rw_readers_less:
  assumes "rw_inv N s" and "i < N" and "rw_pc s i = RW_idle"
  shows "rw_readers s < N"
proof -
  have "{k. rw_counts (rw_pc s k)} \<subset> {..<N}"
    using assms(2,3) rw_active_less [OF assms(1)] by (auto dest: rw_counts_active)
  from psubset_card_mono [OF _ this] show ?thesis by (simp add: rw_readers_def)
qed

lemma rw_writer_upd:
  "p \<noteq> RW_writer \<Longrightarrow> f i \<noteq> RW_writer \<Longrightarrow>
   (\<exists>k. (f(i := p)) k = RW_writer) \<longleftrightarrow> (\<exists>k. f k = RW_writer)"
  by (metis fun_upd_apply)

lemma unat_inc: "unat st + 1 < 2 ^ 64 \<Longrightarrow> unat (st + 1) = unat st + 1" for st :: "64 word"
proof -
  assume "unat st + 1 < 2 ^ 64"
  then have "unat st + unat (1 :: 64 word) < 2 ^ LENGTH(64)" by simp
  then show ?thesis by (metis unat_add_lem unat_1)
qed

lemma unat_dec: "k \<le> unat st \<Longrightarrow> k = unat c \<Longrightarrow> unat (st - c) = unat st - k" for st c :: "64 word"
  by (simp add: unat_sub word_le_nat_alt)


text \<open>A thread that neither was nor becomes the writer, and writes the state word to match.\<close>

lemma rw_inv_counts:
  assumes inv: "rw_inv N s" and i: "i < N \<or> p = RW_idle" and pc: "rw_pc s i \<noteq> RW_writer" "p \<noteq> RW_writer"
    and reader: "p = RW_reader \<Longrightarrow> \<forall>k. rw_pc s k \<noteq> RW_writer"
    and st: "unat (sm_state m) + (if rw_counts (rw_pc s i) then 1 else 0) =
             unat (sm_state (rw_mx s)) + (if rw_counts p then 1 else 0)"
  shows "rw_inv N (s\<lparr>rw_mx := m, rw_pc := (rw_pc s)(i := p)\<rparr>)"
proof -
  let ?t = "s\<lparr>rw_mx := m, rw_pc := (rw_pc s)(i := p)\<rparr>"
  have "(\<exists>k. rw_pc ?t k = RW_writer) \<longleftrightarrow> (\<exists>k. rw_pc s k = RW_writer)"
    using rw_writer_upd [of p "rw_pc s" i] pc by simp
  moreover from this have "unat (sm_state m) = (if \<exists>k. rw_pc ?t k = RW_writer then 2 ^ 63 else 0) + rw_readers ?t"
    using rw_readers_upd [OF inv, where m = m and i = i and p = p] st inv by (simp add: rw_inv_def split: if_splits)
  ultimately show ?thesis
    using inv i pc reader by (auto simp: rw_inv_def)
qed

lemma rw_inv_locks:
  assumes inv: "rw_inv N s" and i: "i < N" "rw_pc s i = RW_idle" and st: "sm_state (rw_mx s) = 0"
  shows "rw_inv N (s\<lparr>rw_mx := (rw_mx s)\<lparr>sm_state := EX_BIT\<rparr>, rw_pc := (rw_pc s)(i := RW_writer)\<rparr>)"
proof -
  let ?t = "s\<lparr>rw_mx := (rw_mx s)\<lparr>sm_state := EX_BIT\<rparr>, rw_pc := (rw_pc s)(i := RW_writer)\<rparr>"
  from inv st have none: "rw_readers s = 0" and "\<forall>k. rw_pc s k \<noteq> RW_writer"
    by (auto simp: rw_inv_def split: if_splits)
  moreover from none have "\<forall>k. \<not> rw_counts (rw_pc s k)"
    using rw_finite [OF inv] by (auto simp: rw_readers_def)
  then have "\<forall>k. rw_pc s k \<noteq> RW_reader" by (metis rw_counts.simps(1))
  moreover have "rw_readers ?t = rw_readers s"
    using rw_readers_upd [OF inv, where i = i and p = RW_writer] i by simp
  ultimately show ?thesis using inv i by (auto simp: rw_inv_def)
qed

lemma rw_inv_unlocks:
  assumes inv: "rw_inv N s" and i: "rw_pc s i = RW_writer"
  shows "rw_inv N (s\<lparr>rw_mx := sm_unlock_sub (rw_mx s), rw_pc := (rw_pc s)(i := RW_idle)\<rparr>)"
proof -
  let ?t = "s\<lparr>rw_mx := sm_unlock_sub (rw_mx s), rw_pc := (rw_pc s)(i := RW_idle)\<rparr>"
  from inv i have "unat (sm_state (rw_mx s)) = 2 ^ 63 + rw_readers s" by (auto simp: rw_inv_def)
  then have "unat (sm_state (rw_mx ?t)) = rw_readers s" by (simp add: sm_unlock_sub_def unat_dec [of "2 ^ 63"])
  moreover have "rw_readers ?t = rw_readers s"
    using rw_readers_upd [OF inv, where i = i and p = RW_idle] i by simp
  moreover have "\<forall>k. rw_pc ?t k \<noteq> RW_writer" using inv i by (auto simp: rw_inv_def)
  ultimately show ?thesis using inv by (auto simp: rw_inv_def)
qed

text \<open>A reader, counted in the word, goes.\<close>

lemma rw_inv_less:
  assumes inv: "rw_inv N s" and i: "rw_counts (rw_pc s i)"
  shows "rw_inv N (s\<lparr>rw_mx := (rw_mx s)\<lparr>sm_state := sm_state (rw_mx s) - 1\<rparr>, rw_pc := (rw_pc s)(i := RW_idle)\<rparr>)"
proof -
  have "1 \<le> unat (sm_state (rw_mx s))"
    using inv i rw_readers_upd [OF inv, where m = "rw_mx s" and i = i and p = RW_idle] by (simp add: rw_inv_def)
  then show ?thesis using i by (intro rw_inv_counts [OF inv]) (auto simp: unat_dec [of 1])
qed

lemma rw_inv_step:
  assumes "rw_step N s t" and "rw_inv N s" and N: "N < 2 ^ 63"
  shows "rw_inv N t"
  using assms(1,2)
proof (induction rule: rw_step.induct)
  case (rw_try_ok i s m)
  then have "sm_state (rw_mx s) = 0" and m: "m = (rw_mx s)\<lparr>sm_state := EX_BIT\<rparr>"
    by (simp_all add: sm_try_lock_def split: if_splits)
  with rw_try_ok show ?case unfolding m by (intro rw_inv_locks)
next
  case (rw_try_fail i s m)
  then have "m = rw_mx s" by (simp add: sm_try_lock_def split: if_splits)
  with rw_try_fail show ?case by (simp add: rw_inv_def rw_readers_def)
next
  case (rw_unlock s i)
  then show ?case by (intro rw_inv_unlocks)
next
  case (rw_add_ok i s m)
  from rw_add_ok(3) have clear: "unat (sm_state (rw_mx s)) < 2 ^ 63"
    and m: "m = (rw_mx s)\<lparr>sm_state := sm_state (rw_mx s) + 1\<rparr>"
    by (simp_all add: sm_shared_add_def Let_def ex_clear_iff)
  from clear rw_add_ok.prems have "\<forall>k. rw_pc s k \<noteq> RW_writer" by (auto simp: rw_inv_def split: if_splits)
  with clear rw_add_ok(1,2) show ?case by (intro rw_inv_counts [OF rw_add_ok.prems]) (auto simp: m unat_inc)
next
  case (rw_add_fail i s m)
  from rw_add_fail(3) have m: "m = (rw_mx s)\<lparr>sm_state := sm_state (rw_mx s) + 1\<rparr>"
    by (simp add: sm_shared_add_def Let_def)
  have "rw_readers s < N" by (rule rw_readers_less [OF rw_add_fail.prems rw_add_fail(1,2)])
  with N rw_add_fail.prems have "unat (sm_state (rw_mx s)) + 1 < 2 ^ 64" by (auto simp: rw_inv_def)
  with rw_add_fail(1,2) show ?case by (intro rw_inv_counts [OF rw_add_fail.prems]) (auto simp: m unat_inc)
next
  case (rw_undo s i)
  then show ?case using rw_inv_less [of N s i] by (simp add: sm_shared_undo_def)
next
  case (rw_unlock_shared s i b m)
  then show ?case using rw_inv_less [of N s i] by (auto simp: sm_shared_sub_def Let_def)
qed

lemma rw_reach_inv:
  assumes "(rw_step N)\<^sup>*\<^sup>* rw_init s" and "N < 2 ^ 63" shows "rw_inv N s"
  using assms(1) by (induction rule: rtranclp_induct) (auto intro: rw_inv_init rw_inv_step assms(2))


section \<open>Properties\<close>

text \<open>
  C7: threads that use \<open>try_lock\<close>, \<open>try_lock_shared\<close> and the two unlocks never share
  the lock with a writer, in any interleaving of their atomic accesses.
\<close>

theorem shared_mutex_exclusion:
  assumes "(rw_step N)\<^sup>*\<^sup>* rw_init s" and "N < 2 ^ 63" and "rw_pc s j = RW_writer"
  shows "(\<forall>k. rw_pc s k = RW_writer \<longrightarrow> k = j) \<and> (\<forall>k. rw_pc s k \<noteq> RW_reader)"
  using rw_reach_inv [OF assms(1,2)] assms(3) by (auto simp: rw_inv_def)

theorem shared_mutex_exclusion_witness:
  "\<forall>k. rw_pc (rw_init\<lparr>rw_mx := (rw_mx rw_init)\<lparr>sm_state := EX_BIT\<rparr>,
      rw_pc := (rw_pc rw_init)(3 := RW_writer)\<rparr>) k \<noteq> RW_reader"
proof -
  let ?s = "rw_init\<lparr>rw_mx := (rw_mx rw_init)\<lparr>sm_state := EX_BIT\<rparr>, rw_pc := (rw_pc rw_init)(3 := RW_writer)\<rparr>"
  have "rw_step 8 rw_init ?s"
    by (rule rw_try_ok) (simp_all add: rw_init_def sm_init_def sm_try_lock_def)
  then have "(rw_step 8)\<^sup>*\<^sup>* rw_init ?s" by blast
  moreover have "(8 :: nat) < 2 ^ 63" and "rw_pc ?s 3 = RW_writer" by simp_all
  ultimately show ?thesis using shared_mutex_exclusion by blast
qed

text \<open>
  C25: for threads that use only \<open>try_lock\<close>, \<open>try_lock_shared\<close> and the two unlocks (with \<open>lock\<close> and \<open>lock_shared\<close> it is
  otherwise, see below): the state word never wraps, and counts exactly: the top bit for a writer plus one for
  each reader and each failed attempt still to be undone; when every thread is idle it is zero.
\<close>

theorem shared_mutex_accounting:
  assumes "(rw_step N)\<^sup>*\<^sup>* rw_init s" and "N < 2 ^ 63"
  shows "unat (sm_state (rw_mx s)) =
           (if \<exists>k. rw_pc s k = RW_writer then 2 ^ 63 else 0) + rw_readers s \<and>
         ((\<forall>k. rw_pc s k = RW_idle) \<longrightarrow> sm_state (rw_mx s) = 0)"
proof -
  note inv = rw_reach_inv [OF assms]
  then have eq: "unat (sm_state (rw_mx s)) =
      (if \<exists>k. rw_pc s k = RW_writer then 2 ^ 63 else 0) + rw_readers s"
    by (simp add: rw_inv_def)
  moreover have "sm_state (rw_mx s) = 0" if "\<forall>k. rw_pc s k = RW_idle"
    using that eq by (simp add: rw_readers_def unat_eq_zero)
  ultimately show ?thesis by blast
qed

theorem shared_mutex_accounting_witness:
  "unat (sm_state (rw_mx (rw_init\<lparr>rw_mx := (rw_mx rw_init)\<lparr>sm_state := 1\<rparr>,
      rw_pc := (rw_pc rw_init)(0 := RW_reader)\<rparr>))) = 1"
proof -
  let ?s = "rw_init\<lparr>rw_mx := (rw_mx rw_init)\<lparr>sm_state := 1\<rparr>, rw_pc := (rw_pc rw_init)(0 := RW_reader)\<rparr>"
  have "rw_step 1 rw_init ?s"
    by (rule rw_add_ok) (simp_all add: rw_init_def sm_init_def sm_shared_add_def)
  then have "(rw_step 1)\<^sup>*\<^sup>* rw_init ?s" by blast
  from shared_mutex_accounting [OF this] show ?thesis
    by (simp add: rw_init_def rw_readers_def card_1_singleton_iff)
qed

text \<open>
  \<open>lock\<close> never finds the lock free. Its \<open>await_ready\<close> returns false even when nobody
  holds the lock: it sets the exclusive bit and the task is then suspended with nobody left to
  wake it, while every later attempt to lock, exclusive or shared, fails.
\<close>

theorem shared_mutex_lock_strands_itself:
  assumes "lfq_ok (sm_suspended m)" and "sm_state m = 0"
  shows "\<exists>m1 m2. ex_future_ready False m = (False, True, m1) \<and>
           ex_future_suspend h m1 ex = Some (Inr (), m2, ex) \<and>
           cells (sm_suspended m2) = cells (sm_suspended m) @ [Some h] \<and>
           sm_try_lock m2 = (False, m2) \<and> sm_try_lock_shared m2 = (False, m2)"
proof -
  let ?m1 = "m\<lparr>sm_state := EX_BIT\<rparr>"
  have nz: "EX_BIT \<noteq> 0" and ex: "EX_BIT AND EX_BIT \<noteq> 0" by simp_all
  have "ex_future_ready False m = (False, True, ?m1)"
    using assms(2) nz by (simp add: ex_future_ready_def)
  moreover have "ex_future_suspend h ?m1 ex = Some (Inr (), sm_enqueue h ?m1, ex)"
    using nz by (simp add: ex_future_suspend_def sm_enqueue_def)
  moreover have "cells (sm_suspended (sm_enqueue h ?m1)) = cells (sm_suspended m) @ [Some h]"
    using assms(1) by (simp add: sm_enqueue_def lq.laws)
  moreover have "sm_try_lock (sm_enqueue h ?m1) = (False, sm_enqueue h ?m1)"
    using nz by (simp add: sm_try_lock_def sm_enqueue_def)
  moreover have "sm_try_lock_shared (sm_enqueue h ?m1) = (False, sm_enqueue h ?m1)"
    using ex by (simp add: sm_try_lock_shared_def sm_shared_add_def sm_shared_undo_def sm_enqueue_def)
  ultimately show ?thesis by blast
qed

theorem shared_mutex_lock_strands_itself_witness:
  "\<exists>m1 m2. ex_future_ready False sm_init = (False, True, m1) \<and>
     ex_future_suspend 9 m1 \<lparr>in_exec = True, posted = []\<rparr> =
       Some (Inr (), m2, \<lparr>in_exec = True, posted = []\<rparr>) \<and> cells (sm_suspended m2) = [Some 9]"
proof -
  have "lfq_ok (sm_suspended sm_init)" and "sm_state sm_init = 0"
    and "cells (sm_suspended sm_init) = []" by (simp_all add: sm_init_def lq.laws)
  with shared_mutex_lock_strands_itself [of sm_init 9 "\<lparr>in_exec = True, posted = []\<rparr>"] show ?thesis by auto
qed

text \<open>
  A shared lock taken with \<open>lock_shared\<close> is an exclusive one, because
  \<open>await_ready\<close> calls \<open>try_lock\<close>: a second reader does not get in, and the
  \<open>unlock_shared\<close> that pairs with it takes one from the exclusive bit, leaving the word
  at \<open>2\<^sup>6\<^sup>3 - 1\<close> readers that nobody will ever release.
\<close>

theorem shared_mutex_lock_shared_is_exclusive:
  assumes "sm_state m = 0"
  shows "\<exists>m1 m2. sh_future_ready m = (True, m1) \<and> sh_future_ready m1 = (False, m1) \<and>
           sm_unlock_shared m1 ex = Some (Inr (), m2, ex) \<and>
           unat (sm_state m2) = 2 ^ 63 - 1 \<and> sm_try_lock m2 = (False, m2)"
proof -
  let ?m1 = "m\<lparr>sm_state := EX_BIT\<rparr>" and ?m2 = "m\<lparr>sm_state := EX_BIT - 1\<rparr>"
  have u: "unat (EX_BIT - 1) = 2 ^ 63 - 1" by (simp add: unat_dec [of 1])
  have "unat (EX_BIT AND NOT EX_BIT) = 0" by (simp add: unat_low_bits)
  then have "sm_shared_sub ?m1 = (False, ?m2)" by (simp add: sm_shared_sub_def)
  then have "sm_unlock_shared ?m1 ex = Some (Inr (), ?m2, ex)" by (simp add: sm_unlock_shared_def)
  moreover have "EX_BIT - 1 \<noteq> 0" unfolding EX_BIT_def by code_simp
  moreover from this have "sh_future_ready m = (True, ?m1)" and "sh_future_ready ?m1 = (False, ?m1)"
    and "sm_try_lock ?m2 = (False, ?m2)"
    using assms by (simp_all add: sh_future_ready_def sm_try_lock_def)
  ultimately show ?thesis using u by fastforce
qed

theorem shared_mutex_lock_shared_is_exclusive_witness:
  "\<exists>m1. sh_future_ready sm_init = (True, m1) \<and> sh_future_ready m1 = (False, m1)"
  using shared_mutex_lock_shared_is_exclusive [of sm_init] by (auto simp: sm_init_def)

text \<open>
  C31: a release ends, leaves the queue well formed, and schedules the suspended tasks in the
  order they came, all of them when the oldest cell of the queue holds a task and none of them
  when it is an emptied cell; \<open>unlock_shared\<close> does so exactly for the last reader.
\<close>

theorem shared_mutex_release_wakes:
  assumes "lfq_ok (sm_suspended m)" and "in_exec ex"
  defines "woken \<equiv> if cells_front (cells (sm_suspended m)) = None then [] else vals (cells (sm_suspended m))"
  shows "\<exists>q q'. sm_unlock m ex =
            Some (Inr (), m\<lparr>sm_state := sm_state m - EX_BIT, sm_suspended := q\<rparr>,
                  ex\<lparr>posted := posted ex @ woken\<rparr>) \<and> lfq_ok q \<and>
          sm_unlock_shared m ex =
            Some (Inr (), m\<lparr>sm_state := sm_state m - 1, sm_suspended := q'\<rparr>,
                  if unat (sm_state m) mod 2 ^ 63 = 1 then ex\<lparr>posted := posted ex @ woken\<rparr> else ex) \<and>
          lfq_ok q'"
proof -
  have last: "(sm_state m AND NOT EX_BIT = 1) \<longleftrightarrow> unat (sm_state m) mod 2 ^ 63 = 1"
    unfolding unat_low_bits [symmetric] by (metis unat_1 word_unat_eq_iff)
  have "\<exists>q. sm_drain (m\<lparr>sm_state := st\<rparr>) ex = Some (Inr (), m\<lparr>sm_state := st, sm_suspended := q\<rparr>,
          ex\<lparr>posted := posted ex @ woken\<rparr>) \<and> lfq_ok q" for st
    using sm_drain_result [of "m\<lparr>sm_state := st\<rparr>" ex] assms by (auto simp: woken_def)
  then obtain qf where qf: "\<And>st. sm_drain (m\<lparr>sm_state := st\<rparr>) ex =
      Some (Inr (), m\<lparr>sm_state := st, sm_suspended := qf st\<rparr>, ex\<lparr>posted := posted ex @ woken\<rparr>)"
    "\<And>st. lfq_ok (qf st)" by metis
  have m: "m\<lparr>sm_state := st, sm_suspended := sm_suspended m\<rparr> = m\<lparr>sm_state := st\<rparr>" for st by simp
  show ?thesis
    by (intro exI [of _ "qf (sm_state m - EX_BIT)"]
        exI [of _ "if unat (sm_state m) mod 2 ^ 63 = 1 then qf (sm_state m - 1) else sm_suspended m"])
      (simp add: sm_unlock_def sm_unlock_sub_def sm_unlock_shared_def sm_shared_sub_def qf last assms(1) m)
qed

theorem shared_mutex_release_wakes_witness:
  "\<exists>m1. sm_unlock (sm_enqueue 6 (sm_enqueue 5 (sm_init\<lparr>sm_state := EX_BIT\<rparr>))) \<lparr>in_exec = True, posted = []\<rparr>
     = Some (Inr (), m1, \<lparr>in_exec = True, posted = [5, 6]\<rparr>)"
proof -
  let ?m = "sm_enqueue 6 (sm_enqueue 5 (sm_init\<lparr>sm_state := EX_BIT\<rparr>))"
  have "lfq_ok (sm_suspended ?m)" and c: "cells (sm_suspended ?m) = [Some 5, Some 6]"
    by (simp_all add: sm_enqueue_def sm_init_def lq.laws)
  from shared_mutex_release_wakes [OF this(1), of "\<lparr>in_exec = True, posted = []\<rparr>"] show ?thesis
    by (auto simp: c)
qed

end
