(* ===== verification/Shared_Mutex_Accesses.thy ===== *)
theory Shared_Mutex_Accesses imports Shared_Mutex Suspended_Tasks begin

text \<open>
  \<open>shared_mutex\<close> and its two lock futures (src/shared_mutex.cpp) at their single accesses, those of the state
  word, of the queue \<open>suspended_\<close>, and of the awaiter through which \<open>await_suspend\<close> reaches the mutex. Threads run tasks that
  call the members in any order, also
  where they hold nothing; a thread that has suspended its task goes on with the rest of \<open>await_suspend\<close>,
  while another one may already resume the task, and then takes the next posted one.
\<close>

section \<open>Threads\<close>

datatype rw_future = Ex_future | Sh_future

text \<open>Who runs the loop that schedules: the task that unlocked, or the \<open>await_suspend\<close> of that task.\<close>

datatype sx_owner = In_unlock handle | In_suspend handle

datatype sx_pc =
    X_idle
  | X_run handle                 \<comment> \<open>running the task\<close>
  | X_request handle nat "64 word"  \<comment> \<open>in the \<open>await_ready\<close> of that exclusive future, the state read, before the exchange\<close>
  | X_undo handle                \<comment> \<open>in a failed \<open>try_lock_shared\<close>, before the subtraction\<close>
  | X_suspend handle rw_future   \<comment> \<open>\<open>await_ready\<close> was false\<close>
  | X_pushing handle rw_future   \<comment> \<open>in \<open>await_suspend\<close>, in the push\<close>
  | X_check handle rw_future     \<comment> \<open>in \<open>await_suspend\<close>, \<open>mtx_\<close> to be read for the state\<close>
  | X_state handle rw_future     \<comment> \<open>in \<open>await_suspend\<close>, the state to be read\<close>
  | X_loop sx_owner              \<comment> \<open>at the head of the loop, before its pop\<close>
  | X_popping sx_owner           \<comment> \<open>in the loop, in the pop\<close>

record sx_threads =
  sx_state :: "64 word"
  sx_q :: "handle lfq_sys"               \<comment> \<open>\<open>suspended_\<close>\<close>
  sx_ex :: exec_ctx
  sx_pc :: "nat \<Rightarrow> sx_pc"
  sx_begun :: "handle \<Rightarrow> bool"
  sx_requested :: "nat \<Rightarrow> bool"          \<comment> \<open>\<open>requested_\<close>, by the address of the exclusive lock future\<close>
  sx_gone :: "nat \<Rightarrow> bool"              \<comment> \<open>the awaiter of the \<open>await_suspend\<close> a thread is in was destroyed\<close>
  sx_waits :: "handle \<Rightarrow> bool"           \<comment> \<open>history: suspended, and not resumed yet\<close>
  sx_pushed :: "handle list"             \<comment> \<open>history\<close>
  sx_popped :: "handle list"             \<comment> \<open>history\<close>
  sx_resumed :: "handle list"            \<comment> \<open>history\<close>
  sx_fault :: "fault option"

definition sx_init :: sx_threads where
  "sx_init = \<lparr>sx_state = sm_state sm_init, sx_q = lfq_sys_init (sm_suspended sm_init),
     sx_ex = \<lparr>in_exec = True, posted = []\<rparr>, sx_pc = (\<lambda>_. X_idle), sx_begun = (\<lambda>_. False),
     sx_requested = (\<lambda>_. False), sx_gone = (\<lambda>_. False), sx_waits = (\<lambda>_. False), sx_pushed = [], sx_popped = [], sx_resumed = [], sx_fault = None\<rparr>"

text \<open>The mutex as its members see it, and what they write to its state.\<close>

definition sx_mutex :: "sx_threads \<Rightarrow> shared_mutex" where
  "sx_mutex s = \<lparr>sm_state = sx_state s, sm_suspended = lc_q (sx_q s)\<rparr>"

definition sx_set :: "shared_mutex \<Rightarrow> sx_threads \<Rightarrow> sx_threads" where
  "sx_set m s = s\<lparr>sx_state := sm_state m\<rparr>"

definition sx_goto :: "nat \<Rightarrow> sx_pc \<Rightarrow> sx_threads \<Rightarrow> sx_threads" where
  "sx_goto i pc s = s\<lparr>sx_pc := (sx_pc s)(i := pc)\<rparr>"

definition sx_queue :: "handle lfq_label \<Rightarrow> sx_threads \<Rightarrow> sx_threads option" where
  "sx_queue l s = map_option (\<lambda>q. s\<lparr>sx_q := q\<rparr>) (lfq_step By_value l (sx_q s))"

section \<open>The accesses of the members\<close>

text \<open>
  The exclusive \<open>await_ready\<close>. A future that has asked already reads the state once; a new one reads it and, while no
  other has asked, tries to set the bit. An exchange that fails has read the state again.
\<close>

definition ready_tests :: "handle \<Rightarrow> nat \<Rightarrow> 64 word \<Rightarrow> sx_pc" where
  "ready_tests h f state = (if state AND EX_BIT = 0 then X_request h f state else X_suspend h Ex_future)"

definition ready_first :: "handle \<Rightarrow> nat \<Rightarrow> bool \<Rightarrow> shared_mutex \<Rightarrow> sx_pc" where
  "ready_first h f requested m =
     (if requested then (if sm_state m = EX_BIT then X_run h else X_suspend h Ex_future)
      else ready_tests h f (sm_state m))"

definition ready_exchange :: "handle \<Rightarrow> nat \<Rightarrow> 64 word \<Rightarrow> bool \<Rightarrow> shared_mutex \<Rightarrow> sx_pc \<times> bool \<times> shared_mutex" where
  "ready_exchange h f state requested m =
     (if sm_state m = state
      then (if state = EX_BIT then X_run h else X_suspend h Ex_future, True, m\<lparr>sm_state := state OR EX_BIT\<rparr>)
      else (ready_tests h f (sm_state m), requested, m))"

text \<open>Whether \<open>await_suspend\<close> goes on to schedule, by the state it reads after the push.\<close>

fun check_wakes :: "rw_future \<Rightarrow> shared_mutex \<Rightarrow> bool" where
  "check_wakes Ex_future m = (sm_state m = 0)"
| "check_wakes Sh_future m = (sm_state m AND EX_BIT = 0)"

text \<open>The body of the loop, after its pop.\<close>

definition loop_popped :: "handle option \<Rightarrow> exec_ctx \<Rightarrow> bool \<times> (fault + unit) \<times> exec_ctx" where
  "loop_popped sus ex = (case sus of None \<Rightarrow> (False, Inr (), ex) | Some h \<Rightarrow> (True, schedule_task h ex))"

fun after_loop :: "sx_owner \<Rightarrow> sx_pc" where
  "after_loop (In_unlock h) = X_run h"
| "after_loop (In_suspend h) = X_idle"

text \<open>The loop of \<open>await_suspend\<close> reads \<open>mtx_\<close> of the awaiter in each round.\<close>

fun through_awaiter :: "sx_owner \<Rightarrow> bool" where
  "through_awaiter (In_unlock h) = False"
| "through_awaiter (In_suspend h) = True"

text \<open>The task whose \<open>await_suspend\<close> a thread is in.\<close>

fun sx_finishing :: "sx_pc \<Rightarrow> handle option" where
  "sx_finishing (X_pushing h k) = Some h"
| "sx_finishing (X_check h k) = Some h"
| "sx_finishing (X_state h k) = Some h"
| "sx_finishing (X_loop (In_suspend h)) = Some h"
| "sx_finishing (X_popping (In_suspend h)) = Some h"
| "sx_finishing pc = None"

definition sx_leaves :: "handle \<Rightarrow> sx_threads \<Rightarrow> sx_threads" where
  "sx_leaves h s = s\<lparr>sx_gone := (\<lambda>j. sx_gone s j \<or> sx_finishing (sx_pc s j) = Some h)\<rparr>"

text \<open>
  What a task does next: \<open>lock\<close> makes an exclusive lock future, which the task then awaits, once or more often. An awaiter
  is a part of the task's frame and ends with its scope or with the task: \<open>C_leave\<close> and \<open>C_end\<close> destroy those of the task.
\<close>

datatype sx_call = C_try_lock | C_make nat | C_await nat | C_unlock | C_try_shared | C_lock_shared | C_unlock_shared | C_leave | C_end

fun sx_calls :: "sx_call \<Rightarrow> nat \<Rightarrow> handle \<Rightarrow> sx_threads \<Rightarrow> sx_threads" where
  "sx_calls C_try_lock i h s = sx_set (snd (sm_try_lock (sx_mutex s))) s"
| "sx_calls (C_make f) i h s = s\<lparr>sx_requested := (sx_requested s)(f := False)\<rparr>"
| "sx_calls (C_await f) i h s = sx_goto i (ready_first h f (sx_requested s f) (sx_mutex s)) s"
| "sx_calls C_unlock i h s = sx_goto i (X_loop (In_unlock h)) (sx_set (sm_unlock_sub (sx_mutex s)) s)"
| "sx_calls C_try_shared i h s =
     (let (free, m) = sm_shared_add (sx_mutex s) in sx_goto i (if free then X_run h else X_undo h) (sx_set m s))"
| "sx_calls C_lock_shared i h s =
     (let (ready, m) = sh_future_ready (sx_mutex s)
      in sx_goto i (if ready then X_run h else X_suspend h Sh_future) (sx_set m s))"
| "sx_calls C_unlock_shared i h s =
     (let (last_reader, m) = sm_shared_sub (sx_mutex s)
      in sx_goto i (if last_reader then X_loop (In_unlock h) else X_run h) (sx_set m s))"
| "sx_calls C_leave i h s = sx_leaves h s"
| "sx_calls C_end i h s = sx_goto i X_idle (sx_leaves h s)"

text \<open>The next access of a thread inside a member; one that runs a task, or none, has no such access.\<close>

fun sx_next :: "sx_pc \<Rightarrow> nat \<Rightarrow> sx_threads \<Rightarrow> sx_threads option" where
  "sx_next (X_request h f state) i s =
     (let (pc, requested, m) = ready_exchange h f state (sx_requested s f) (sx_mutex s)
      in Some (sx_goto i pc (sx_set m (s\<lparr>sx_requested := (sx_requested s)(f := requested)\<rparr>))))"
| "sx_next (X_undo h) i s = Some (sx_goto i (X_run h) (sx_set (sm_shared_undo (sx_mutex s)) s))"
| "sx_next (X_suspend h k) i s =
     map_option (\<lambda>s1. sx_goto i (X_pushing h k)
         (s1\<lparr>sx_gone := (sx_gone s)(i := False), sx_waits := (sx_waits s)(h := True), sx_pushed := sx_pushed s @ [h]\<rparr>))
       (sx_queue (Start_push i h) s)"
| "sx_next (X_pushing h k) i s =
     (case lc_pc (sx_q s) i of Idle \<Rightarrow> Some (sx_goto i (X_check h k) s) | _ \<Rightarrow> sx_queue (Access i) s)"
| "sx_next (X_check h k) i s =
     Some (if sx_gone s i then s\<lparr>sx_fault := Some (Undefined Use_after_free)\<rparr> else sx_goto i (X_state h k) s)"
| "sx_next (X_state h k) i s =
     Some (sx_goto i (if check_wakes k (sx_mutex s) then X_loop (In_suspend h) else X_idle) s)"
| "sx_next (X_loop owner) i s =
     (if through_awaiter owner \<and> sx_gone s i then Some (s\<lparr>sx_fault := Some (Undefined Use_after_free)\<rparr>)
      else map_option (sx_goto i (X_popping owner)) (sx_queue (Start_pop i) s))"
| "sx_next (X_popping owner) i s =
     (case lc_pc (sx_q s) i of
        Returned p \<Rightarrow>
          (let (again, r, ex) = loop_popped p (sx_ex s)
           in map_option (\<lambda>s1. sx_goto i (if again then X_loop owner else after_loop owner)
                  (s1\<lparr>sx_ex := ex, sx_popped := sx_popped s @ vals [p],
                      sx_fault := (case r of Inl f \<Rightarrow> Some f | Inr _ \<Rightarrow> None)\<rparr>)) (sx_queue (Return i) s))
      | _ \<Rightarrow> sx_queue (Access i) s)"
| "sx_next (X_run h) i s = None"
| "sx_next X_idle i s = None"

text \<open>An idle thread takes the next posted task.\<close>

definition sx_resume :: "nat \<Rightarrow> sx_threads \<Rightarrow> sx_threads option" where
  "sx_resume i s =
     (case posted (sx_ex s) of
        [] \<Rightarrow> None
      | h # hs \<Rightarrow>
          (if sx_waits s h
           then Some (sx_goto i (X_run h) (s\<lparr>sx_ex := (sx_ex s)\<lparr>posted := hs\<rparr>, sx_waits := (sx_waits s)(h := False),
                  sx_resumed := sx_resumed s @ [h]\<rparr>))
           else Some (s\<lparr>sx_fault := Some (Undefined Null_resume)\<rparr>)))"

datatype sx_label = Sx_begin nat handle | Sx_call nat sx_call | Sx_next nat | Sx_resume nat

fun sx_thread :: "sx_label \<Rightarrow> nat" where
  "sx_thread (Sx_begin i h) = i"
| "sx_thread (Sx_call i c) = i"
| "sx_thread (Sx_next i) = i"
| "sx_thread (Sx_resume i) = i"

fun sx_move :: "sx_label \<Rightarrow> sx_threads \<Rightarrow> sx_threads option" where
  "sx_move (Sx_begin i h) s =
     (if sx_pc s i = X_idle \<and> \<not> sx_begun s h
      then Some (sx_goto i (X_run h) (s\<lparr>sx_begun := (sx_begun s)(h := True)\<rparr>)) else None)"
| "sx_move (Sx_call i c) s = (case sx_pc s i of X_run h \<Rightarrow> Some (sx_calls c i h s) | _ \<Rightarrow> None)"
| "sx_move (Sx_next i) s = sx_next (sx_pc s i) i s"
| "sx_move (Sx_resume i) s = (if sx_pc s i = X_idle then sx_resume i s else None)"

definition sx_step :: "nat \<Rightarrow> sx_label \<Rightarrow> sx_threads \<Rightarrow> sx_threads option" where
  "sx_step n l s = (if sx_thread l < n \<and> sx_fault s = None then sx_move l s else None)"

lemma sx_sel [simp]:
  "sx_q (sx_goto i pc s) = sx_q s" "sx_ex (sx_goto i pc s) = sx_ex s" "sx_pushed (sx_goto i pc s) = sx_pushed s"
  "sx_resumed (sx_goto i pc s) = sx_resumed s" "sx_begun (sx_goto i pc s) = sx_begun s"
  "sx_waits (sx_goto i pc s) = sx_waits s" "sx_fault (sx_goto i pc s) = sx_fault s"
  "sx_pc (sx_goto i pc s) = (sx_pc s)(i := pc)"
  "sx_q (sx_set m s) = sx_q s" "sx_ex (sx_set m s) = sx_ex s" "sx_pushed (sx_set m s) = sx_pushed s"
  "sx_resumed (sx_set m s) = sx_resumed s" "sx_begun (sx_set m s) = sx_begun s" "sx_pc (sx_set m s) = sx_pc s"
  "sx_waits (sx_set m s) = sx_waits s" "sx_fault (sx_set m s) = sx_fault s"
  "sx_popped (sx_goto i pc s) = sx_popped s" "sx_gone (sx_goto i pc s) = sx_gone s"
  "sx_popped (sx_set m s) = sx_popped s" "sx_gone (sx_set m s) = sx_gone s"
  "sx_q (sx_leaves h s) = sx_q s" "sx_ex (sx_leaves h s) = sx_ex s" "sx_pushed (sx_leaves h s) = sx_pushed s"
  "sx_popped (sx_leaves h s) = sx_popped s" "sx_resumed (sx_leaves h s) = sx_resumed s" "sx_begun (sx_leaves h s) = sx_begun s"
  "sx_pc (sx_leaves h s) = sx_pc s" "sx_waits (sx_leaves h s) = sx_waits s" "sx_fault (sx_leaves h s) = sx_fault s"
  by (simp_all add: sx_goto_def sx_set_def sx_leaves_def)


section \<open>Without interference\<close>

text \<open>The accesses of the exclusive \<open>await_ready\<close>, one after the other, are the member of \<open>Shared_Mutex\<close>.\<close>

lemma ready_alone:
  "ex_future_ready requested m =
     (case ready_first h f requested m of
        X_request _ _ state \<Rightarrow>
          (let (pc, requested', m') = ready_exchange h f state requested m in (pc = X_run h, requested', m'))
      | pc \<Rightarrow> (pc = X_run h, requested, m))"
  by (simp add: ex_future_ready_def ready_first_def ready_tests_def ready_exchange_def Let_def)

section \<open>The steps, by what they do to the queue\<close>


text \<open>The task a thread runs, as opposed to finishing its \<open>await_suspend\<close>.\<close>

fun sx_runs :: "sx_pc \<Rightarrow> handle option" where
  "sx_runs (X_run h) = Some h"
| "sx_runs (X_request h f state) = Some h"
| "sx_runs (X_undo h) = Some h"
| "sx_runs (X_suspend h k) = Some h"
| "sx_runs (X_loop (In_unlock h)) = Some h"
| "sx_runs (X_popping (In_unlock h)) = Some h"
| "sx_runs _ = None"


lemma ready_runs [simp]:
  "sx_runs (ready_tests h f state) = Some h" "sx_runs (ready_first h f requested m) = Some h"
  "sx_runs (fst (ready_exchange h f state requested m)) = Some h" "sx_runs (after_loop owner) = sx_runs (X_loop owner)"
  "sx_runs (X_popping owner) = sx_runs (X_loop owner)"
  by (simp_all add: ready_tests_def ready_first_def ready_exchange_def) (cases owner; simp)+










section \<open>The threads as tasks that suspend\<close>







section \<open>The faults\<close>




section \<open>Properties\<close>


text \<open>Task 1 holds the mutex exclusively, task 2 suspends in \<open>lock_shared\<close>.\<close>

definition sx_example :: "sx_label list" where
  "sx_example = [Sx_begin 0 1, Sx_call 0 C_try_lock, Sx_begin 1 2, Sx_call 1 C_lock_shared, Sx_next 1] @
     replicate 7 (Sx_next 1)"


text \<open>
  The loop of \<open>await_suspend\<close> reads the mutex's address from the awaiter in every round, and the awaiter is a part of the
  frame of the task it may just have scheduled: that task can have been resumed, and have ended, while the
  loop goes on.
\<close>

theorem shared_mutex_awaiter_outlived:
  "\<exists>s. reach sx_init (in_order 3 sx_q (sx_step 3)) s \<and> sx_fault s = Some (Undefined Use_after_free) \<and> sx_resumed s = [2]"
proof -
  have "run_sat (in_order 3 sx_q (sx_step 3)) (sx_example @ [Sx_call 0 C_unlock] @ replicate 10 (Sx_next 1) @
        [Sx_resume 2, Sx_call 2 C_end, Sx_next 1]) sx_init
      (\<lambda>s. sx_fault s = Some (Undefined Use_after_free) \<and> sx_resumed s = [2])"
    by code_simp
  then show ?thesis by (elim run_satE) blast
qed

end
