(* ===== verification/Condition_Variable.thy ===== *)
theory Condition_Variable imports Lfqueue Transition begin

text \<open>
  \<^verbatim>\<open>condition_variable\<close> and its wait future (include/crasy/condition_variable.hpp,
  src/condition_variable.cpp): the operations, and runs of any number of tasks that wait and
  notify, in which no two of their operations on the queue overlap and a \<open>notify_all\<close> is not interrupted, so that each of these is one step;
  \<open>Cv_Accesses\<close> has the runs with the queue's single accesses. The queue holds the addresses of the wait futures, which live in the frames of the
  waiting tasks. The lockable given to \<open>wait\<close> is a parameter: \<open>lock\<close> is its
  \<^verbatim>\<open>lock()\<close>, returning an awaiter, with \<open>aw_ready\<close>, \<open>aw_suspend\<close> and
  \<open>aw_resume\<close> that awaiter's protocol.
\<close>

section \<open>State and operations\<close>

record 'aw cv_future =
  cf_suspended :: "handle option"
  cf_notified :: bool
  cf_locked :: bool
  cf_awaiter :: "'aw option"

record 'aw cv =
  cv_waiters :: "nat lfqueue"
  cv_futures :: "nat \<Rightarrow> 'aw cv_future"
  cv_ex :: exec_ctx

definition cv_future_ctor :: "'aw cv_future" where
  "cv_future_ctor = \<lparr>cf_suspended = None, cf_notified = False, cf_locked = False, cf_awaiter = None\<rparr>"

text \<open>\<open>wait_future_base::notify\<close>; resuming a null handle is undefined.\<close>

definition future_notify :: "nat \<Rightarrow> (nat \<Rightarrow> 'aw cv_future) \<times> exec_ctx
    \<Rightarrow> (fault + unit) \<times> (nat \<Rightarrow> 'aw cv_future) \<times> exec_ctx" where
  "future_notify a = (\<lambda>(futs, ex).
     let suspended = cf_suspended (futs a);
         futs1 = futs(a := (futs a)\<lparr>cf_notified := True, cf_suspended := None\<rparr>)
     in case suspended of
          None \<Rightarrow> (Inl (Undefined Null_resume), futs1, ex)
        | Some h \<Rightarrow> (let (r, ex1) = schedule_task h ex in (r, futs1, ex1)))"

definition notify_one :: "'aw cv \<Rightarrow> (fault + unit) \<times> 'aw cv" where
  "notify_one c =
     (let (waiter, q) = pop (cv_waiters c); c1 = c\<lparr>cv_waiters := q\<rparr>
      in case waiter of
           None \<Rightarrow> (Inr (), c1)
         | Some a \<Rightarrow> (let (r, futs, ex) = future_notify a (cv_futures c1, cv_ex c1)
                      in (r, c1\<lparr>cv_futures := futs, cv_ex := ex\<rparr>)))"

definition notify_all :: "'aw cv \<Rightarrow> ((fault + unit) \<times> 'aw cv) option" where
  "notify_all c =
     map_option (\<lambda>(r, q, futs, ex). (r, c\<lparr>cv_waiters := q, cv_futures := futs, cv_ex := ex\<rparr>))
       (drain_with pop future_notify (cv_waiters c) (cv_futures c, cv_ex c))"

definition wait_ready ::
    "('w \<Rightarrow> 'aw \<times> 'w) \<Rightarrow> ('aw \<Rightarrow> 'w \<Rightarrow> bool \<times> 'w) \<Rightarrow> 'aw cv_future \<Rightarrow> 'w \<Rightarrow> bool \<times> 'aw cv_future \<times> 'w" where
  "wait_ready lock aw_ready f w =
     (if cf_notified f
      then (let (f1, w1) =
              (if \<not> cf_locked f
               then (let (aw, w1) = lock w in (f\<lparr>cf_locked := True, cf_awaiter := Some aw\<rparr>, w1))
               else (f, w))
            in case cf_awaiter f1 of
                 Some aw \<Rightarrow> (let (b, w2) = aw_ready aw w1 in (b, f1, w2))
               | None \<Rightarrow> (False, f1, w1))
      else (False, f, w))"

definition wait_suspend ::
    "('aw \<Rightarrow> handle \<Rightarrow> 'w \<Rightarrow> 'w) \<Rightarrow> nat \<Rightarrow> handle \<Rightarrow> 'aw cv \<Rightarrow> 'w \<Rightarrow> 'aw cv \<times> 'w" where
  "wait_suspend aw_suspend a h c w =
     (case cf_awaiter (cv_futures c a) of
        Some aw \<Rightarrow> (c, aw_suspend aw h w)
      | None \<Rightarrow> (c\<lparr>cv_futures := (cv_futures c)(a := (cv_futures c a)\<lparr>cf_suspended := Some h\<rparr>),
                   cv_waiters := push a (cv_waiters c)\<rparr>, w))"

definition wait_resume :: "('aw \<Rightarrow> (unit, 'w) comp) \<Rightarrow> 'aw cv_future \<Rightarrow> (unit, 'w) comp" where
  "wait_resume aw_resume f =
     (case cf_awaiter f of Some aw \<Rightarrow> aw_resume aw | None \<Rightarrow> fail (Undefined Empty_option_deref))"

section \<open>What the notifications do\<close>

lemma future_notify_Some:
  assumes "cf_suspended (futs a) = Some h" and "in_exec ex"
  shows "future_notify a (futs, ex) =
    (Inr (), futs(a := (futs a)\<lparr>cf_notified := True, cf_suspended := None\<rparr>),
     ex\<lparr>posted := posted ex @ [h]\<rparr>)"
  using assms by (simp add: future_notify_def)

definition waiting :: "(nat \<Rightarrow> 'aw cv_future) \<Rightarrow> nat list \<Rightarrow> bool" where
  "waiting futs as \<longleftrightarrow> distinct as \<and> (\<forall>a \<in> set as. cf_suspended (futs a) \<noteq> None)"

definition mark_notified :: "nat list \<Rightarrow> (nat \<Rightarrow> 'aw cv_future) \<Rightarrow> nat \<Rightarrow> 'aw cv_future" where
  "mark_notified as futs = (\<lambda>a. if a \<in> set as
     then (futs a)\<lparr>cf_notified := True, cf_suspended := None\<rparr> else futs a)"

lemma act_all_notify:
  assumes "waiting futs as" and "in_exec ex"
  shows "act_all future_notify as (futs, ex) =
    (Inr (), mark_notified as futs,
     ex\<lparr>posted := posted ex @ map (\<lambda>a. the (cf_suspended (futs a))) as\<rparr>)"
  using assms
proof (induction as arbitrary: futs ex)
  case (Cons a as)
  then obtain h where h: "cf_suspended (futs a) = Some h" by (auto simp: waiting_def)
  let ?futs = "futs(a := (futs a)\<lparr>cf_notified := True, cf_suspended := None\<rparr>)"
  from Cons.prems have "waiting ?futs as" and a: "a \<notin> set as" by (auto simp: waiting_def)
  have "act_all future_notify as (?futs, ex\<lparr>posted := posted ex @ [h]\<rparr>) =
    (Inr (), mark_notified as ?futs,
     ex\<lparr>posted := posted ex @ [h], posted := posted (ex\<lparr>posted := posted ex @ [h]\<rparr>) @
        map (\<lambda>a. the (cf_suspended (?futs a))) as\<rparr>)"
    by (rule Cons.IH [OF \<open>waiting ?futs as\<close>]) (simp add: Cons.prems(2))
  moreover have "mark_notified as ?futs = mark_notified (a # as) futs"
    using a by (auto simp: mark_notified_def fun_eq_iff)
  moreover have "map (\<lambda>a. the (cf_suspended (?futs a))) as = map (\<lambda>a. the (cf_suspended (futs a))) as"
    using a by (auto intro: map_cong)
  ultimately show ?case
    unfolding act_all.simps future_notify_Some [of futs a h ex, OF h Cons.prems(2)] using h by simp
qed (simp add: mark_notified_def)

section \<open>Tasks that wait and notify\<close>

text \<open>
  A task co_awaits \<open>wait(lk)\<close> with a fresh future. Its handle and its future have the same
  number. \<open>lk\<close> are the operations of the lockable, on a world \<open>'w\<close> that other tasks may
  change at any time. A resumed task goes on with \<open>await_resume\<close>. Operations on the queue do not overlap here.
\<close>

record ('aw, 'w) lk_ops =
  lk_lock :: "'w \<Rightarrow> 'aw \<times> 'w"
  lk_ready :: "'aw \<Rightarrow> 'w \<Rightarrow> bool \<times> 'w"
  lk_suspend :: "'aw \<Rightarrow> handle \<Rightarrow> 'w \<Rightarrow> 'w"
  lk_resume :: "'aw \<Rightarrow> ('w \<Rightarrow> (fault + unit) \<times> 'w)"

datatype cv_pc = Fresh | Entered | Waiting | Scheduled | Done

record ('aw, 'w) cv_sys =
  cs_cv :: "'aw cv"
  cs_world :: 'w                    \<comment> \<open>the lockable and all else\<close>
  cs_pc :: "nat \<Rightarrow> cv_pc"
  cs_pushed :: "nat list"           \<comment> \<open>history: futures in the order they were queued\<close>
  cs_woken :: "nat list"            \<comment> \<open>history: futures in the order they were notified\<close>
  cs_fault :: "fault option"

datatype 'w cv_label =
    W_ready nat | W_suspend nat | W_resume | W_notify_one | W_notify_all | W_other 'w

definition cv_init :: "'w \<Rightarrow> ('aw, 'w) cv_sys" where
  "cv_init w = \<lparr>cs_cv = \<lparr>cv_waiters = lfq_empty, cv_futures = (\<lambda>_. cv_future_ctor),
                  cv_ex = \<lparr>in_exec = True, posted = []\<rparr>\<rparr>,
      cs_world = w, cs_pc = (\<lambda>_. Fresh), cs_pushed = [], cs_woken = [], cs_fault = None\<rparr>"

definition notified_by :: "'aw cv \<Rightarrow> 'aw cv \<Rightarrow> nat list" where
  "notified_by c c1 = drop (length (posted (cv_ex c))) (posted (cv_ex c1))"

definition after_notify :: "fault + unit \<Rightarrow> 'aw cv \<Rightarrow> ('aw, 'w) cv_sys \<Rightarrow> ('aw, 'w) cv_sys" where
  "after_notify r c s =
     (let newly = notified_by (cs_cv s) c
      in s\<lparr>cs_cv := c, cs_woken := cs_woken s @ newly,
           cs_pc := (\<lambda>a. if a \<in> set newly then Scheduled else cs_pc s a),
           cs_fault := (case r of Inl f \<Rightarrow> Some f | Inr _ \<Rightarrow> None)\<rparr>)"

fun cv_step :: "('aw, 'w) lk_ops \<Rightarrow> 'w cv_label \<Rightarrow> ('aw, 'w) cv_sys \<Rightarrow> ('aw, 'w) cv_sys option" where
  "cv_step lk (W_ready a) s =
     (if cs_fault s = None \<and> cs_pc s a = Fresh
      then (let (ready, f, w) = wait_ready (lk_lock lk) (lk_ready lk) (cv_futures (cs_cv s) a) (cs_world s)
            in Some (s\<lparr>cs_cv := (cs_cv s)\<lparr>cv_futures := (cv_futures (cs_cv s))(a := f)\<rparr>,
                       cs_world := w, cs_pc := (cs_pc s)(a := if ready then Scheduled else Entered)\<rparr>))
      else None)"
| "cv_step lk (W_suspend a) s =
     (if cs_fault s = None \<and> cs_pc s a = Entered
      then (let (c, w) = wait_suspend (lk_suspend lk) a a (cs_cv s) (cs_world s)
            in Some (s\<lparr>cs_cv := c, cs_world := w, cs_pc := (cs_pc s)(a := Waiting),
                       cs_pushed := cs_pushed s @ [a]\<rparr>))
      else None)"
| "cv_step lk W_notify_one s =
     (if cs_fault s = None
      then (let (r, c) = notify_one (cs_cv s) in Some (after_notify r c s))
      else None)"
| "cv_step lk W_notify_all s =
     (if cs_fault s = None
      then (case notify_all (cs_cv s) of None \<Rightarrow> None | Some (r, c) \<Rightarrow> Some (after_notify r c s))
      else None)"
| "cv_step lk W_resume s =
     (case posted (cv_ex (cs_cv s)) of
        [] \<Rightarrow> None
      | a # as \<Rightarrow>
          (if cs_fault s = None
           then (let (r, w) = wait_resume (lk_resume lk) (cv_futures (cs_cv s) a) (cs_world s)
                 in Some (s\<lparr>cs_cv := (cs_cv s)\<lparr>cv_ex := (cv_ex (cs_cv s))\<lparr>posted := as\<rparr>\<rparr>,
                            cs_world := w, cs_pc := (cs_pc s)(a := Done),
                            cs_fault := (case r of Inl f \<Rightarrow> Some f | Inr _ \<Rightarrow> None)\<rparr>))
           else None))"
| "cv_step lk (W_other w) s = (if cs_fault s = None then Some (s\<lparr>cs_world := w\<rparr>) else None)"

definition cv_inv :: "('aw, 'w) cv_sys \<Rightarrow> bool" where
  "cv_inv s \<longleftrightarrow>
     lfq_ok (cv_waiters (cs_cv s)) \<and> in_exec (cv_ex (cs_cv s)) \<and>
     (\<forall>a. cf_awaiter (cv_futures (cs_cv s) a) = None) \<and>
     (\<forall>a. cs_pc s a = Fresh \<longrightarrow> \<not> cf_notified (cv_futures (cs_cv s) a)) \<and>
     (\<forall>a. cs_pc s a = Waiting \<longrightarrow> cf_suspended (cv_futures (cs_cv s) a) = Some a) \<and>
     (\<forall>a \<in> set (cs_pushed s). cs_pc s a \<notin> {Fresh, Entered}) \<and>
     (\<forall>a \<in> set (posted (cv_ex (cs_cv s))). cs_pc s a = Scheduled \<or> cs_pc s a = Done) \<and>
     (\<forall>a. cs_pc s a = Waiting \<longleftrightarrow> a \<in> set (vals (cells (cv_waiters (cs_cv s))))) \<and>
     cs_pushed s = cs_woken s @ vals (cells (cv_waiters (cs_cv s))) \<and> distinct (cs_pushed s)"

lemma mark_notified_simps [simp]:
  "cf_awaiter (mark_notified as futs a) = cf_awaiter (futs a)"
  "a \<notin> set as \<Longrightarrow> mark_notified as futs a = futs a"
  by (simp_all add: mark_notified_def)

definition notify_effect :: "nat list \<Rightarrow> nat lfqueue \<Rightarrow> 'aw cv \<Rightarrow> 'aw cv" where
  "notify_effect as q c =
     c\<lparr>cv_waiters := q, cv_futures := mark_notified as (cv_futures c),
       cv_ex := (cv_ex c)\<lparr>posted := posted (cv_ex c) @ as\<rparr>\<rparr>"

lemma notify_effect_Nil:
  "notify_effect [] q c = c\<lparr>cv_waiters := q, cv_futures := cv_futures c, cv_ex := cv_ex c\<rparr>"
  by (cases c) (simp add: notify_effect_def mark_notified_def)

lemma cv_inv_distinct:
  assumes "cv_inv s" shows "distinct (cs_woken s @ vals (cells (cv_waiters (cs_cv s))))"
  using assms unfolding cv_inv_def by (elim conjE) simp

lemma cv_inv_waiting:
  assumes "cv_inv s" and "vals (cells (cv_waiters (cs_cv s))) = as @ bs"
  shows "waiting (cv_futures (cs_cv s)) as"
    and "map (\<lambda>a. the (cf_suspended (cv_futures (cs_cv s) a))) as = as"
proof -
  have susp: "cf_suspended (cv_futures (cs_cv s) a) = Some a" if "a \<in> set as" for a
    using that assms by (simp add: cv_inv_def)
  from cv_inv_distinct [OF assms(1)] assms(2) have "distinct as" by simp
  with susp show "waiting (cv_futures (cs_cv s)) as" by (simp add: waiting_def)
  from susp show "map (\<lambda>a. the (cf_suspended (cv_futures (cs_cv s) a))) as = as"
    by (simp add: map_idI)
qed

lemma notify_one_effect:
  assumes "cv_inv s"
  shows "\<exists>as q. notify_one (cs_cv s) = (Inr (), notify_effect as q (cs_cv s)) \<and> lfq_ok q \<and>
           vals (cells (cv_waiters (cs_cv s))) = as @ vals (cells q)"
proof -
  let ?c = "cs_cv s"
  from assms have ok: "lfq_ok (cv_waiters ?c)" and ex: "in_exec (cv_ex ?c)" by (auto simp: cv_inv_def)
  obtain r q where pop: "pop (cv_waiters ?c) = (r, q)" by (cases "pop (cv_waiters ?c)")
  show ?thesis
  proof (cases r)
    case None
    with lq.pop_NoneD [OF ok] pop have "vals (cells q) = vals (cells (cv_waiters ?c))" "lfq_ok q" by auto
    with pop None show ?thesis
      by (intro exI [of _ "[]"] exI [of _ q])
        (simp add: notify_one_def notify_effect_def mark_notified_def)
  next
    case (Some a)
    with lq.pop_SomeD [OF ok] pop have v: "vals (cells (cv_waiters ?c)) = [a] @ vals (cells q)"
      and q: "lfq_ok q" by auto
    from cv_inv_waiting [OF assms v] have "cf_suspended (cv_futures ?c a) = Some a"
      by (auto simp: waiting_def)
    from future_notify_Some [of "cv_futures ?c" a a "cv_ex ?c", OF this ex] pop Some v q show ?thesis
      by (intro exI [of _ "[a]"] exI [of _ q])
        (auto simp add: notify_one_def notify_effect_def mark_notified_def fun_eq_iff)
  qed
qed

lemma notify_all_effect:
  assumes "cv_inv s"
  shows "\<exists>as q. notify_all (cs_cv s) = Some (Inr (), notify_effect as q (cs_cv s)) \<and> lfq_ok q \<and>
           vals (cells (cv_waiters (cs_cv s))) = as @ vals (cells q) \<and>
           (if cells_front (cells (cv_waiters (cs_cv s))) = None then as = [] else vals (cells q) = [])"
proof -
  let ?c = "cs_cv s" and ?as = "vals (cells (cv_waiters (cs_cv s)))"
  from assms have ok: "lfq_ok (cv_waiters ?c)" and ex: "in_exec (cv_ex ?c)" by (auto simp: cv_inv_def)
  show ?thesis
  proof (cases "cells_front (cells (cv_waiters ?c))")
    case None
    have d: "drain_with pop future_notify (cv_waiters ?c) (cv_futures ?c, cv_ex ?c) =
        Some (Inr (), snd (pop (cv_waiters ?c)), cv_futures ?c, cv_ex ?c)"
      by (rule lq.drain_front_None [OF ok None])
    from lq.laws(3,7) [OF ok] cells_front_None [OF None] show ?thesis
      by (intro exI [of _ "[]"] exI [of _ "snd (pop (cv_waiters ?c))"])
        (simp add: notify_all_def notify_effect_Nil None d)
  next
    case (Some a)
    from cv_inv_waiting [OF assms, of ?as "[]"] have w: "waiting (cv_futures ?c) ?as"
      and m: "map (\<lambda>a. the (cf_suspended (cv_futures ?c a))) ?as = ?as" by simp_all
    from act_all_notify [OF w ex] lq.drain_front_Some [OF ok, of future_notify "(cv_futures ?c, cv_ex ?c)"]
      Some m obtain q where "drain_with pop future_notify (cv_waiters ?c) (cv_futures ?c, cv_ex ?c) =
        Some (Inr (), q, mark_notified ?as (cv_futures ?c), (cv_ex ?c)\<lparr>posted := posted (cv_ex ?c) @ ?as\<rparr>)"
        "lfq_ok q" "cells q = [None]" by auto
    with Some show ?thesis
      by (intro exI [of _ ?as] exI [of _ q]) (simp add: notify_all_def notify_effect_def)
  qed
qed

lemma cv_inv_notify:
  assumes inv: "cv_inv s" and q: "lfq_ok q"
    and v: "vals (cells (cv_waiters (cs_cv s))) = as @ vals (cells q)"
  shows "cv_inv (after_notify (Inr ()) (notify_effect as q (cs_cv s)) s)"
    and "cs_fault (after_notify (Inr ()) (notify_effect as q (cs_cv s)) s) = None"
    and "cs_woken (after_notify (Inr ()) (notify_effect as q (cs_cv s)) s) = cs_woken s @ as"
proof -
  let ?t = "after_notify (Inr ()) (notify_effect as q (cs_cv s)) s"
  have t: "cs_cv ?t = notify_effect as q (cs_cv s)" "cs_woken ?t = cs_woken s @ as"
    "cs_pc ?t = (\<lambda>a. if a \<in> set as then Scheduled else cs_pc s a)" "cs_pushed ?t = cs_pushed s"
    by (simp_all add: after_notify_def notified_by_def notify_effect_def)
  from cv_inv_distinct [OF inv] v have dist: "distinct (as @ vals (cells q))" by simp
  from inv v have pcs: "\<And>a. cs_pc s a = Waiting \<longleftrightarrow> a \<in> set as \<union> set (vals (cells q))"
    by (simp add: cv_inv_def)
  then have w: "\<And>a. a \<in> set as \<Longrightarrow> cs_pc s a = Waiting" by blast
  from pcs dist have "\<And>a. cs_pc ?t a = Waiting \<longleftrightarrow> a \<in> set (vals (cells q))" by (auto simp: t)
  moreover have "\<And>a. cs_pc ?t a = Fresh \<longleftrightarrow> cs_pc s a = Fresh" and
    "\<And>a. cs_pc ?t a = Waiting \<Longrightarrow> cs_pc s a = Waiting \<and> a \<notin> set as"
    by (auto simp: t dest: w split: if_splits)
  moreover have "\<And>a. cs_pc s a = Fresh \<Longrightarrow> a \<notin> set as" by (auto dest: w)
  ultimately show "cv_inv ?t"
    using inv q v unfolding cv_inv_def t by (auto simp: notify_effect_def)
  show "cs_fault ?t = None" by (simp add: after_notify_def Let_def)
  show "cs_woken ?t = cs_woken s @ as" by (rule t)
qed

lemma cv_inv_ready:
  assumes inv: "cv_inv s" and step: "cv_step lk (W_ready a) s = Some t"
  shows "cv_inv t \<and> cs_world t = cs_world s"
proof -
  from step have pc: "cs_pc s a = Fresh" by (auto split: if_splits)
  with inv have "\<not> cf_notified (cv_futures (cs_cv s) a)" by (simp add: cv_inv_def)
  with step pc have t: "t = s\<lparr>cs_cv := (cs_cv s)\<lparr>cv_futures := (cv_futures (cs_cv s))(a := cv_futures (cs_cv s) a)\<rparr>,
      cs_world := cs_world s, cs_pc := (cs_pc s)(a := Entered)\<rparr>"
    by (auto simp: wait_ready_def split: if_splits)
  have sel: "cv_waiters (cs_cv t) = cv_waiters (cs_cv s)" "cv_futures (cs_cv t) = cv_futures (cs_cv s)"
    "cv_ex (cs_cv t) = cv_ex (cs_cv s)" "cs_pushed t = cs_pushed s" "cs_woken t = cs_woken s"
    "cs_world t = cs_world s" "cs_pc t = (cs_pc s)(a := Entered)"
    by (simp_all add: t)
  from inv pc have "a \<notin> set (cs_pushed s)" "a \<notin> set (posted (cv_ex (cs_cv s)))"
    "a \<notin> set (vals (cells (cv_waiters (cs_cv s))))" unfolding cv_inv_def by fastforce+
  with inv show ?thesis unfolding cv_inv_def sel by (auto split: if_splits)
qed

lemma cv_inv_suspend:
  assumes inv: "cv_inv s" and step: "cv_step lk (W_suspend a) s = Some t"
  shows "cv_inv t \<and> cs_world t = cs_world s"
proof -
  from step have pc: "cs_pc s a = Entered" by (auto split: if_splits)
  from inv have "cf_awaiter (cv_futures (cs_cv s) a) = None" and ok: "lfq_ok (cv_waiters (cs_cv s))"
    by (auto simp: cv_inv_def)
  with step pc have t: "t = s\<lparr>cs_cv := (cs_cv s)\<lparr>cv_futures := (cv_futures (cs_cv s))
        (a := (cv_futures (cs_cv s) a)\<lparr>cf_suspended := Some a\<rparr>), cv_waiters := push a (cv_waiters (cs_cv s))\<rparr>,
      cs_world := cs_world s, cs_pc := (cs_pc s)(a := Waiting), cs_pushed := cs_pushed s @ [a]\<rparr>"
    by (auto simp: wait_suspend_def split: if_splits)
  have sel: "cv_waiters (cs_cv t) = push a (cv_waiters (cs_cv s))"
    "cv_futures (cs_cv t) = (cv_futures (cs_cv s))(a := (cv_futures (cs_cv s) a)\<lparr>cf_suspended := Some a\<rparr>)"
    "cv_ex (cs_cv t) = cv_ex (cs_cv s)" "cs_pushed t = cs_pushed s @ [a]" "cs_woken t = cs_woken s"
    "cs_world t = cs_world s" "cs_pc t = (cs_pc s)(a := Waiting)"
    by (simp_all add: t)
  from inv pc have "a \<notin> set (cs_pushed s)" "a \<notin> set (posted (cv_ex (cs_cv s)))"
    unfolding cv_inv_def by fastforce+
  with inv ok show ?thesis
    unfolding cv_inv_def sel by (auto simp: lq.ok_push lq.cells_push)
qed

lemma cv_inv_resume:
  assumes inv: "cv_inv s" and step: "cv_step lk W_resume s = Some t"
  shows "cv_inv t \<and> cs_fault t = Some (Undefined Empty_option_deref)"
proof -
  from step obtain a as where post: "posted (cv_ex (cs_cv s)) = a # as"
    by (cases "posted (cv_ex (cs_cv s))") auto
  from inv have "cf_awaiter (cv_futures (cs_cv s) a) = None" by (simp add: cv_inv_def)
  with step post have t: "t = s\<lparr>cs_cv := (cs_cv s)\<lparr>cv_ex := (cv_ex (cs_cv s))\<lparr>posted := as\<rparr>\<rparr>,
      cs_world := cs_world s, cs_pc := (cs_pc s)(a := Done),
      cs_fault := Some (Undefined Empty_option_deref)\<rparr>"
    by (auto simp: wait_resume_def fail_def split: if_splits)
  have sel: "cv_waiters (cs_cv t) = cv_waiters (cs_cv s)" "cv_futures (cs_cv t) = cv_futures (cs_cv s)"
    "cv_ex (cs_cv t) = (cv_ex (cs_cv s))\<lparr>posted := as\<rparr>" "cs_pushed t = cs_pushed s"
    "cs_woken t = cs_woken s" "cs_pc t = (cs_pc s)(a := Done)"
    by (simp_all add: t)
  from inv post have "cs_pc s a = Scheduled \<or> cs_pc s a = Done" by (simp add: cv_inv_def)
  then have "\<And>b. (if b = a then Done else cs_pc s b) = Waiting \<longleftrightarrow> cs_pc s b = Waiting" by auto
  with inv post show ?thesis unfolding cv_inv_def sel by (auto simp: t)
qed

lemma cv_inv_step:
  assumes inv: "cv_inv s" and step: "cv_step lk l s = Some t"
  shows "cv_inv t"
proof (cases l)
  case (W_ready a) with assms cv_inv_ready show ?thesis by blast
next
  case (W_suspend a) with assms cv_inv_suspend show ?thesis by blast
next
  case W_resume with assms cv_inv_resume show ?thesis by blast
next
  case W_notify_one
  from notify_one_effect [OF inv] obtain as q where
    "notify_one (cs_cv s) = (Inr (), notify_effect as q (cs_cv s))" and q: "lfq_ok q"
    and v: "vals (cells (cv_waiters (cs_cv s))) = as @ vals (cells q)" by blast
  with step W_notify_one have "t = after_notify (Inr ()) (notify_effect as q (cs_cv s)) s"
    by (simp split: if_splits)
  with cv_inv_notify(1) [OF inv q v] show ?thesis by simp
next
  case W_notify_all
  from notify_all_effect [OF inv] obtain as q where
    "notify_all (cs_cv s) = Some (Inr (), notify_effect as q (cs_cv s))" and q: "lfq_ok q"
    and v: "vals (cells (cv_waiters (cs_cv s))) = as @ vals (cells q)" by blast
  with step W_notify_all have "t = after_notify (Inr ()) (notify_effect as q (cs_cv s)) s"
    by (simp split: if_splits)
  with cv_inv_notify(1) [OF inv q v] show ?thesis by simp
next
  case (W_other w)
  with step have t: "t = s\<lparr>cs_world := w\<rparr>" by (simp split: if_splits)
  have sel: "cs_cv t = cs_cv s" "cs_pc t = cs_pc s" "cs_pushed t = cs_pushed s" "cs_woken t = cs_woken s"
    by (simp_all add: t)
  from inv show ?thesis unfolding cv_inv_def sel .
qed

lemma cv_inv_init: "cv_inv (cv_init w)"
  by (simp add: cv_inv_def cv_init_def lq.ok_empty lq.cells_empty cv_future_ctor_def)

lemma cv_reach_inv: "reach (cv_init w) (cv_step lk) s \<Longrightarrow> cv_inv s"
  by (erule reach_invariant) (auto intro: cv_inv_init cv_inv_step)

lemma cv_notify_total: "cv_inv s \<Longrightarrow> cs_fault s = None \<Longrightarrow> \<exists>t. cv_step lk W_notify_all s = Some t"
  using notify_all_effect [of s] by auto

section \<open>Properties\<close>

text \<open>
  In the runs in which queue operations do not overlap and a \<open>notify_all\<close> is not interrupted, no task is woken twice, tasks
  are woken in the order they began to wait, and every task that waits is either woken or
  still in the queue; a notification never fails.
\<close>

theorem cv_wakes_once_in_order:
  assumes "reach (cv_init w) (cv_step lk) s"
  shows "cs_pushed s = cs_woken s @ vals (cells (cv_waiters (cs_cv s))) \<and> distinct (cs_pushed s) \<and>
    fst (notify_one (cs_cv s)) = Inr () \<and> (\<exists>c. notify_all (cs_cv s) = Some (Inr (), c))"
  using cv_reach_inv [OF assms] notify_one_effect [OF cv_reach_inv [OF assms]]
    notify_all_effect [OF cv_reach_inv [OF assms]]
  unfolding cv_inv_def by auto

definition trivial_lk :: "(unit, unit) lk_ops" where
  "trivial_lk = \<lparr>lk_lock = (\<lambda>w. ((), w)), lk_ready = (\<lambda>_ w. (True, w)), lk_suspend = (\<lambda>_ _ w. w),
     lk_resume = (\<lambda>_. ret ())\<rparr>"

theorem cv_wakes_once_in_order_witness:
  "\<exists>s. reach (cv_init ()) (cv_step trivial_lk) s \<and> cs_woken s = [1, 2] \<and> cs_pushed s = [1, 2, 3]"
proof -
  let ?ls = "[W_ready 1, W_suspend 1, W_ready 2, W_suspend 2, W_notify_one, W_notify_one,
    W_ready 3, W_suspend 3]"
  have "run_sat (cv_step trivial_lk) ?ls (cv_init ()) (\<lambda>s. cs_woken s = [1, 2])" by code_simp
  then obtain s where r: "reach (cv_init ()) (cv_step trivial_lk) s" and "cs_woken s = [1, 2]"
    and "run (cv_step trivial_lk) ?ls (cv_init ()) = Some s" by (rule run_satE)
  moreover have "run_sat (cv_step trivial_lk) ?ls (cv_init ()) (\<lambda>s. vals (cells (cv_waiters (cs_cv s))) = [3])"
    by code_simp
  ultimately show ?thesis using cv_wakes_once_in_order [OF r] by (auto simp: run_sat_def)
qed

text \<open>
  \<open>notify_all\<close> wakes every waiting task, or none: none exactly when the oldest cell of the
  queue is one an earlier notification emptied, although tasks may be waiting behind it.
\<close>

theorem cv_notify_all_or_nothing:
  assumes "reach (cv_init w) (cv_step lk) s" and "cv_step lk W_notify_all s = Some t"
  shows "cs_woken t = (if cells_front (cells (cv_waiters (cs_cv s))) = None then cs_woken s
                       else cs_pushed s) \<and> cs_fault t = None"
proof -
  note inv = cv_reach_inv [OF assms(1)]
  from notify_all_effect [OF inv] obtain as q where
    n: "notify_all (cs_cv s) = Some (Inr (), notify_effect as q (cs_cv s))" and q: "lfq_ok q"
    and v: "vals (cells (cv_waiters (cs_cv s))) = as @ vals (cells q)"
    and k: "if cells_front (cells (cv_waiters (cs_cv s))) = None then as = [] else vals (cells q) = []"
    by blast
  from assms(2) n have "t = after_notify (Inr ()) (notify_effect as q (cs_cv s)) s"
    by (simp split: if_splits)
  with cv_inv_notify(2,3) [OF inv q v] k v inv show ?thesis by (auto simp: cv_inv_def)
qed

theorem cv_notify_all_or_nothing_witness:
  "\<exists>s t. reach (cv_init ()) (cv_step trivial_lk) s \<and> cv_step trivial_lk W_notify_all s = Some t \<and>
         cs_pushed s = [1, 2] \<and> cs_woken t = [1]"
proof -
  let ?ls = "[W_ready 1, W_suspend 1, W_notify_one, W_ready 2, W_suspend 2]"
  have "run_sat (cv_step trivial_lk) ?ls (cv_init ()) (\<lambda>s. cs_pushed s = [1, 2] \<and> cs_woken s = [1] \<and>
      cells_front (cells (cv_waiters (cs_cv s))) = None \<and> cs_fault s = None)" by code_simp
  then obtain s where r: "reach (cv_init ()) (cv_step trivial_lk) s"
    and s: "cs_pushed s = [1, 2]" "cs_woken s = [1]" "cells_front (cells (cv_waiters (cs_cv s))) = None"
      "cs_fault s = None" by (rule run_satE) auto
  from cv_notify_total [OF cv_reach_inv [OF r] s(4)] obtain t
    where t: "cv_step trivial_lk W_notify_all s = Some t" ..
  from cv_notify_all_or_nothing [OF r t] r t s show ?thesis by auto
qed

text \<open>
  Resuming a task from \<open>wait\<close> is always undefined behaviour, for every lockable: the
  awaiter that \<open>await_resume\<close> dereferences is only created by an \<open>await_ready\<close> call
  that never comes. And starting to wait leaves the lockable as it is: the mutex the caller
  holds is not released while it waits.
\<close>

theorem cv_wait_broken:
  assumes "reach (cv_init w) (cv_step lk) s" and "cv_step lk l s = Some t"
  shows "(l = W_resume \<longrightarrow> cs_fault t = Some (Undefined Empty_option_deref)) \<and>
         (l = W_ready a \<or> l = W_suspend a \<longrightarrow> cs_world t = cs_world s)"
  using cv_inv_resume [OF cv_reach_inv [OF assms(1)]] cv_inv_ready [OF cv_reach_inv [OF assms(1)]]
    cv_inv_suspend [OF cv_reach_inv [OF assms(1)]] assms(2) by blast

theorem cv_wait_broken_witness:
  "\<exists>s t. reach (cv_init ()) (cv_step trivial_lk) s \<and> cv_step trivial_lk W_resume s = Some t \<and>
         cs_fault t = Some (Undefined Empty_option_deref)"
proof -
  have "run_sat (cv_step trivial_lk) [W_ready 1, W_suspend 1, W_notify_one] (cv_init ())
      (\<lambda>s. run_sat (cv_step trivial_lk) [W_resume] s (\<lambda>_. True))" by code_simp
  then obtain s where r: "reach (cv_init ()) (cv_step trivial_lk) s"
    and "run_sat (cv_step trivial_lk) [W_resume] s (\<lambda>_. True)" by (rule run_satE)
  then obtain t where t: "cv_step trivial_lk W_resume s = Some t"
    by (auto simp: run_sat_def split: option.splits)
  from cv_wait_broken [OF r t] r t show ?thesis by blast
qed

end
