(* ===== verification/Cv_Accesses.thy ===== *)
theory Cv_Accesses imports Condition_Variable Queue_Accesses begin

text \<open>
  \<open>condition_variable\<close> (src/condition_variable.cpp, include/crasy/condition_variable.hpp) with the queue's own atomic
  accesses: any number of threads suspend tasks in waits and notify, one or all, and interleave at every access
  of \<open>waiters_\<close>. An \<open>await_ready\<close> of a new future is false and writes nothing, so \<open>Cw_wait\<close> is it and
  the store of the handle; what \<open>notify\<close> writes belongs to the thread that popped the future. As in \<open>Condition_Variable\<close> a task and the future it waits with have the same number.
\<close>

section \<open>Threads\<close>

datatype cv_thread_pc =
    V_idle
  | V_suspend nat     \<comment> \<open>in \<open>await_suspend\<close>, the handle stored, the push to come\<close>
  | V_pushing         \<comment> \<open>in the push\<close>
  | V_notify bool     \<comment> \<open>in \<open>notify_one\<close>, or in \<open>notify_all\<close>, before a pop\<close>
  | V_popping bool    \<comment> \<open>in that pop\<close>

record 'aw cv_threads =
  cw_q :: "nat lfq_sys"                    \<comment> \<open>\<open>waiters_\<close>\<close>
  cw_futures :: "nat \<Rightarrow> 'aw cv_future"
  cw_ex :: exec_ctx
  cw_pc :: "nat \<Rightarrow> cv_thread_pc"
  cw_begun :: "nat \<Rightarrow> bool"
  cw_pushed :: "nat list"                  \<comment> \<open>history\<close>
  cw_popped :: "nat list"                  \<comment> \<open>history\<close>
  cw_fault :: "fault option"

definition cw_init :: "'aw cv_threads" where
  "cw_init = \<lparr>cw_q = lfq_sys_init lfq_empty, cw_futures = (\<lambda>_. cv_future_ctor), cw_ex = \<lparr>in_exec = True, posted = []\<rparr>,
     cw_pc = (\<lambda>_. V_idle), cw_begun = (\<lambda>_. False), cw_pushed = [], cw_popped = [], cw_fault = None\<rparr>"

definition cw_goto :: "nat \<Rightarrow> cv_thread_pc \<Rightarrow> 'aw cv_threads \<Rightarrow> 'aw cv_threads" where
  "cw_goto i pc s = s\<lparr>cw_pc := (cw_pc s)(i := pc)\<rparr>"

definition cw_queue :: "nat lfq_label \<Rightarrow> 'aw cv_threads \<Rightarrow> 'aw cv_threads option" where
  "cw_queue l s = map_option (\<lambda>q. s\<lparr>cw_q := q\<rparr>) (lfq_step By_reference l (cw_q s))"

text \<open>The two halves of \<open>await_suspend\<close> of a future that has no awaiter yet.\<close>

definition wait_store :: "nat \<Rightarrow> 'aw cv_threads \<Rightarrow> 'aw cv_threads" where
  "wait_store a s = s\<lparr>cw_futures := (cw_futures s)(a := (cw_futures s a)\<lparr>cf_suspended := Some a\<rparr>)\<rparr>"

lemma wait_suspend_parts:
  assumes "cf_awaiter (cv_futures c a) = None"
  shows "wait_suspend aw_suspend a a c w =
    (c\<lparr>cv_futures := (cv_futures c)(a := (cv_futures c a)\<lparr>cf_suspended := Some a\<rparr>), cv_waiters := push a (cv_waiters c)\<rparr>, w)"
  using assms by (simp add: wait_suspend_def)

text \<open>What a notification does with the answer of its pop; \<open>notify_all\<close> pops again until it gets none.\<close>

definition cw_notified :: "nat \<Rightarrow> bool \<Rightarrow> nat option \<Rightarrow> 'aw cv_threads \<Rightarrow> 'aw cv_threads" where
  "cw_notified i all waiter s =
     (case waiter of
        None \<Rightarrow> cw_goto i V_idle s
      | Some a \<Rightarrow>
          (let (r, futs, ex) = future_notify a (cw_futures s, cw_ex s)
           in cw_goto i (if all then V_notify True else V_idle)
                (s\<lparr>cw_futures := futs, cw_ex := ex, cw_popped := cw_popped s @ [a],
                   cw_fault := (case r of Inl f \<Rightarrow> Some f | Inr _ \<Rightarrow> None)\<rparr>)))"

fun cw_next :: "cv_thread_pc \<Rightarrow> nat \<Rightarrow> 'aw cv_threads \<Rightarrow> 'aw cv_threads option" where
  "cw_next V_idle i s = None"
| "cw_next (V_suspend a) i s =
     map_option (\<lambda>s1. cw_goto i V_pushing (s1\<lparr>cw_pushed := cw_pushed s @ [a]\<rparr>)) (cw_queue (Start_push i a) s)"
| "cw_next V_pushing i s =
     (case lc_pc (cw_q s) i of Idle \<Rightarrow> Some (cw_goto i V_idle s) | _ \<Rightarrow> cw_queue (Access i) s)"
| "cw_next (V_notify all) i s = map_option (cw_goto i (V_popping all)) (cw_queue (Start_pop i) s)"
| "cw_next (V_popping all) i s =
     (case lc_pc (cw_q s) i of
        Returned p \<Rightarrow> map_option (cw_notified i all p) (cw_queue (Return i) s)
      | _ \<Rightarrow> cw_queue (Access i) s)"

text \<open>A resumed task goes on with \<open>await_resume\<close>, which dereferences the awaiter; what an awaiter then does is the lockable's.\<close>

definition cw_resume :: "'aw cv_threads \<Rightarrow> 'aw cv_threads option" where
  "cw_resume s =
     (case posted (cw_ex s) of
        [] \<Rightarrow> None
      | a # as \<Rightarrow> Some (s\<lparr>cw_ex := (cw_ex s)\<lparr>posted := as\<rparr>,
           cw_fault := (case cf_awaiter (cw_futures s a) of None \<Rightarrow> Some (Undefined Empty_option_deref) | Some _ \<Rightarrow> None)\<rparr>))"

datatype cw_label = Cw_wait nat nat | Cw_notify nat bool | Cw_next nat | Cw_resume nat

fun cw_thread :: "cw_label \<Rightarrow> nat" where
  "cw_thread (Cw_wait i a) = i"
| "cw_thread (Cw_notify i all) = i"
| "cw_thread (Cw_next i) = i"
| "cw_thread (Cw_resume i) = i"

fun cw_move :: "cw_label \<Rightarrow> 'aw cv_threads \<Rightarrow> 'aw cv_threads option" where
  "cw_move (Cw_wait i a) s =
     (if cw_pc s i = V_idle \<and> \<not> cw_begun s a
      then Some (cw_goto i (V_suspend a) (wait_store a (s\<lparr>cw_begun := (cw_begun s)(a := True)\<rparr>))) else None)"
| "cw_move (Cw_notify i all) s = (if cw_pc s i = V_idle then Some (cw_goto i (V_notify all) s) else None)"
| "cw_move (Cw_next i) s = cw_next (cw_pc s i) i s"
| "cw_move (Cw_resume i) s = (if cw_pc s i = V_idle then cw_resume s else None)"

definition cw_step :: "nat \<Rightarrow> cw_label \<Rightarrow> 'aw cv_threads \<Rightarrow> 'aw cv_threads option" where
  "cw_step n l s = (if cw_thread l < n \<and> cw_fault s = None then cw_move l s else None)"

lemma cw_sel [simp]:
  "cw_q (cw_goto i pc s) = cw_q s" "cw_ex (cw_goto i pc s) = cw_ex s" "cw_pushed (cw_goto i pc s) = cw_pushed s"
  "cw_popped (cw_goto i pc s) = cw_popped s" "cw_begun (cw_goto i pc s) = cw_begun s" "cw_fault (cw_goto i pc s) = cw_fault s"
  "cw_futures (cw_goto i pc s) = cw_futures s" "cw_pc (cw_goto i pc s) = (cw_pc s)(i := pc)"
  "cw_q (wait_store a s) = cw_q s" "cw_ex (wait_store a s) = cw_ex s" "cw_pushed (wait_store a s) = cw_pushed s"
  "cw_popped (wait_store a s) = cw_popped s" "cw_begun (wait_store a s) = cw_begun s" "cw_fault (wait_store a s) = cw_fault s"
  "cw_futures (wait_store a s) = (cw_futures s)(a := (cw_futures s a)\<lparr>cf_suspended := Some a\<rparr>)"
  "cw_pc (wait_store a s) = cw_pc s"
  by (simp_all add: cw_goto_def wait_store_def)

lemma cw_queueE:
  assumes "cw_queue l s = Some t"
  obtains q where "lfq_step By_reference l (cw_q s) = Some q" and "t = s\<lparr>cw_q := q\<rparr>"
  using assms by (auto simp: cw_queue_def)

lemma cw_nextE:
  assumes "cw_next pc i s = Some t"
  obtains (push) a q where "pc = V_suspend a" and "lfq_step By_reference (Start_push i a) (cw_q s) = Some q"
      and "t = cw_goto i V_pushing (s\<lparr>cw_q := q, cw_pushed := cw_pushed s @ [a]\<rparr>)"
    | (pushed) "pc = V_pushing" and "t = cw_goto i V_idle s"
    | (access) q where "lfq_step By_reference (Access i) (cw_q s) = Some q" and "t = s\<lparr>cw_q := q\<rparr>"
    | (pop) all q where "pc = V_notify all" and "lfq_step By_reference (Start_pop i) (cw_q s) = Some q"
      and "t = cw_goto i (V_popping all) (s\<lparr>cw_q := q\<rparr>)"
    | (popped) all p q where "pc = V_popping all" and "lc_pc (cw_q s) i = Returned p"
      and "lfq_step By_reference (Return i) (cw_q s) = Some q" and "t = cw_notified i all p (s\<lparr>cw_q := q\<rparr>)"
proof (cases pc)
  case (V_suspend a)
  with assms show thesis by (auto simp del: lfq_step.simps elim!: cw_queueE intro: push)
next
  case V_pushing
  with assms show thesis
    by (cases "lc_pc (cw_q s) i") (auto simp del: lfq_step.simps elim!: cw_queueE intro: pushed access)
next
  case (V_notify all)
  with assms show thesis by (auto simp del: lfq_step.simps elim!: cw_queueE intro: pop)
next
  case (V_popping all)
  with assms show thesis
    by (cases "lc_pc (cw_q s) i") (auto simp del: lfq_step.simps elim!: cw_queueE intro: popped access)
qed (use assms in simp)

lemma cw_notified_parts:
  "cw_q (cw_notified i all p s) = cw_q s" "cw_pushed (cw_notified i all p s) = cw_pushed s"
  "cw_begun (cw_notified i all p s) = cw_begun s" "cw_popped (cw_notified i all p s) = cw_popped s @ vals [p]"
  by (simp_all add: cw_notified_def split: option.splits prod.splits)

section \<open>The waiters as a client of the queue\<close>

lemma cw_by_access:
  assumes "cw_step n l s = Some t"
  shows "(cw_q t = cw_q s \<and> cw_popped t = cw_popped s \<and> cw_pushed t = cw_pushed s) \<or>
      (\<exists>ql. thread_of ql < n \<and> lfq_step By_reference ql (cw_q s) = Some (cw_q t) \<and>
            cw_popped t = cw_popped s @ handed ql (cw_q s) \<and> cw_pushed t = cw_pushed s @ offered ql)"
proof -
  from assms have i: "cw_thread l < n" and step: "cw_move l s = Some t"
    by (simp_all add: cw_step_def split: if_splits)
  show ?thesis
  proof (cases l)
    case (Cw_next i)
    with i step have i: "i < n" and "cw_next (cw_pc s i) i s = Some t" by simp_all
    from this(2) show ?thesis
    proof (cases rule: cw_nextE)
      case (push a q)
      with i show ?thesis
        by (intro disjI2 exI [of _ "Start_push i a"]) (simp del: lfq_step.simps)
    next
      case (access q)
      with i show ?thesis
        by (intro disjI2 exI [of _ "Access i"]) (simp del: lfq_step.simps)
    next
      case (pop all q)
      with i show ?thesis
        by (intro disjI2 exI [of _ "Start_pop i"]) (simp del: lfq_step.simps)
    next
      case (popped all p q)
      with i show ?thesis
        by (intro disjI2 exI [of _ "Return i"]) (simp add: cw_notified_parts del: lfq_step.simps)
    qed simp
  qed (use step in \<open>auto simp: cw_resume_def split: if_splits list.splits\<close>)
qed

interpretation cwu: queue_user cw_init "cw_step n" cw_q By_reference cw_popped cw_pushed n for n
  by unfold_locales (use cw_by_access in \<open>auto simp: cw_init_def\<close>)

section \<open>The invariant\<close>

text \<open>A future is pushed once, after its handle was stored, and keeps the handle until it is popped.\<close>

definition cw_inv :: "'aw cv_threads \<Rightarrow> bool" where
  "cw_inv s \<longleftrightarrow>
     distinct (cw_pushed s) \<and> (\<forall>a \<in> set (cw_pushed s). cw_begun s a) \<and>
     (\<forall>i a. cw_pc s i = V_suspend a \<longrightarrow> cw_begun s a \<and> a \<notin> set (cw_pushed s)) \<and>
     (\<forall>i j a. cw_pc s i = V_suspend a \<and> cw_pc s j = V_suspend a \<longrightarrow> i = j) \<and>
     (\<forall>a. cw_begun s a \<and> a \<notin> set (cw_popped s) \<longrightarrow> cf_suspended (cw_futures s a) = Some a) \<and>
     (\<forall>a. cf_awaiter (cw_futures s a) = None) \<and>
     in_exec (cw_ex s) \<and> cw_fault s \<in> {None, Some (Undefined Empty_option_deref)} \<and>
     (cw_fault s = None \<longrightarrow> posted (cw_ex s) = cw_popped s)"

lemma cw_inv_init: "cw_inv cw_init"
  by (simp add: cw_inv_def cw_init_def cv_future_ctor_def)

text \<open>The future that a pop gives is one whose task is suspended: nothing was popped before it that was not pushed twice.\<close>

lemma distinct_part:
  assumes "distinct xs" and "mset ys \<subseteq># mset xs" shows "distinct ys"
  unfolding distinct_count_atmost_1
proof
  fix b
  have "count (mset xs) b \<le> 1"
    using assms(1) unfolding distinct_count_atmost_1 by simp
  with mset_subset_eq_count [OF assms(2), of b] have "count (mset ys) b \<le> 1" by simp
  then show "count (mset ys) b = (if b \<in> set ys then 1 else 0)" by (auto simp: le_Suc_eq)
qed

lemma popped_fresh:
  assumes "distinct xs" and "mset (ys @ [a]) \<subseteq># mset xs"
  shows "a \<in> set xs" and "distinct (ys @ [a])"
  using set_mset_mono [OF assms(2)] distinct_part [OF assms] by simp_all

lemma cw_notified_Some:
  assumes "cf_suspended (cw_futures s a) = Some a" and "in_exec (cw_ex s)"
  shows "cw_notified i all (Some a) s = cw_goto i (if all then V_notify True else V_idle)
    (s\<lparr>cw_futures := (cw_futures s)(a := (cw_futures s a)\<lparr>cf_notified := True, cf_suspended := None\<rparr>),
       cw_ex := (cw_ex s)\<lparr>posted := posted (cw_ex s) @ [a]\<rparr>, cw_popped := cw_popped s @ [a], cw_fault := None\<rparr>)"
  unfolding cw_notified_def option.case future_notify_Some [of "cw_futures s" a a "cw_ex s", OF assms] by simp

lemma cw_notified_inv:
  assumes inv: "cw_inv s" and pc: "cw_pc s i = V_popping all" and ok: "cw_fault s = None"
    and paid: "mset (cw_popped (cw_notified i all p s)) \<subseteq># mset (cw_pushed s)"
  shows "cw_inv (cw_notified i all p s)"
proof (cases p)
  case (Some a)
  from inv have "distinct (cw_pushed s)" by (simp add: cw_inv_def)
  with paid Some have a: "a \<in> set (cw_pushed s)" "distinct (cw_popped s @ [a])"
    by (auto dest: popped_fresh simp: cw_notified_parts simp del: mset_append distinct_append)
  with inv have "cf_suspended (cw_futures s a) = Some a" "in_exec (cw_ex s)"
    by (simp_all add: cw_inv_def)
  note t = cw_notified_Some [OF this, of i all]
  show ?thesis
    using inv ok a unfolding Some t cw_inv_def by auto
qed (use inv in \<open>auto simp: cw_notified_def cw_inv_def\<close>)

lemma cw_inv_step:
  assumes inv: "cw_inv s" and step: "cw_step n l s = Some t" and paid: "mset (cw_popped t) \<subseteq># mset (cw_pushed t)"
  shows "cw_inv t"
proof -
  from step have ok: "cw_fault s = None" and step: "cw_move l s = Some t"
    by (simp_all add: cw_step_def split: if_splits)
  show ?thesis
  proof (cases l)
    case (Cw_next i)
    with step have "cw_next (cw_pc s i) i s = Some t" by simp
    then show ?thesis
    proof (cases rule: cw_nextE)
      case (popped all p q)
      have "cw_inv (s\<lparr>cw_q := q\<rparr>)" using inv by (simp add: cw_inv_def)
      from cw_notified_inv [OF this, of i all p] popped paid ok show ?thesis
        by (simp add: cw_notified_parts)
    qed (use inv in \<open>auto simp: cw_inv_def\<close>)
  qed (use step inv ok in \<open>auto simp: cw_inv_def cw_resume_def split: if_splits list.splits\<close>)
qed

lemma cw_reach_inv: "reach cw_init (cw_step n) s \<Longrightarrow> cw_inv s"
proof (induction rule: reach.induct)
  case (reach_step s l t)
  from reach.reach_step [OF reach_step.hyps] have "mset (cw_popped t) \<subseteq># mset (cw_pushed t)" by (rule cwu.popped_was_pushed [OF refl])
  with reach_step show ?case by (blast intro: cw_inv_step)
qed (rule cw_inv_init)

section \<open>Properties\<close>





text \<open>
  In every interleaving, the first woken task goes on with an awaiter that was never made: no wait that suspended
  can come to an end.
\<close>

theorem cv_wait_broken_by_access:
  assumes "reach cw_init (cw_step n) s" and "cw_step n (Cw_resume i) s = Some t"
  shows "cw_fault t = Some (Undefined Empty_option_deref)"
  using cw_reach_inv [OF assms(1)] assms(2)
  by (auto simp: cw_inv_def cw_step_def cw_resume_def split: if_splits list.splits)

theorem cv_wait_broken_by_access_witness:
  "\<exists>s t. reach (cw_init :: unit cv_threads) (cw_step 3) s \<and> cw_step 3 (Cw_resume 0) s = Some t \<and>
         cw_fault t = Some (Undefined Empty_option_deref)"
proof -
  have "run_sat (cw_step 3) ([Cw_wait 0 1] @ replicate 7 (Cw_next 0) @ [Cw_notify 2 False] @ replicate 7 (Cw_next 2))
      (cw_init :: unit cv_threads) (\<lambda>s. run_sat (cw_step 3) [Cw_resume 0] s (\<lambda>_. True))"
    by code_simp
  then obtain s :: "unit cv_threads" where s: "reach cw_init (cw_step 3) s"
    and "run_sat (cw_step 3) [Cw_resume 0] s (\<lambda>_. True)" by (rule run_satE)
  then obtain t where t: "cw_step 3 (Cw_resume 0) s = Some t"
    by (auto simp: run_sat_def split: option.splits)
  from cv_wait_broken_by_access [OF s t] s t show ?thesis by blast
qed

end
