(* ===== verification/Progress_Interface.thy ===== *)
theory Progress_Interface imports Transition begin

text \<open>
  The interface of a part of a system that winds down: once the states satisfy \<open>dying\<close>, every
  step of one of its own threads (the labels of \<open>own\<close>) lowers \<open>rank\<close>, and as long as it has
  not finished one of its threads can step. Then its own runs are no longer than the rank,
  whatever the scheduler chooses, and one of them ends finished.
\<close>

locale winding_down =
  fixes step :: "'l \<Rightarrow> 's \<Rightarrow> 's option" and own :: "'l set" and dying :: "'s \<Rightarrow> bool"
    and rank :: "'s \<Rightarrow> nat" and finished :: "'s \<Rightarrow> bool"
  assumes own_keeps: "dying s \<Longrightarrow> l \<in> own \<Longrightarrow> step l s = Some t \<Longrightarrow> dying t"
    and own_lowers: "dying s \<Longrightarrow> l \<in> own \<Longrightarrow> step l s = Some t \<Longrightarrow> rank t < rank s"
    and own_enabled: "dying s \<Longrightarrow> \<not> finished s \<Longrightarrow> \<exists>l \<in> own. step l s \<noteq> None"
begin

lemma own_run_dying: "run step ls s = Some t \<Longrightarrow> dying s \<Longrightarrow> set ls \<subseteq> own \<Longrightarrow> dying t"
  by (induction ls arbitrary: s) (auto split: option.splits dest: own_keeps)

lemma own_run_bounded:
  "run step ls s = Some t \<Longrightarrow> dying s \<Longrightarrow> set ls \<subseteq> own \<Longrightarrow> length ls + rank t \<le> rank s"
proof (induction ls arbitrary: s)
  case (Cons l ls)
  then obtain u where u: "step l s = Some u" "run step ls u = Some t" by (auto split: option.splits)
  with Cons.prems own_keeps own_lowers have "dying u" "rank u < rank s" by auto
  with Cons.IH [OF u(2)] Cons.prems show ?case by auto
qed simp

text \<open>A run that cannot be continued has finished, so every maximal own run ends finished.\<close>

lemma own_run_stuck_finished:
  assumes "run step ls s = Some t" and "dying s" and "set ls \<subseteq> own"
    and "\<forall>l \<in> own. step l t = None"
  shows "finished t"
  using own_enabled [OF own_run_dying [OF assms(1-3)]] assms(4) by auto

lemma own_run_finishes:
  assumes "dying s"
  shows "\<exists>ls t. set ls \<subseteq> own \<and> length ls \<le> rank s \<and> run step ls s = Some t \<and> finished t"
proof -
  from assms have "\<exists>ls t. set ls \<subseteq> own \<and> run step ls s = Some t \<and> finished t"
  proof (induction "rank s" arbitrary: s rule: less_induct)
    case less
    show ?case
    proof (cases "finished s")
      case True
      then show ?thesis by (intro exI [of _ "[]"] exI [of _ s]) simp
    next
      case False
      with own_enabled [OF less.prems] obtain l u where l: "l \<in> own" "step l s = Some u" by auto
      with less.hyps [of u] own_keeps [OF less.prems l] own_lowers [OF less.prems l]
      obtain ls t where "set ls \<subseteq> own" "run step ls u = Some t" "finished t" by blast
      with l show ?thesis by (intro exI [of _ "l # ls"] exI [of _ t]) simp
    qed
  qed
  then show ?thesis using own_run_bounded [OF _ assms] by fastforce
qed

end

end
