(* ===== verification/Worker_Pool.thy ===== *)
theory Worker_Pool imports Progress_Interface begin

text \<open>
  What the two pools of the executor share. A pool has \<open>N\<close> threads, each at a position of its
  loop, one \<^verbatim>\<open>std::mutex\<close> and one \<^verbatim>\<open>std::condition_variable\<close>.
\<close>

section \<open>The condition variable\<close>

text \<open>
  Notifying the threads of \<open>ws\<close>: those that are blocked must lock the mutex again.
  \<open>may_notify\<close>: \<^verbatim>\<open>notify_one\<close> unblocks some blocked thread if there is one.
\<close>

definition wake :: "'p \<Rightarrow> 'p \<Rightarrow> nat set \<Rightarrow> (nat \<Rightarrow> 'p) \<Rightarrow> nat \<Rightarrow> 'p" where
  "wake blocked relock ws pc = (\<lambda>j. if j \<in> ws \<and> pc j = blocked then relock else pc j)"

definition may_notify :: "'p \<Rightarrow> nat \<Rightarrow> (nat \<Rightarrow> 'p) \<Rightarrow> nat option \<Rightarrow> bool" where
  "may_notify blocked N pc w =
     (case w of None \<Rightarrow> list_all (\<lambda>i. pc i \<noteq> blocked) [0..<N] | Some i \<Rightarrow> i < N \<and> pc i = blocked)"

lemma may_notify_cases:
  "may_notify blocked N pc w \<Longrightarrow>
     (w = None \<and> (\<forall>i < N. pc i \<noteq> blocked)) \<or> (\<exists>i < N. w = Some i \<and> pc i = blocked)"
  by (cases w) (auto simp: may_notify_def list_all_iff)

lemma wake_pred: "P relock = P blocked \<Longrightarrow> P (wake blocked relock ws pc j) = P (pc j)"
  by (simp add: wake_def)

section \<open>The mutex\<close>

text \<open>The mutex is held by the thread whose position says so, and by no other.\<close>

definition held_by :: "nat \<Rightarrow> ('p \<Rightarrow> bool) \<Rightarrow> nat option \<Rightarrow> (nat \<Rightarrow> 'p) \<Rightarrow> bool" where
  "held_by N H m pc \<longleftrightarrow> (\<forall>i. m = Some i \<longleftrightarrow> i < N \<and> H (pc i))"

lemma held_take: "held_by N H None pc \<Longrightarrow> i < N \<Longrightarrow> H x \<Longrightarrow> held_by N H (Some i) (pc(i := x))"
  by (auto simp: held_by_def)

lemma held_stay: "held_by N H m pc \<Longrightarrow> H x = H (pc i) \<Longrightarrow> held_by N H m (pc(i := x))"
  by (auto simp: held_by_def)

lemma held_drop: "held_by N H m pc \<Longrightarrow> i < N \<Longrightarrow> H (pc i) \<Longrightarrow> \<not> H x \<Longrightarrow> held_by N H None (pc(i := x))"
  unfolding held_by_def by (metis fun_upd_apply option.distinct(1) option.inject)

lemma held_wake: "held_by N H m pc \<Longrightarrow> H relock = H blocked \<Longrightarrow> held_by N H m (wake blocked relock ws pc)"
  by (simp add: held_by_def wake_def)

lemma held_SomeD: "held_by N H m pc \<Longrightarrow> m = Some i \<Longrightarrow> i < N \<and> H (pc i)"
  unfolding held_by_def by blast

lemma held_NoneD: "held_by N H None pc \<Longrightarrow> i < N \<Longrightarrow> \<not> H (pc i)"
  by (auto simp: held_by_def)

lemma held_unique: "held_by N H m pc \<Longrightarrow> i < N \<Longrightarrow> H (pc i) \<Longrightarrow> j < N \<Longrightarrow> H (pc j) \<Longrightarrow> i = j"
  unfolding held_by_def by (metis option.inject)

section \<open>Sums over the threads\<close>

text \<open>Notifying some of them moves them between two positions that count the same.\<close>

lemma sum_wake:
  assumes "f relock = f blocked"
  shows "(\<Sum>j<N. f (wake blocked relock ws pc j)) = (\<Sum>j<(N::nat). f (pc j))"
  by (rule sum.cong) (auto simp: wake_def assms)

text \<open>A thread that steps to a lower position lowers the sum of the positions.\<close>

lemma sum_lowers:
  fixes f :: "'p \<Rightarrow> nat"
  assumes "i < (N :: nat)" and "f x < f (pc i)"
  shows "(\<Sum>j<N. f ((pc(i := x)) j)) < (\<Sum>j<N. f (pc j))"
  using sum_upd [OF assms(1), of f pc x] assms(2) by simp

end
