(* ===== verification/Crasy_Result.thy ===== *)
theory Crasy_Result imports Prelude begin

text \<open>
  \<^verbatim>\<open>crasy::result\<close> (include/crasy/result.hpp), a \<^verbatim>\<open>std::variant\<close> of
  two holders tagged ok and err, with \<^verbatim>\<open>void\<close> as the unit type. The branches the
  source selects with \<^verbatim>\<open>if constexpr\<close> for \<^verbatim>\<open>void\<close> are then the
  same equation. Whether \<^verbatim>\<open>E\<close> derives from \<^verbatim>\<open>std::exception\<close> is known
  when the template is instantiated: \<open>as_exn\<close> is then the exception an error is thrown as,
  and \<open>None\<close> for every other \<^verbatim>\<open>E\<close>.
\<close>

section \<open>The model\<close>

datatype ('t, 'e) result = Ok_holder 't | Err_holder 'e

datatype 'a ok_args = Ok_args 'a
datatype 'a err_args = Err_args 'a

definition ok_index :: nat where "ok_index = 0"
definition err_index :: nat where "err_index = 1"

definition result_index :: "('t, 'e) result \<Rightarrow> nat" where
  "result_index r = (case r of Ok_holder _ \<Rightarrow> ok_index | Err_holder _ \<Rightarrow> err_index)"

definition ok :: "'c \<Rightarrow> 'c ok_args" where "ok args = Ok_args args"
definition err :: "'c \<Rightarrow> 'c err_args" where "err args = Err_args args"

text \<open>
  The converting constructors take the collected arguments out and delegate to the private ones,
  which build the held value from them.
\<close>

definition result_with_ok :: "('c \<Rightarrow> 't) \<Rightarrow> 'c \<Rightarrow> ('t, 'e) result" where
  "result_with_ok ctor args = Ok_holder (ctor args)"

definition result_with_err :: "('c \<Rightarrow> 'e) \<Rightarrow> 'c \<Rightarrow> ('t, 'e) result" where
  "result_with_err ctor args = Err_holder (ctor args)"

definition result_of_ok :: "('c \<Rightarrow> 't) \<Rightarrow> 'c ok_args \<Rightarrow> ('t, 'e) result" where
  "result_of_ok ctor a = (case a of Ok_args args \<Rightarrow> result_with_ok ctor args)"

definition result_of_err :: "('c \<Rightarrow> 'e) \<Rightarrow> 'c err_args \<Rightarrow> ('t, 'e) result" where
  "result_of_err ctor a = (case a of Err_args args \<Rightarrow> result_with_err ctor args)"

definition is_ok :: "('t, 'e) result \<Rightarrow> bool" where
  "is_ok r = (result_index r = ok_index)"

definition is_err :: "('t, 'e) result \<Rightarrow> bool" where
  "is_err r = (result_index r = err_index)"

text \<open>\<^verbatim>\<open>std::get\<close> throws \<^verbatim>\<open>bad_variant_access\<close> on the other alternative.\<close>

definition get_ok :: "('t, 'e) result \<Rightarrow> fault + 't" where
  "get_ok r = (case r of Ok_holder x \<Rightarrow> Inr x | Err_holder _ \<Rightarrow> Inl (Throw Bad_variant_access))"

definition get_err :: "('t, 'e) result \<Rightarrow> fault + 'e" where
  "get_err r = (case r of Ok_holder _ \<Rightarrow> Inl (Throw Bad_variant_access) | Err_holder e \<Rightarrow> Inr e)"

definition propagate :: "('t, 'e) result \<Rightarrow> fault + 'e err_args" where
  "propagate r = (case get_err r of Inl f \<Rightarrow> Inl f | Inr e \<Rightarrow> Inr (Err_args e))"

definition result_deref :: "('e \<Rightarrow> exn) option \<Rightarrow> ('t, 'e) result \<Rightarrow> fault + 't" where
  "result_deref as_exn r =
     (case as_exn of
        Some conv \<Rightarrow>
          if is_err r
          then (case get_err r of Inl f \<Rightarrow> Inl f | Inr e \<Rightarrow> Inl (Throw (conv e)))
          else get_ok r
      | None \<Rightarrow> get_ok r)"

definition result_map :: "('t \<Rightarrow> ('u, 'w) comp) \<Rightarrow> ('t, 'e) result \<Rightarrow> (('u, 'e) result, 'w) comp" where
  "result_map f r =
     (case r of
        Ok_holder x \<Rightarrow> andthen (f x) (\<lambda>y. ret (result_of_ok id (ok y)))
      | Err_holder e \<Rightarrow> ret (result_of_err id (err e)))"

definition result_map_err :: "('e \<Rightarrow> ('d, 'w) comp) \<Rightarrow> ('t, 'e) result \<Rightarrow> (('t, 'd) result, 'w) comp" where
  "result_map_err f r =
     (case r of
        Err_holder e \<Rightarrow> andthen (f e) (\<lambda>d. ret (result_of_err id (err d)))
      | Ok_holder x \<Rightarrow> ret (result_of_ok id (ok x)))"

section \<open>Properties\<close>

lemmas result_defs = ok_def err_def result_with_ok_def result_with_err_def result_of_ok_def result_of_err_def is_ok_def is_err_def
  result_index_def ok_index_def err_index_def get_ok_def get_err_def

lemma result_map_simps [simp]:
  "result_map f (Ok_holder x) = andthen (f x) (\<lambda>y. ret (Ok_holder y))"
  "result_map f (Err_holder e) = ret (Err_holder e)"
  "result_map_err g (Ok_holder x) = ret (Ok_holder x)"
  "result_map_err g (Err_holder e) = andthen (g e) (\<lambda>d. ret (Err_holder d))"
  by (simp_all add: result_map_def result_map_err_def result_defs)

text \<open>Mapping twice is mapping the sequence, and the two sides are independent, effects included.\<close>

lemma result_maps:
  "andthen (result_map f r) (result_map g) = result_map (\<lambda>x. andthen (f x) g) r"
  "andthen (result_map_err p r) (result_map_err q) = result_map_err (\<lambda>e. andthen (p e) q) r"
  "andthen (result_map f r) (result_map_err p) = andthen (result_map_err p r) (result_map f)"
  "result_map ret r = ret r" "result_map_err ret r = ret r"
  by (cases r; simp add: andthen_assoc)+

text \<open>
  C35: a result is a sum: whatever the held value is constructed from, \<open>ok()\<close> of a result made from an ok gives it back and \<open>err()\<close>
  throws \<^verbatim>\<open>bad_variant_access\<close>, and of a result made from an err the other way round; there are no other
  results, so \<open>ok()\<close> gives a value just on the result that holds it; \<^verbatim>\<open>operator*\<close> gives the
  value, and on an error throws the error itself when it is an exception; \<open>propagate\<close> hands
  the same error to a result of another ok type and throws on an ok; and \<open>map\<close> and \<open>map_err\<close> apply the function to what is held
  on their side and leave the other side alone, for functions with effects and
  failures, so that mapping twice is mapping the sequence.
\<close>

theorem result_is_sum:
  "get_ok (result_of_ok ctor (ok a) :: ('t, 'e) result) = Inr (ctor a) \<and>
   get_err (result_of_ok ctor (ok a) :: ('t, 'e) result) = Inl (Throw Bad_variant_access) \<and>
   get_err (result_of_err ctor' (err b) :: ('t, 'e) result) = Inr (ctor' b) \<and>
   get_ok (result_of_err ctor' (err b) :: ('t, 'e) result) = Inl (Throw Bad_variant_access) \<and>
   (get_ok r = Inr x \<longleftrightarrow> r = result_of_ok id (ok x)) \<and> (get_err r = Inr e \<longleftrightarrow> r = result_of_err id (err e)) \<and>
   (is_ok r \<longleftrightarrow> (\<exists>x. r = result_of_ok id (ok x))) \<and> (is_err r \<longleftrightarrow> (\<exists>e. r = result_of_err id (err e))) \<and>
   is_err r = (\<not> is_ok r) \<and>
   result_deref (Some conv) r = (case get_err r of Inr e \<Rightarrow> Inl (Throw (conv e)) | Inl _ \<Rightarrow> get_ok r) \<and>
   result_deref None r = get_ok r \<and>
   (propagate r = Inr c \<longleftrightarrow> (\<exists>e. r = result_of_err id (err e) \<and> (result_of_err id c :: ('u, 'e) result) = result_of_err id (err e))) \<and>
   (is_ok r \<longleftrightarrow> propagate r = Inl (Throw Bad_variant_access)) \<and>
   result_map f (result_of_ok id (ok x)) = andthen (f x) (\<lambda>y. ret (result_of_ok id (ok y) :: ('u, 'e) result)) \<and>
   result_map f (result_of_err id (err e)) = ret (result_of_err id (err e)) \<and>
   result_map_err p (result_of_err id (err e)) = andthen (p e) (\<lambda>d. ret (result_of_err id (err d) :: ('t, 'd) result)) \<and>
   result_map_err p (result_of_ok id (ok x)) = ret (result_of_ok id (ok x)) \<and>
   andthen (result_map f r) (result_map g) = result_map (\<lambda>x. andthen (f x) g) r \<and>
   andthen (result_map_err p r) (result_map_err q) = result_map_err (\<lambda>e. andthen (p e) q) r \<and>
   andthen (result_map f r) (result_map_err p) = andthen (result_map_err p r) (result_map f)"
  unfolding result_maps
  by (cases r; cases c) (auto simp: result_deref_def propagate_def result_defs)

end
