(* ===== verification/Executor.thy ===== *)
theory Executor imports Lfqueue Worker_Pool Crasy_Result "HOL-Library.Multiset" begin

text \<open>
  The executor (include/crasy/executor.hpp, src/executor.cpp) and \<open>available_cpu_cores\<close>
  (src/utils.cpp): the thread-local executor and its guard, construction, the pool of blocking
  workers with its queue, counter, mutex and condition variable. Executors are numbered; what
  \<^verbatim>\<open>sysconf\<close> answers is a parameter.
\<close>

section \<open>The executor of a thread\<close>

text \<open>
  \<open>g_exec\<close> is the thread's executor; \<open>root_\<close> has no initialiser, so the nested case leaves
  it indeterminate, \<open>None\<close>.
\<close>

type_synonym g_exec = "nat option"

definition exec_guard_ctor :: "nat \<Rightarrow> g_exec \<Rightarrow> (fault + bool option) \<times> g_exec" where
  "exec_guard_ctor exec g =
     (case g of
        None \<Rightarrow> (Inr (Some True), Some exec)
      | Some e \<Rightarrow> if e \<noteq> exec
                  then (Inl (Throw (Runtime_error ''attempt to nest executors'')), g)
                  else (Inr None, g))"

definition exec_guard_destroy :: "bool option \<Rightarrow> g_exec \<Rightarrow> (fault + unit) \<times> g_exec" where
  "exec_guard_destroy root g =
     (case root of
        None \<Rightarrow> (Inl (Undefined Indeterminate_read), g)
      | Some r \<Rightarrow> (Inr (), if r then None else g))"

definition in_executor_context :: "g_exec \<Rightarrow> bool" where
  "in_executor_context g = (g \<noteq> None)"

text \<open>The three entry points that need the thread's executor; the result is that executor.\<close>

definition context_of :: "g_exec \<Rightarrow> fault + nat" where
  "context_of g =
     (case g of
        None \<Rightarrow> Inl (Throw (Runtime_error ''attempt to access async I/O context outside of executor context''))
      | Some e \<Rightarrow> Inr e)"

definition run_blocking_of :: "g_exec \<Rightarrow> fault + nat" where
  "run_blocking_of g =
     (case g of
        None \<Rightarrow> Inl (Throw (Runtime_error ''attempt to spawn blocking task outside of executor context''))
      | Some e \<Rightarrow> Inr e)"

section \<open>Construction\<close>

text \<open>\<open>sysconf_ret\<close> and \<open>errno\<close> are what \<^verbatim>\<open>sysconf\<close> returned and left.\<close>

definition available_cpu_cores :: "int \<Rightarrow> int \<Rightarrow> (nat, int) result" where
  "available_cpu_cores sysconf_ret errno =
     (if sysconf_ret < 0 then result_of_err id (err errno)
      else result_of_ok id (ok (nat sysconf_ret)))"

record worker_counts =
  core_workers :: nat
  blocking_workers :: nat

definition executor_ctor :: "nat \<Rightarrow> nat \<Rightarrow> fault + worker_counts" where
  "executor_ctor core_threads blocking_threads =
     (if core_threads = 0
      then Inl (Throw (Invalid_argument ''executor must support at least one core thread''))
      else if blocking_threads = 0
      then Inl (Throw (Invalid_argument ''executor must support at least one blocking thread''))
      else Inr \<lparr>core_workers = core_threads, blocking_workers = blocking_threads\<rparr>)"

definition executor_ctor_one :: "nat \<Rightarrow> fault + worker_counts" where
  "executor_ctor_one core_threads = executor_ctor core_threads core_threads"

definition executor_default :: "int \<Rightarrow> int \<Rightarrow> fault + worker_counts" where
  "executor_default sysconf_ret errno =
     (case result_deref (Some System_error) (available_cpu_cores sysconf_ret errno) of
        Inl f \<Rightarrow> Inl f
      | Inr n \<Rightarrow> executor_ctor_one n)"

section \<open>The blocking workers\<close>

text \<open>
  Where a worker is in \<open>blocking_work\<close>, or has left it. \<open>B_tested\<close>: it has found the wait
  condition false and holds the mutex until it blocks. The runs of this theory are those in which no two operations on
  the queue of tasks overlap, so that a push or a pop is one step; in \<open>Pool_Accesses\<close> they are
  taken apart, and all other steps are these.
\<close>

type_synonym task = nat

datatype bw_pc =
    B_pop | B_sub task | B_run task | B_lock | B_test | B_tested | B_blocked | B_exited

record pool =
  po_tasks :: "task lfqueue"       \<comment> \<open>\<open>blocking_tasks_\<close>\<close>
  po_waiting :: "64 word"          \<comment> \<open>\<open>blocking_waiting_\<close>\<close>
  po_mut :: "nat option"           \<comment> \<open>\<open>blocking_mut_\<close>: the worker holding it\<close>
  po_done :: bool                  \<comment> \<open>\<open>blocking_done_\<close>\<close>
  po_pc :: "nat \<Rightarrow> bw_pc"
  po_uncounted :: nat              \<comment> \<open>callers of \<open>run_blocking\<close> that have pushed only\<close>
  po_unnotified :: nat             \<comment> \<open>callers that have counted and not yet notified\<close>
  po_pushed :: "task list"         \<comment> \<open>history\<close>
  po_taken :: "task list"          \<comment> \<open>history\<close>
  po_ran :: "task list"            \<comment> \<open>history\<close>

datatype pool_label =
    P_push task | P_count | P_notify "nat option"
  | W_pop nat | W_sub nat | W_run nat | W_lock nat | W_test nat | W_block nat | W_spurious nat
  | D_done | D_notify_all

definition pool_init :: pool where
  "pool_init = \<lparr>po_tasks = lfq_empty, po_waiting = 0, po_mut = None, po_done = False,
     po_pc = (\<lambda>_. B_pop), po_uncounted = 0, po_unnotified = 0,
     po_pushed = [], po_taken = [], po_ran = []\<rparr>"

text \<open>\<open>run_blocking\<close>: push, count, then \<open>try_lock\<close> (which never waits) and notify one.\<close>

definition run_blocking_push :: "task \<Rightarrow> pool \<Rightarrow> pool" where
  "run_blocking_push t s =
     s\<lparr>po_tasks := push t (po_tasks s), po_uncounted := Suc (po_uncounted s),
       po_pushed := po_pushed s @ [t]\<rparr>"

definition run_blocking_count :: "pool \<Rightarrow> pool" where
  "run_blocking_count s =
     s\<lparr>po_waiting := po_waiting s + 1, po_uncounted := po_uncounted s - 1,
       po_unnotified := Suc (po_unnotified s)\<rparr>"

definition run_blocking_notify :: "nat option \<Rightarrow> pool \<Rightarrow> pool" where
  "run_blocking_notify w s =
     s\<lparr>po_unnotified := po_unnotified s - 1, po_pc := wake B_blocked B_lock (set_option w) (po_pc s)\<rparr>"

definition worker_pop :: "nat \<Rightarrow> pool \<Rightarrow> pool" where
  "worker_pop i s =
     (let (task, q) = pop (po_tasks s)
      in case task of
           Some t \<Rightarrow> s\<lparr>po_tasks := q, po_pc := (po_pc s)(i := B_sub t), po_taken := po_taken s @ [t]\<rparr>
         | None \<Rightarrow> s\<lparr>po_tasks := q, po_pc := (po_pc s)(i := B_lock)\<rparr>)"

definition worker_sub :: "nat \<Rightarrow> task \<Rightarrow> pool \<Rightarrow> pool" where
  "worker_sub i t s = s\<lparr>po_waiting := po_waiting s - 1, po_pc := (po_pc s)(i := B_run t)\<rparr>"

definition worker_run :: "nat \<Rightarrow> task \<Rightarrow> pool \<Rightarrow> pool" where
  "worker_run i t s = s\<lparr>po_ran := po_ran s @ [t], po_pc := (po_pc s)(i := B_pop)\<rparr>"

text \<open>
  The wait loop under the mutex: with \<open>blocking_done_\<close> the worker leaves the loop, with
  waiting tasks it goes round again, else it blocks.
\<close>

definition worker_test :: "nat \<Rightarrow> pool \<Rightarrow> pool" where
  "worker_test i s =
     (if po_done s then s\<lparr>po_mut := None, po_pc := (po_pc s)(i := B_exited)\<rparr>
      else if po_waiting s > 0 then s\<lparr>po_mut := None, po_pc := (po_pc s)(i := B_pop)\<rparr>
      else s\<lparr>po_pc := (po_pc s)(i := B_tested)\<rparr>)"

text \<open>The destructor: set the flag under the mutex, wake all workers, join them.\<close>

definition blocking_shutdown :: "pool \<Rightarrow> pool" where
  "blocking_shutdown s = s\<lparr>po_done := True\<rparr>"

definition blocking_notify_all :: "nat \<Rightarrow> pool \<Rightarrow> pool" where
  "blocking_notify_all N s = s\<lparr>po_pc := wake B_blocked B_lock {..<N} (po_pc s)\<rparr>"

fun pool_step :: "nat \<Rightarrow> pool_label \<Rightarrow> pool \<Rightarrow> pool option" where
  "pool_step N (P_push t) s = Some (run_blocking_push t s)"
| "pool_step N P_count s = (if po_uncounted s > 0 then Some (run_blocking_count s) else None)"
| "pool_step N (P_notify w) s =
     (if po_unnotified s > 0 \<and> may_notify B_blocked N (po_pc s) w
      then Some (run_blocking_notify w s) else None)"
| "pool_step N (W_pop i) s =
     (if i < N \<and> po_pc s i = B_pop then Some (worker_pop i s) else None)"
| "pool_step N (W_sub i) s =
     (case po_pc s i of B_sub t \<Rightarrow> if i < N then Some (worker_sub i t s) else None | _ \<Rightarrow> None)"
| "pool_step N (W_run i) s =
     (case po_pc s i of B_run t \<Rightarrow> if i < N then Some (worker_run i t s) else None | _ \<Rightarrow> None)"
| "pool_step N (W_lock i) s =
     (if i < N \<and> po_pc s i = B_lock \<and> po_mut s = None
      then Some (s\<lparr>po_mut := Some i, po_pc := (po_pc s)(i := B_test)\<rparr>) else None)"
| "pool_step N (W_test i) s =
     (if i < N \<and> po_pc s i = B_test then Some (worker_test i s) else None)"
| "pool_step N (W_block i) s =
     (if i < N \<and> po_pc s i = B_tested
      then Some (s\<lparr>po_mut := None, po_pc := (po_pc s)(i := B_blocked)\<rparr>) else None)"
| "pool_step N (W_spurious i) s =
     (if i < N \<and> po_pc s i = B_blocked then Some (s\<lparr>po_pc := (po_pc s)(i := B_lock)\<rparr>) else None)"
| "pool_step N D_done s = (if po_mut s = None then Some (blocking_shutdown s) else None)"
| "pool_step N D_notify_all s = (if po_done s then Some (blocking_notify_all N s) else None)"

fun in_hand :: "bw_pc \<Rightarrow> task multiset" where
  "in_hand (B_sub t) = {#t#}"
| "in_hand (B_run t) = {#t#}"
| "in_hand _ = {#}"

fun unsubtracted :: "bw_pc \<Rightarrow> nat" where
  "unsubtracted (B_sub t) = 1"
| "unsubtracted _ = 0"

section \<open>What the pool conserves\<close>

text \<open>The steps that push or pop; no other one touches the queue or takes a task.\<close>

fun on_queue :: "pool_label \<Rightarrow> bool" where
  "on_queue (P_push t) = True"
| "on_queue (W_pop i) = True"
| "on_queue l = False"

text \<open>The tasks that were run or are in a worker's hands, and what the counter owes.\<close>

definition hands :: "nat \<Rightarrow> pool \<Rightarrow> task multiset" where
  "hands N p = mset (po_ran p) + (\<Sum>i<N. in_hand (po_pc p i))"

definition owed :: "nat \<Rightarrow> pool \<Rightarrow> 64 word" where
  "owed N p = po_waiting p + of_nat (po_uncounted p) - of_nat (\<Sum>i<N. unsubtracted (po_pc p i))"

definition same_books :: "nat \<Rightarrow> pool \<Rightarrow> pool \<Rightarrow> bool" where
  "same_books N p p' \<longleftrightarrow> hands N p' = hands N p \<and> owed N p' = owed N p \<and>
     po_taken p' = po_taken p \<and> po_pushed p' = po_pushed p \<and> po_tasks p' = po_tasks p"

lemmas books_defs = same_books_def hands_def owed_def

lemma books_move:
  assumes "i < N" and "in_hand x = in_hand (po_pc p i)" and "unsubtracted x = unsubtracted (po_pc p i)"
    and "p' = p\<lparr>po_mut := m, po_done := d, po_pc := (po_pc p)(i := x)\<rparr>"
  shows "same_books N p p'"
  using sum_upd [OF assms(1), of in_hand "po_pc p" x] sum_upd [OF assms(1), of unsubtracted "po_pc p" x] assms(2-4)
  by (simp add: books_defs del: fun_upd_apply)

text \<open>A worker between taking its task and having run it.\<close>

lemma books_task:
  assumes i: "i < N"
  shows "po_pc p i = B_sub x \<Longrightarrow> same_books N p (worker_sub i x p)"
    and "po_pc p i = B_run x \<Longrightarrow> same_books N p (worker_run i x p)"
proof -
  note sums = sum_upd [OF i, of in_hand "po_pc p"] sum_upd [OF i, of unsubtracted "po_pc p"]
  {
    assume "po_pc p i = B_sub x"
    with sums [of "B_run x"] have "(\<Sum>j<N. in_hand (((po_pc p)(i := B_run x)) j)) = (\<Sum>j<N. in_hand (po_pc p j))"
      "(\<Sum>j<N. unsubtracted (po_pc p j)) = Suc (\<Sum>j<N. unsubtracted (((po_pc p)(i := B_run x)) j))"
      by simp_all
    then show "same_books N p (worker_sub i x p)" unfolding worker_sub_def books_defs by simp
  next
    assume "po_pc p i = B_run x"
    with sums [of B_pop] have "add_mset x (\<Sum>j<N. in_hand (((po_pc p)(i := B_pop)) j)) = (\<Sum>j<N. in_hand (po_pc p j))"
      "(\<Sum>j<N. unsubtracted (((po_pc p)(i := B_pop)) j)) = (\<Sum>j<N. unsubtracted (po_pc p j))"
      by simp_all
    then show "same_books N p (worker_run i x p)" unfolding worker_run_def books_defs by simp
  }
qed

lemma books_test:
  assumes "i < N" and "po_pc p i = B_test"
  shows "same_books N p (worker_test i p)"
proof -
  define x where "x = (if po_done p then B_exited else if po_waiting p > 0 then B_pop else B_tested)"
  have "worker_test i p =
      p\<lparr>po_mut := if x = B_tested then po_mut p else None, po_done := po_done p, po_pc := (po_pc p)(i := x)\<rparr>"
    by (simp add: worker_test_def x_def)
  moreover have "in_hand x = in_hand (po_pc p i)" "unsubtracted x = unsubtracted (po_pc p i)"
    by (simp_all add: x_def assms(2))
  ultimately show ?thesis using books_move [OF assms(1)] by blast
qed

lemma books_step:
  assumes step: "pool_step N l p = Some p'" and l: "\<not> on_queue l"
  shows "same_books N p p'"
proof (cases l)
  case P_count
  with step have "p' = run_blocking_count p" "po_uncounted p > 0" by (auto split: if_splits)
  moreover from this(2) obtain k where "po_uncounted p = Suc k" by (cases "po_uncounted p") auto
  ultimately show ?thesis by (simp add: books_defs run_blocking_count_def algebra_simps)
next
  case (P_notify w)
  with step show ?thesis by (auto simp: books_defs run_blocking_notify_def sum_wake simp del: of_nat_sum split: if_splits)
next
  case (W_sub i)
  with step show ?thesis by (auto split: bw_pc.splits if_splits intro: books_task)
next
  case (W_run i)
  with step show ?thesis by (auto split: bw_pc.splits if_splits intro: books_task)
next
  case (W_lock i)
  with step show ?thesis
    by (intro books_move [where i = i and x = B_test and m = "Some i" and d = "po_done p"]) (auto split: if_splits)
next
  case (W_test i)
  with step show ?thesis by (auto split: if_splits intro: books_test)
next
  case (W_block i)
  with step show ?thesis
    by (intro books_move [where i = i and x = B_blocked and m = None and d = "po_done p"]) (auto split: if_splits)
next
  case (W_spurious i)
  with step show ?thesis
    by (intro books_move [where i = i and x = B_lock and m = "po_mut p" and d = "po_done p"]) (auto split: if_splits)
next
  case D_done
  with step show ?thesis by (auto simp: books_defs blocking_shutdown_def split: if_splits)
next
  case D_notify_all
  with step show ?thesis by (auto simp: books_defs blocking_notify_all_def sum_wake simp del: of_nat_sum split: if_splits)
qed (use l in simp_all)

definition pool_inv :: "nat \<Rightarrow> pool \<Rightarrow> bool" where
  "pool_inv N s \<longleftrightarrow>
     lfq_ok (po_tasks s) \<and> po_pushed s = po_taken s @ vals (cells (po_tasks s)) \<and>
     mset (po_taken s) = mset (po_ran s) + (\<Sum>i<N. in_hand (po_pc s i)) \<and>
     po_waiting s + of_nat (po_uncounted s) =
       of_nat (length (vals (cells (po_tasks s)))) + of_nat (\<Sum>i<N. unsubtracted (po_pc s i))"

lemma pool_inv_upd:
  assumes "pool_inv N s" and "i < N" and "in_hand x = in_hand (po_pc s i)"
    and "unsubtracted x = unsubtracted (po_pc s i)"
  shows "(\<Sum>j<N. in_hand (((po_pc s)(i := x)) j)) = (\<Sum>j<N. in_hand (po_pc s j))"
    and "(\<Sum>j<N. unsubtracted (((po_pc s)(i := x)) j)) = (\<Sum>j<N. unsubtracted (po_pc s j))"
  using sum_upd [OF assms(2), of in_hand "po_pc s" x] sum_upd [OF assms(2), of unsubtracted "po_pc s" x]
    assms(3,4) by simp_all

lemma pool_inv_init: "pool_inv N pool_init"
  by (simp add: pool_inv_def pool_init_def lq.laws)

lemma pool_inv_pop:
  assumes inv: "pool_inv N s" and i: "i < N" and pc: "po_pc s i = B_pop"
  shows "pool_inv N (worker_pop i s)"
proof -
  from inv have ok: "lfq_ok (po_tasks s)" by (simp add: pool_inv_def)
  obtain r q where pop: "pop (po_tasks s) = (r, q)" by (cases "pop (po_tasks s)")
  show ?thesis
  proof (cases r)
    case None
    from lq.pop_NoneD [OF ok] pop None have q: "vals (cells q) = vals (cells (po_tasks s))" "lfq_ok q"
      by auto
    have u: "worker_pop i s = s\<lparr>po_tasks := q, po_pc := (po_pc s)(i := B_lock)\<rparr>"
      using pop None by (simp add: worker_pop_def)
    from inv q pool_inv_upd [OF inv i, of B_lock] pc show ?thesis unfolding u pool_inv_def by simp
  next
    case (Some t)
    from lq.pop_SomeD [OF ok] pop Some have q: "vals (cells (po_tasks s)) = t # vals (cells q)" "lfq_ok q"
      by auto
    have u: "worker_pop i s = s\<lparr>po_tasks := q, po_pc := (po_pc s)(i := B_sub t), po_taken := po_taken s @ [t]\<rparr>"
      using pop Some by (simp add: worker_pop_def)
    from sum_upd [OF i, of in_hand "po_pc s" "B_sub t"] sum_upd [OF i, of unsubtracted "po_pc s" "B_sub t"] pc
    have "(\<Sum>j<N. in_hand (((po_pc s)(i := B_sub t)) j)) = add_mset t (\<Sum>j<N. in_hand (po_pc s j))"
      "(\<Sum>j<N. unsubtracted (((po_pc s)(i := B_sub t)) j)) = Suc (\<Sum>j<N. unsubtracted (po_pc s j))"
      by simp_all
    with inv q show ?thesis unfolding u pool_inv_def by simp
  qed
qed

lemma pool_inv_books:
  assumes "pool_inv N s" and "same_books N s t"
  shows "pool_inv N t"
proof -
  have "po_waiting p + of_nat (po_uncounted p) = x + of_nat (\<Sum>i<N. unsubtracted (po_pc p i)) \<longleftrightarrow> owed N p = x" for p x
    by (auto simp: owed_def algebra_simps)
  with assms show ?thesis by (simp add: pool_inv_def same_books_def hands_def)
qed

lemma pool_inv_step:
  assumes inv: "pool_inv N s" and step: "pool_step N l s = Some t"
  shows "pool_inv N t"
proof (cases "on_queue l")
  case True
  then show ?thesis
  proof (cases l)
    case (P_push x)
    with step inv show ?thesis by (auto simp: pool_inv_def run_blocking_push_def lq.laws algebra_simps)
  next
    case (W_pop i)
    with step pool_inv_pop [OF inv] show ?thesis by (auto split: if_splits)
  qed simp_all
next
  case False
  with pool_inv_books [OF inv] books_step [OF step] show ?thesis by blast
qed

abbreviation pool_reach :: "nat \<Rightarrow> pool \<Rightarrow> bool" where
  "pool_reach N \<equiv> reach pool_init (pool_step N)"

lemma pool_reach_inv: "pool_reach N s \<Longrightarrow> pool_inv N s"
  by (erule reach_invariant) (auto intro: pool_inv_init pool_inv_step)

section \<open>Properties of the blocking workers\<close>

text \<open>
  Every blocking task is run at most once and none disappears, in the runs of
  callers, workers and shutdown in which no two operations on the queue overlap: the tasks pushed are, in order, those taken by workers and
  those still queued, and the tasks taken are those that ran and those a worker holds.
\<close>

theorem blocking_tasks_run_once:
  assumes "pool_reach N s"
  shows "po_pushed s = po_taken s @ vals (cells (po_tasks s)) \<and>
         mset (po_taken s) = mset (po_ran s) + (\<Sum>i<N. in_hand (po_pc s i))"
  using pool_reach_inv [OF assms] by (simp add: pool_inv_def)

theorem blocking_tasks_run_once_witness:
  "\<exists>s. pool_reach 2 s \<and> po_ran s = [8] \<and> po_pushed s = [7, 8] \<and> vals (cells (po_tasks s)) = [] \<and>
       (\<Sum>i<2. in_hand (po_pc s i)) = {#7#}"
proof -
  have "run_sat (pool_step 2) [P_push 7, P_push 8, W_pop 0, W_pop 1, W_sub 1, W_run 1] pool_init
      (\<lambda>s. po_ran s = [8] \<and> po_pushed s = [7, 8] \<and> po_taken s = [7, 8])" by code_simp
  then obtain s where r: "pool_reach 2 s" and s: "po_ran s = [8]" "po_pushed s = [7, 8]" "po_taken s = [7, 8]"
    by (rule run_satE) auto
  from blocking_tasks_run_once [OF r] s have "vals (cells (po_tasks s)) = []"
    and "{#8#} + (\<Sum>i<2. in_hand (po_pc s i)) = {#8#} + {#7#}" by (auto simp: add_mset_commute)
  with r s show ?thesis by (metis add_left_cancel)
qed

text \<open>
  The counter of waiting tasks is exact modulo \<open>2 ^ 64\<close>: with the calls that have pushed
  and not yet counted it is the number of queued tasks and of tasks taken and not yet
  subtracted. A worker can subtract before the caller has added, and the counter is then
  \<open>2 ^ 64 - 1\<close>.
\<close>

theorem blocking_counter_exact:
  assumes "pool_reach N s"
  shows "po_waiting s + of_nat (po_uncounted s) =
           of_nat (length (vals (cells (po_tasks s)))) + of_nat (\<Sum>i<N. unsubtracted (po_pc s i))"
  using pool_reach_inv [OF assms] by (simp add: pool_inv_def)

theorem blocking_counter_exact_witness:
  "\<exists>s. pool_reach 1 s \<and> po_waiting s = - 1 \<and> po_uncounted s = 1 \<and>
       po_waiting s + of_nat (po_uncounted s) = of_nat (length (vals (cells (po_tasks s))))"
proof -
  have "run_sat (pool_step 1) [P_push 7, W_pop 0, W_sub 0] pool_init
      (\<lambda>s. po_waiting s = - 1 \<and> po_uncounted s = 1 \<and> po_pc s 0 = B_run 7)" by code_simp
  then obtain s where r: "pool_reach 1 s" and s: "po_waiting s = - 1" "po_uncounted s = 1" "po_pc s 0 = B_run 7"
    by (rule run_satE) auto
  from blocking_counter_exact [OF r] r s show ?thesis by auto
qed

text \<open>
  With one blocking worker a task can be left waiting for ever: a caller whose
  \<open>try_lock\<close> fails between the worker's test of the counter and its blocking does not wait,
  and its notification finds nobody. A state is reachable where a counted task is queued, the
  worker is blocked, and no call of \<open>run_blocking\<close> is under way.
\<close>

theorem blocking_lost_notification:
  "\<exists>s. pool_reach 1 s \<and> vals (cells (po_tasks s)) = [7] \<and> po_waiting s = 1 \<and> \<not> po_done s \<and>
       po_pc s 0 = B_blocked \<and> po_uncounted s = 0 \<and> po_unnotified s = 0 \<and> po_mut s = None"
proof -
  let ?P = "\<lambda>s. vals (cells (po_tasks s)) = [7] \<and> po_waiting s = 1 \<and> \<not> po_done s \<and>
      po_pc s 0 = B_blocked \<and> po_uncounted s = 0 \<and> po_unnotified s = 0 \<and> po_mut s = None"
  have "run_sat (pool_step 1)
      [W_pop 0, W_lock 0, W_test 0, P_push 7, P_count, P_notify None, W_block 0] pool_init ?P"
    by code_simp
  then obtain s where "pool_reach 1 s" and "?P s" by (rule run_satE)
  then show ?thesis by blast
qed

text \<open>
  Shutdown drops tasks: a worker that finds the emptied cell of the queue instead of the
  task behind it goes to wait, sees \<open>blocking_done_\<close> and leaves. A state is reachable where
  a task was pushed and counted before shutdown began, every worker has left, and the task is
  still queued.
\<close>

theorem blocking_shutdown_drops_task:
  "\<exists>s. pool_reach 1 s \<and> vals (cells (po_tasks s)) = [8] \<and> po_pushed s = [7, 8] \<and> po_ran s = [7] \<and>
       po_pc s 0 = B_exited \<and> po_uncounted s = 0"
proof -
  let ?P = "\<lambda>s. vals (cells (po_tasks s)) = [8] \<and> po_pushed s = [7, 8] \<and> po_ran s = [7] \<and>
      po_pc s 0 = B_exited \<and> po_uncounted s = 0"
  have "run_sat (pool_step 1)
      [P_push 7, P_count, W_pop 0, W_sub 0, W_run 0, P_push 8, P_count, D_done, W_pop 0, W_lock 0, W_test 0]
      pool_init ?P"
    by code_simp
  then obtain s where "pool_reach 1 s" and "?P s" by (rule run_satE)
  then show ?thesis by blast
qed

section \<open>Properties of the executor\<close>

text \<open>
  Construction: an executor has at least one core and one blocking worker or construction
  throws; the default constructor uses the number of processors for both, and throws the
  system error when it cannot be found out.
\<close>

theorem executor_construction:
  "executor_ctor c b = (if c = 0 \<or> b = 0
      then Inl (Throw (Invalid_argument (if c = 0 then ''executor must support at least one core thread''
                                         else ''executor must support at least one blocking thread'')))
      else Inr \<lparr>core_workers = c, blocking_workers = b\<rparr>) \<and>
   executor_default n errno =
     (if n < 0 then Inl (Throw (System_error errno)) else executor_ctor (nat n) (nat n))"
  by (simp add: executor_ctor_def executor_default_def executor_ctor_one_def available_cpu_cores_def
      result_deref_def result_defs)

text \<open>
  The thread's executor: the guard of a worker thread sets it and its destructor clears it;
  entering another executor throws; entering the same one again leaves \<open>root_\<close> without a
  value, which its destructor reads; and outside every executor each entry point throws.
\<close>

theorem executor_guard_nesting:
  "exec_guard_ctor e None = (Inr (Some True), Some e) \<and>
   exec_guard_destroy (Some True) (Some e) = (Inr (), None) \<and>
   (\<exists>r. exec_guard_ctor e (Some d) = (r, Some d) \<and>
        (if d = e then (\<exists>root. r = Inr root \<and> fst (exec_guard_destroy root (Some d)) = Inl (Undefined Indeterminate_read))
         else r = Inl (Throw (Runtime_error ''attempt to nest executors'')))) \<and>
   (in_executor_context g \<longleftrightarrow> isl (context_of g) = False \<and> isl (run_blocking_of g) = False)"
  by (auto simp: exec_guard_ctor_def exec_guard_destroy_def in_executor_context_def context_of_def
      run_blocking_of_def split: option.splits)

end
