(* ===== verification/Pool_Accesses.thy ===== *)
theory Pool_Accesses imports Executor Queue_Accesses begin

text \<open>
  The blocking workers (src/executor.cpp) with the queue's own atomic accesses: where \<open>Executor\<close> takes a push
  or a pop of \<open>blocking_tasks_\<close> as one step, here any number of callers push and any number of workers
  pop at once, access by access. All else is a step of \<open>pool_step\<close>. The queue is used with several threads
  on each side, which it is not safe for when their pushes or their pops overlap; what holds when they do not, and what holds
  in any case, is stated here.
\<close>

section \<open>Callers and workers\<close>

text \<open>
  The workers are the threads below \<open>N\<close>, the callers those from \<open>N\<close> to \<open>n\<close>. The queue of the pool record is not
  used; a worker in a pop is at \<open>B_pop\<close>.
\<close>

record pool_threads =
  pa_q :: "task lfq_sys"               \<comment> \<open>\<open>blocking_tasks_\<close>\<close>
  pa_pool :: pool
  pa_calling :: "nat \<Rightarrow> bool"          \<comment> \<open>callers in the push\<close>

definition pool_threads_init :: pool_threads where
  "pool_threads_init = \<lparr>pa_q = lfq_sys_init (po_tasks pool_init), pa_pool = pool_init, pa_calling = (\<lambda>_. False)\<rparr>"

text \<open>What is left of \<open>run_blocking_push\<close> and of \<open>worker_pop\<close> once the queue is done with.\<close>

definition push_called :: "task \<Rightarrow> pool \<Rightarrow> pool" where
  "push_called t s = s\<lparr>po_pushed := po_pushed s @ [t]\<rparr>"

definition push_returned :: "pool \<Rightarrow> pool" where
  "push_returned s = s\<lparr>po_uncounted := Suc (po_uncounted s)\<rparr>"

definition worker_got :: "nat \<Rightarrow> task option \<Rightarrow> pool \<Rightarrow> pool" where
  "worker_got i task s =
     (case task of
        Some t \<Rightarrow> s\<lparr>po_pc := (po_pc s)(i := B_sub t), po_taken := po_taken s @ [t]\<rparr>
      | None \<Rightarrow> s\<lparr>po_pc := (po_pc s)(i := B_lock)\<rparr>)"

lemma pool_parts:
  "run_blocking_push t s = push_returned (push_called t (s\<lparr>po_tasks := push t (po_tasks s)\<rparr>))"
  "worker_pop i s = (let (task, q) = pop (po_tasks s) in worker_got i task (s\<lparr>po_tasks := q\<rparr>))"
  by (simp_all add: run_blocking_push_def push_returned_def push_called_def worker_pop_def worker_got_def
      split: prod.splits option.splits)

datatype pool_thread_label =
    Q_call nat task | Q_access nat | Q_pushed nat | Q_pop nat | Q_popped nat | Q_pool pool_label

definition pa_queue :: "task lfq_label \<Rightarrow> pool_threads \<Rightarrow> pool_threads option" where
  "pa_queue l s = map_option (\<lambda>q. s\<lparr>pa_q := q\<rparr>) (lfq_step By_value l (pa_q s))"

fun pa_step :: "nat \<Rightarrow> nat \<Rightarrow> pool_thread_label \<Rightarrow> pool_threads \<Rightarrow> pool_threads option" where
  "pa_step N n (Q_call c t) s =
     (if N \<le> c \<and> c < n \<and> \<not> pa_calling s c
      then map_option (\<lambda>s1. s1\<lparr>pa_pool := push_called t (pa_pool s), pa_calling := (pa_calling s)(c := True)\<rparr>)
             (pa_queue (Start_push c t) s)
      else None)"
| "pa_step N n (Q_access i) s = (if i < n then pa_queue (Access i) s else None)"
| "pa_step N n (Q_pushed c) s =
     (case lc_pc (pa_q s) c of
        Idle \<Rightarrow>
          (if c < n \<and> pa_calling s c
           then Some (s\<lparr>pa_pool := push_returned (pa_pool s), pa_calling := (pa_calling s)(c := False)\<rparr>) else None)
      | _ \<Rightarrow> None)"
| "pa_step N n (Q_pop i) s =
     (if i < N \<and> i < n \<and> po_pc (pa_pool s) i = B_pop then pa_queue (Start_pop i) s else None)"
| "pa_step N n (Q_popped i) s =
     (case lc_pc (pa_q s) i of
        Returned r \<Rightarrow>
          (if i < N \<and> i < n \<and> po_pc (pa_pool s) i = B_pop
           then map_option (\<lambda>s1. s1\<lparr>pa_pool := worker_got i r (pa_pool s)\<rparr>) (pa_queue (Return i) s) else None)
      | _ \<Rightarrow> None)"
| "pa_step N n (Q_pool l) s =
     (if on_queue l then None else map_option (\<lambda>p. s\<lparr>pa_pool := p\<rparr>) (pool_step N l (pa_pool s)))"

section \<open>What the answer of the queue changes in the books\<close>

lemma books_got:
  assumes i: "i < N" and pc: "po_pc p i = B_pop"
  shows "hands N (worker_got i r p) = hands N p + mset (vals [r])"
    and "owed N (worker_got i r p) + of_nat (length (vals [r])) = owed N p"
    and "po_taken (worker_got i r p) = po_taken p @ vals [r]"
    and "po_pushed (worker_got i r p) = po_pushed p"
proof -
  define x where "x = (case r of None \<Rightarrow> B_lock | Some t \<Rightarrow> B_sub t)"
  have "(\<Sum>j<N. in_hand (((po_pc p)(i := x)) j)) = (\<Sum>j<N. in_hand (po_pc p j)) + mset (vals [r])"
    "(\<Sum>j<N. unsubtracted (((po_pc p)(i := x)) j)) = (\<Sum>j<N. unsubtracted (po_pc p j)) + length (vals [r])"
    using sum_upd [OF i, of in_hand "po_pc p" x] sum_upd [OF i, of unsubtracted "po_pc p" x] pc
    by (simp_all add: x_def split: option.splits)
  moreover have "worker_got i r p = p\<lparr>po_pc := (po_pc p)(i := x), po_taken := po_taken p @ vals [r]\<rparr>"
    by (simp add: worker_got_def x_def split: option.splits)
  ultimately show "hands N (worker_got i r p) = hands N p + mset (vals [r])"
    and "owed N (worker_got i r p) + of_nat (length (vals [r])) = owed N p"
    and "po_taken (worker_got i r p) = po_taken p @ vals [r]"
    and "po_pushed (worker_got i r p) = po_pushed p"
    by (simp_all add: hands_def owed_def del: fun_upd_apply)
qed

section \<open>The pool as a client of the queue\<close>

text \<open>The books: what was taken is in hand or was run, and the counter counts what was pushed and not taken.\<close>

definition calls :: "nat \<Rightarrow> (nat \<Rightarrow> bool) \<Rightarrow> nat" where
  "calls n f = (\<Sum>c<n. if f c then 1 else 0)"

definition pa_inv :: "nat \<Rightarrow> nat \<Rightarrow> pool_threads \<Rightarrow> bool" where
  "pa_inv N n s \<longleftrightarrow> mset (po_taken (pa_pool s)) = hands N (pa_pool s) \<and>
     owed N (pa_pool s) + of_nat (calls n (pa_calling s)) + of_nat (length (po_taken (pa_pool s))) =
       of_nat (length (po_pushed (pa_pool s)))"

lemma pa_queueE:
  assumes "pa_queue l s = Some t"
  obtains q where "lfq_step By_value l (pa_q s) = Some q" and "t = s\<lparr>pa_q := q\<rparr>"
  using assms by (auto simp: pa_queue_def)

text \<open>The five kinds of step.\<close>

lemma pa_stepE:
  assumes "pa_step N n l s = Some t"
  obtains (call) c x q where "l = Q_call c x" and "c < n" and "\<not> pa_calling s c"
      and "lfq_step By_value (Start_push c x) (pa_q s) = Some q"
      and "t = s\<lparr>pa_q := q, pa_pool := push_called x (pa_pool s), pa_calling := (pa_calling s)(c := True)\<rparr>"
    | (moves) ql q where "thread_of ql < n" and "offered ql = []" and "handed ql (pa_q s) = []"
      and "lfq_step By_value ql (pa_q s) = Some q" and "t = s\<lparr>pa_q := q\<rparr>"
    | (pushed) c where "l = Q_pushed c" and "c < n" and "pa_calling s c"
      and "t = s\<lparr>pa_pool := push_returned (pa_pool s), pa_calling := (pa_calling s)(c := False)\<rparr>"
    | (popped) i r q where "l = Q_popped i" and "i < N" and "i < n" and "lc_pc (pa_q s) i = Returned r"
      and "po_pc (pa_pool s) i = B_pop" and "lfq_step By_value (Return i) (pa_q s) = Some q"
      and "t = s\<lparr>pa_q := q, pa_pool := worker_got i r (pa_pool s)\<rparr>"
    | (other) k p where "l = Q_pool k" and "\<not> on_queue k" and "pool_step N k (pa_pool s) = Some p"
      and "t = s\<lparr>pa_pool := p\<rparr>"
proof (cases l)
  case (Q_call c x)
  with assms call show thesis by (auto split: if_splits elim!: pa_queueE simp del: lfq_step.simps)
next
  case (Q_access i)
  with assms moves [of "Access i"] show thesis by (auto split: if_splits elim!: pa_queueE simp del: lfq_step.simps)
next
  case (Q_pushed c)
  with assms pushed show thesis by (auto split: if_splits lfq_pc.splits)
next
  case (Q_pop i)
  with assms moves [of "Start_pop i"] show thesis
    by (auto split: if_splits elim!: pa_queueE simp del: lfq_step.simps)
next
  case (Q_popped i)
  with assms popped show thesis
    by (auto split: if_splits lfq_pc.splits elim!: pa_queueE simp del: lfq_step.simps)
next
  case (Q_pool k)
  with assms other show thesis by (auto split: if_splits)
qed

lemma pa_by_access:
  assumes "pa_step N n l s = Some t"
  shows "(pa_q t = pa_q s \<and> po_taken (pa_pool t) = po_taken (pa_pool s) \<and> po_pushed (pa_pool t) = po_pushed (pa_pool s)) \<or>
      (\<exists>ql. thread_of ql < n \<and> lfq_step By_value ql (pa_q s) = Some (pa_q t) \<and>
            po_taken (pa_pool t) = po_taken (pa_pool s) @ handed ql (pa_q s) \<and>
            po_pushed (pa_pool t) = po_pushed (pa_pool s) @ offered ql)"
  using assms
proof (cases rule: pa_stepE)
  case (call c x q)
  then show ?thesis
    by (intro disjI2 exI [of _ "Start_push c x"]) (simp add: push_called_def del: lfq_step.simps)
next
  case (moves ql q)
  then show ?thesis by (intro disjI2 exI [of _ ql]) simp
next
  case (pushed c)
  then show ?thesis by (simp add: push_returned_def)
next
  case (popped i r q)
  then show ?thesis
    using books_got [of i N "pa_pool s" r] by (intro disjI2 exI [of _ "Return i"]) (simp del: lfq_step.simps)
next
  case (other k p)
  with books_step [OF other(3,2)] show ?thesis by (simp add: same_books_def)
qed

interpretation pau: queue_user pool_threads_init "pa_step N n" pa_q By_value
    "\<lambda>s. po_taken (pa_pool s)" "\<lambda>s. po_pushed (pa_pool s)" n for N n
  by unfold_locales (use pa_by_access in \<open>auto simp: pool_threads_init_def pool_init_def\<close>)

lemma pa_inv_init: "pa_inv N n pool_threads_init"
  by (simp add: pa_inv_def pool_threads_init_def pool_init_def hands_def owed_def calls_def)

lemma calls_upd:
  assumes "c < n"
  shows "\<not> f c \<Longrightarrow> calls n (f(c := True)) = Suc (calls n f)" and "f c \<Longrightarrow> calls n f = Suc (calls n (f(c := False)))"
  using sum_upd [OF assms, of "\<lambda>b. if b then 1 else (0 :: nat)" f True] sum_upd [OF assms, of "\<lambda>b. if b then 1 else (0 :: nat)" f False]
  by (simp_all add: calls_def del: fun_upd_apply)

lemma pa_inv_step:
  assumes inv: "pa_inv N n s" and step: "pa_step N n l s = Some t"
  shows "pa_inv N n t"
  using step
proof (cases rule: pa_stepE)
  case (call c x q)
  then show ?thesis
    using inv calls_upd(1) [of c n "pa_calling s"]
    by (simp add: pa_inv_def push_called_def hands_def owed_def algebra_simps del: fun_upd_apply)
next
  case (moves ql q)
  with inv show ?thesis by (simp add: pa_inv_def)
next
  case (pushed c)
  then have "calls n (pa_calling s) = Suc (calls n ((pa_calling s)(c := False)))"
    using calls_upd(2) by blast
  with pushed inv show ?thesis
    by (simp add: pa_inv_def push_returned_def hands_def owed_def algebra_simps del: fun_upd_apply)
next
  case (popped i r q)
  then show ?thesis
    using inv books_got(1,3,4) [of i N "pa_pool s" r]
    unfolding pa_inv_def popped(7) books_got(2) [OF popped(2,5), of r, symmetric] by (simp add: algebra_simps)
next
  case (other k p)
  with books_step [OF other(3,2)] inv show ?thesis by (simp add: pa_inv_def same_books_def)
qed

lemma pa_reach_inv: "reach pool_threads_init (pa_step N n) s \<Longrightarrow> pa_inv N n s"
  by (induction rule: reach.induct) (auto intro: pa_inv_init pa_inv_step)

section \<open>Properties\<close>

text \<open>
  C15: the blocking workers at the single accesses of the queue, for any number of callers of \<open>run_blocking\<close> and of workers. In
  every interleaving in which no two callers are in the push at once and no two workers are in the pop at once,
  the tasks are taken in the order in which they were given, none twice, and the rest is still queued: with
  no queue operation under way it is the content of the queue. What was taken is what was run and what a
  worker has in hand.
\<close>

theorem blocking_tasks_in_order_by_access:
  assumes "reach pool_threads_init (in_order n pa_q (pa_step N n)) s"
  shows "\<exists>rest. po_pushed (pa_pool s) = po_taken (pa_pool s) @ rest \<and>
           ((\<forall>i. lc_pc (pa_q s) i = Idle) \<longrightarrow> rest = vals (cells (lc_q (pa_q s)))) \<and>
           mset (po_taken (pa_pool s)) = mset (po_ran (pa_pool s)) + (\<Sum>i<N. in_hand (po_pc (pa_pool s) i))"
  using pau.popped_in_order [OF assms] pa_reach_inv [OF in_order_reach [OF assms]]
  by (auto simp: pa_inv_def hands_def at_rest_def)

text \<open>
  C16: the counter of the waiting blocking tasks, in every interleaving of the single accesses of any number of callers and
  workers, orderly or not: every task taken from the queue was run just as often as it was taken, but for those that a
  worker has in hand; and the 64-bit counter, with the additions and subtractions under way, is exactly the number
  of tasks given less those taken, so a task that the queue loses stays counted for ever.
\<close>

theorem blocking_counter_by_access:
  assumes "reach pool_threads_init (pa_step N n) s"
  shows "mset (po_taken (pa_pool s)) = mset (po_ran (pa_pool s)) + (\<Sum>i<N. in_hand (po_pc (pa_pool s) i)) \<and>
         po_waiting (pa_pool s) + of_nat (po_uncounted (pa_pool s)) + of_nat (calls n (pa_calling s)) +
           of_nat (length (po_taken (pa_pool s))) =
         of_nat (length (po_pushed (pa_pool s))) + of_nat (\<Sum>i<N. unsubtracted (po_pc (pa_pool s) i))"
  using pa_reach_inv [OF assms]
  by (simp add: pa_inv_def hands_def owed_def algebra_simps del: of_nat_sum)

text \<open>One caller and two workers: a task is handed in, and one is run.\<close>

definition hand_in :: "nat \<Rightarrow> task \<Rightarrow> nat \<Rightarrow> pool_thread_label list" where
  "hand_in c t k = [Q_call c t] @ replicate k (Q_access c) @ [Q_pushed c, Q_pool P_count, Q_pool (P_notify None)]"

definition take_out :: "nat \<Rightarrow> nat \<Rightarrow> pool_thread_label list" where
  "take_out i k = [Q_pop i] @ replicate k (Q_access i) @ [Q_popped i]"

definition run_it :: "nat \<Rightarrow> pool_thread_label list" where
  "run_it i = [Q_pool (W_sub i), Q_pool (W_run i)]"

definition run_aba :: "pool_thread_label list" where
  "run_aba = hand_in 2 10 6 @ hand_in 2 20 6 @ [Q_pop 0, Q_access 0, Q_access 0] @ take_out 1 8 @ run_it 1 @
     hand_in 2 30 8 @ take_out 1 8 @ run_it 1 @ replicate 6 (Q_access 0) @ [Q_popped 0] @ run_it 0 @ hand_in 2 40 8"

definition spin :: "nat \<Rightarrow> pool_thread_label list" where
  "spin i = take_out i 5 @ [Q_pool (W_lock i), Q_pool (W_test i)]"

theorem blocking_counter_by_access_witness:
  "\<exists>s. reach pool_threads_init (pa_step 2 3) s \<and> po_pushed (pa_pool s) = [10] \<and> po_ran (pa_pool s) = [10] \<and>
       po_waiting (pa_pool s) = 0"
proof -
  have "run_sat (pa_step 2 3) (hand_in 2 10 6 @ take_out 1 6 @ run_it 1) pool_threads_init
      (\<lambda>s. po_pushed (pa_pool s) = [10] \<and> po_ran (pa_pool s) = [10] \<and> po_taken (pa_pool s) = [10] \<and>
        po_uncounted (pa_pool s) = 0 \<and> calls 3 (pa_calling s) = 0 \<and> (\<Sum>i<2. unsubtracted (po_pc (pa_pool s) i)) = 0)"
    by code_simp
  then obtain s where s: "reach pool_threads_init (pa_step 2 3) s" and p: "po_pushed (pa_pool s) = [10]"
    "po_ran (pa_pool s) = [10]" "po_taken (pa_pool s) = [10]" "po_uncounted (pa_pool s) = 0"
    "calls 3 (pa_calling s) = 0" "(\<Sum>i<2. unsubtracted (po_pc (pa_pool s) i)) = 0"
    by (elim run_satE) blast
  from blocking_counter_by_access [OF s, THEN conjunct2] p have "po_waiting (pa_pool s) = 0"
    by (simp del: of_nat_sum sum_eq_0_iff)
  with s p show ?thesis by blast
qed

text \<open>A worker takes the first task while the second is being pushed.\<close>

definition overlapping :: "pool_thread_label list" where
  "overlapping = hand_in 2 10 6 @ [Q_call 3 20] @ replicate 3 (Q_access 3) @ [Q_pop 1] @ replicate 3 (Q_access 1) @
     replicate 3 (Q_access 3) @ [Q_pushed 3] @ replicate 3 (Q_access 1) @ [Q_popped 1]"

theorem blocking_tasks_in_order_by_access_witness:
  "\<exists>s rest. reach pool_threads_init (in_order 4 pa_q (pa_step 2 4)) s \<and> po_pushed (pa_pool s) = [10, 20] \<and>
       po_taken (pa_pool s) = [10] \<and> po_pushed (pa_pool s) = [10] @ rest \<and> po_pc (pa_pool s) 1 = B_sub 10"
proof -
  have "run_sat (in_order 4 pa_q (pa_step 2 4)) overlapping pool_threads_init
      (\<lambda>s. po_pushed (pa_pool s) = [10, 20] \<and> po_taken (pa_pool s) = [10] \<and> po_pc (pa_pool s) 1 = B_sub 10)"
    by code_simp
  then obtain s where s: "reach pool_threads_init (in_order 4 pa_q (pa_step 2 4)) s"
    and p: "po_pushed (pa_pool s) = [10, 20]" "po_taken (pa_pool s) = [10]" "po_pc (pa_pool s) 1 = B_sub 10"
    by (elim run_satE) blast
  from blocking_tasks_in_order_by_access [OF s] p obtain rest where "po_pushed (pa_pool s) = [10] @ rest" by auto
  with s p show ?thesis by blast
qed

text \<open>
  A lost task: two workers pop at once, the slower one's compare-and-exchange succeeds on an entry that was
  recycled, and the task pushed next is out of reach. It stays counted in \<open>blocking_waiting_\<close>, and from then on
  a worker with nothing to do never blocks: it pops, finds the counter above zero and pops again.
\<close>

definition stuck :: "nat \<Rightarrow> nat \<Rightarrow> nat \<Rightarrow> pool_threads \<Rightarrow> bool" where
  "stuck N n i s \<longleftrightarrow> i < N \<and> N \<le> n \<and> lc_pc (pa_q s) i = Idle \<and>
     (case lf_tail (lc_q (pa_q s)) of
        None \<Rightarrow> False
      | Some a \<Rightarrow> e_next (lf_heap (lc_q (pa_q s)) a) = None \<and> \<not> e_has (lf_heap (lc_q (pa_q s)) a)) \<and>
     po_pc (pa_pool s) i = B_pop \<and> po_mut (pa_pool s) = None \<and> \<not> po_done (pa_pool s) \<and> po_waiting (pa_pool s) > 0"

lemma spin_round:
  assumes "stuck N n i s"
  obtains t where "run (pa_step N n) (spin i) s = Some t" and "stuck N n i t" and "pa_pool t = pa_pool s"
proof -
  from assms obtain a where a: "lf_tail (lc_q (pa_q s)) = Some a" "e_next (lf_heap (lc_q (pa_q s)) a) = None"
    "\<not> e_has (lf_heap (lc_q (pa_q s)) a)" and i: "i < N" "N \<le> n" "lc_pc (pa_q s) i = Idle"
    and p: "po_pc (pa_pool s) i = B_pop" "po_mut (pa_pool s) = None" "\<not> po_done (pa_pool s)" "po_waiting (pa_pool s) > 0"
    by (auto simp: stuck_def split: option.splits)
  have "(po_pc (pa_pool s))(i := B_pop) = po_pc (pa_pool s)" using p(1) by (simp add: fun_upd_idem)
  then have "\<exists>t. run (pa_step N n) (spin i) s = Some t \<and> lc_q (pa_q t) = lc_q (pa_q s) \<and> lc_pc (pa_q t) i = Idle \<and>
      pa_pool t = pa_pool s"
    using a i p
    by (simp add: spin_def take_out_def numeral_eq_Suc pa_queue_def access_defs worker_got_def worker_test_def)
  then obtain t where t: "run (pa_step N n) (spin i) s = Some t" "lc_q (pa_q t) = lc_q (pa_q s)"
    "lc_pc (pa_q t) i = Idle" "pa_pool t = pa_pool s" by blast
  with a i p have "stuck N n i t" by (simp add: stuck_def)
  with t show thesis using that by blast
qed

lemma spins:
  "stuck N n i s \<Longrightarrow> \<exists>t. run (pa_step N n) (concat (replicate k (spin i))) s = Some t \<and> pa_pool t = pa_pool s"
proof (induction k arbitrary: s)
  case (Suc k)
  obtain u where "run (pa_step N n) (spin i) s = Some u" "stuck N n i u" "pa_pool u = pa_pool s"
    using spin_round [OF Suc.prems] .
  with Suc.IH [of u] show ?case by (auto simp: run_append)
qed simp

theorem blocking_lost_task_spins:
  "\<exists>s. reach pool_threads_init (pa_step 2 3) s \<and> po_pushed (pa_pool s) = [10, 20, 30, 40] \<and>
       po_ran (pa_pool s) = [10, 20, 30] \<and> po_waiting (pa_pool s) = 1 \<and>
       po_uncounted (pa_pool s) = 0 \<and> po_unnotified (pa_pool s) = 0 \<and>
       (\<forall>i k. i < 2 \<longrightarrow> (\<exists>t. run (pa_step 2 3) (concat (replicate k (spin i))) s = Some t \<and> pa_pool t = pa_pool s))"
proof -
  have "run_sat (pa_step 2 3) (run_aba @ spin 0 @ spin 1) pool_threads_init
      (\<lambda>s. po_pushed (pa_pool s) = [10, 20, 30, 40] \<and> po_ran (pa_pool s) = [10, 20, 30] \<and>
        po_waiting (pa_pool s) = 1 \<and> po_uncounted (pa_pool s) = 0 \<and> po_unnotified (pa_pool s) = 0 \<and>
        stuck 2 3 0 s \<and> stuck 2 3 1 s)"
    by code_simp
  then obtain s where s: "reach pool_threads_init (pa_step 2 3) s" and p: "po_pushed (pa_pool s) = [10, 20, 30, 40]"
    "po_ran (pa_pool s) = [10, 20, 30]" "po_waiting (pa_pool s) = 1" "po_uncounted (pa_pool s) = 0"
    "po_unnotified (pa_pool s) = 0" and stuck: "stuck 2 3 0 s" "stuck 2 3 1 s"
    by (elim run_satE) blast
  have "stuck 2 3 i s" if "i < 2" for i using stuck that by (auto simp: less_Suc_eq numeral_eq_Suc)
  with s p spins show ?thesis by blast
qed

end
