(* ===== verification/Crasy_Option.thy ===== *)
theory Crasy_Option imports Prelude "HOL-Library.Option_ord" begin

text \<open>
  \<^verbatim>\<open>crasy::option\<close> (include/crasy/option.hpp). The primary template holds a
  \<^verbatim>\<open>std::optional\<close>, modelled by HOL's \<open>option\<close>; the specialisation for
  references holds a pointer, \<open>None\<close> when null. Functions passed to \<open>map\<close> are
  computations, so that a theorem also says how often they are called. The overloads for
  the value categories (\<^verbatim>\<open>&\<close>, \<^verbatim>\<open>const&\<close>, \<^verbatim>\<open>&&\<close>,
  \<^verbatim>\<open>const&&\<close>) differ in whether the value is moved from and have one model.
\<close>

section \<open>option<T>\<close>

datatype 'a opt = Opt (opt_inner: "'a option")

definition opt_default :: "'a opt" where
  "opt_default = Opt None"

definition opt_of_value :: "'a \<Rightarrow> 'a opt" where
  "opt_of_value x = Opt (Some x)"

definition opt_has_value :: "'a opt \<Rightarrow> bool" where
  "opt_has_value o1 = (opt_inner o1 \<noteq> None)"

definition opt_deref :: "'a opt \<Rightarrow> fault + 'a" where
  "opt_deref o1 = (case opt_inner o1 of None \<Rightarrow> Inl (Undefined Empty_option_deref) | Some x \<Rightarrow> Inr x)"

definition opt_value :: "'a opt \<Rightarrow> fault + 'a" where
  "opt_value o1 = (case opt_inner o1 of None \<Rightarrow> Inl (Throw Bad_optional_access) | Some x \<Rightarrow> Inr x)"

definition opt_value_or :: "'a opt \<Rightarrow> 'a \<Rightarrow> 'a" where
  "opt_value_or o1 d = (case opt_inner o1 of None \<Rightarrow> d | Some x \<Rightarrow> x)"

definition opt_swap :: "'a opt \<Rightarrow> 'a opt \<Rightarrow> 'a opt \<times> 'a opt" where
  "opt_swap o1 o2 = (Opt (opt_inner o2), Opt (opt_inner o1))"

definition opt_reset :: "'a opt \<Rightarrow> 'a opt" where
  "opt_reset o1 = Opt None"

definition opt_emplace :: "'a opt \<Rightarrow> 'a \<Rightarrow> 'a \<times> 'a opt" where
  "opt_emplace o1 x = (x, Opt (Some x))"

text \<open>The private static \<open>map\<close>: \<open>ret\<close> starts empty and is filled with the result.\<close>

definition opt_map :: "('a \<Rightarrow> ('b, 'w) comp) \<Rightarrow> 'a opt \<Rightarrow> ('b opt, 'w) comp" where
  "opt_map f o1 =
     (if opt_has_value o1
      then andthen (case opt_deref o1 of Inl e \<Rightarrow> fail e | Inr x \<Rightarrow> f x)
             (\<lambda>y. ret (snd (opt_emplace opt_default y)))
      else ret opt_default)"

definition opt_eq :: "'a opt \<Rightarrow> 'a opt \<Rightarrow> bool" where
  "opt_eq o1 o2 =
     (case (opt_inner o1, opt_inner o2) of
        (Some x, Some y) \<Rightarrow> x = y
      | _ \<Rightarrow> opt_has_value o1 = opt_has_value o2)"

text \<open>
  The remaining constructors: from \<^verbatim>\<open>nullopt\<close>, from a \<^verbatim>\<open>std::optional\<close>, and in place
  from the arguments of a constructor; and the conversions back to \<^verbatim>\<open>std::optional\<close>.
\<close>

definition opt_of_nullopt :: "'a opt" where
  "opt_of_nullopt = opt_default"

definition opt_of_optional :: "('b \<Rightarrow> 'a) \<Rightarrow> 'b option \<Rightarrow> 'a opt" where
  "opt_of_optional conv v = Opt (map_option conv v)"

definition opt_in_place :: "('c \<Rightarrow> 'a) \<Rightarrow> 'c \<Rightarrow> 'a opt" where
  "opt_in_place ctor args = Opt (Some (ctor args))"

definition opt_in_place_list :: "('i list \<Rightarrow> 'c \<Rightarrow> 'a) \<Rightarrow> 'i list \<Rightarrow> 'c \<Rightarrow> 'a opt" where
  "opt_in_place_list ctor ilist args = Opt (Some (ctor ilist args))"

definition opt_to_optional :: "('a \<Rightarrow> 'b) \<Rightarrow> 'a opt \<Rightarrow> 'b option" where
  "opt_to_optional conv o1 = map_option conv (opt_inner o1)"

definition opt_ne :: "'a opt \<Rightarrow> 'a opt \<Rightarrow> bool" where
  "opt_ne o1 o2 =
     (case (opt_inner o1, opt_inner o2) of
        (Some x, Some y) \<Rightarrow> x \<noteq> y
      | _ \<Rightarrow> opt_has_value o1 \<noteq> opt_has_value o2)"

text \<open>Comparison with \<^verbatim>\<open>nullopt\<close>, on either side.\<close>

definition opt_eq_nullopt :: "'a opt \<Rightarrow> bool" where
  "opt_eq_nullopt o1 = (opt_inner o1 = None)"

definition opt_ne_nullopt :: "'a opt \<Rightarrow> bool" where
  "opt_ne_nullopt o1 = (opt_inner o1 \<noteq> None)"

text \<open>
  \<^verbatim>\<open>operator<=>\<close> of \<^verbatim>\<open>std::optional\<close>: two values compare as
  values, otherwise the presence of a value is compared. \<open>less_eq\<close> and \<open>less\<close>
  on \<open>opt\<close> are the comparisons the language derives from it.
\<close>

definition opt_le :: "'a::linorder opt \<Rightarrow> 'a opt \<Rightarrow> bool" where
  "opt_le o1 o2 =
     (case (opt_inner o1, opt_inner o2) of
        (Some x, Some y) \<Rightarrow> x \<le> y
      | _ \<Rightarrow> opt_has_value o1 \<le> opt_has_value o2)"

definition opt_lt :: "'a::linorder opt \<Rightarrow> 'a opt \<Rightarrow> bool" where
  "opt_lt o1 o2 =
     (case (opt_inner o1, opt_inner o2) of
        (Some x, Some y) \<Rightarrow> x < y
      | _ \<Rightarrow> opt_has_value o1 < opt_has_value o2)"

instantiation opt :: (linorder) linorder
begin

definition less_eq_opt :: "'a opt \<Rightarrow> 'a opt \<Rightarrow> bool" where
  "less_eq_opt o1 o2 = opt_le o1 o2"

definition less_opt :: "'a opt \<Rightarrow> 'a opt \<Rightarrow> bool" where
  "less_opt o1 o2 = opt_lt o1 o2"

instance
proof
  fix x y z :: "'a opt"
  show "(x < y) = (x \<le> y \<and> \<not> y \<le> x)" and "x \<le> x" and "x \<le> y \<or> y \<le> x"
    and "x \<le> y \<Longrightarrow> y \<le> x \<Longrightarrow> x = y" and "x \<le> y \<Longrightarrow> y \<le> z \<Longrightarrow> x \<le> z"
    by (cases x; cases y; cases z;
        auto simp: less_eq_opt_def less_opt_def opt_le_def opt_lt_def opt_has_value_def split: option.splits)+
qed

end

definition make_option :: "('c \<Rightarrow> 'a) \<Rightarrow> 'c \<Rightarrow> 'a opt" where
  "make_option ctor args = Opt (Some (ctor args))"

section \<open>option<T&>\<close>

text \<open>An option of a reference is an address; \<open>h\<close> is the memory it points into.\<close>

datatype oref = Oref (oref_ptr: "nat option")

definition oref_of :: "nat \<Rightarrow> oref" where
  "oref_of a = Oref (Some a)"

definition oref_has_value :: "oref \<Rightarrow> bool" where
  "oref_has_value o1 = (oref_ptr o1 \<noteq> None)"

definition oref_deref :: "oref \<Rightarrow> fault + nat" where
  "oref_deref o1 = (case oref_ptr o1 of None \<Rightarrow> Inl (Undefined Null_deref) | Some a \<Rightarrow> Inr a)"

definition oref_value :: "oref \<Rightarrow> fault + nat" where
  "oref_value o1 = (if oref_ptr o1 = None then Inl (Throw Bad_optional_access) else oref_deref o1)"

definition oref_value_or :: "oref \<Rightarrow> nat \<Rightarrow> nat" where
  "oref_value_or o1 d = (case oref_ptr o1 of None \<Rightarrow> d | Some a \<Rightarrow> a)"

definition oref_emplace :: "oref \<Rightarrow> nat \<Rightarrow> nat \<times> oref" where
  "oref_emplace o1 a = (a, Oref (Some a))"

definition oref_reset :: "oref \<Rightarrow> oref" where
  "oref_reset o1 = Oref None"

definition oref_swap :: "oref \<Rightarrow> oref \<Rightarrow> oref \<times> oref" where
  "oref_swap o1 o2 = (Oref (oref_ptr o2), Oref (oref_ptr o1))"

definition oref_eq :: "oref \<Rightarrow> oref \<Rightarrow> bool" where
  "oref_eq o1 o2 = (oref_ptr o1 = oref_ptr o2)"

text \<open>
  The remaining constructors of the reference specialisation: from \<^verbatim>\<open>nullopt\<close>, a pointer
  that may be null, in place, and from an option of a derived class, whose pointer is adjusted by
  \<open>up\<close>; the conversion to a pointer; and the comparisons with null.
\<close>

definition oref_of_nullopt :: oref where
  "oref_of_nullopt = Oref None"

definition oref_of_pointer :: "nat option \<Rightarrow> oref" where
  "oref_of_pointer p = Oref p"

definition oref_in_place :: "nat \<Rightarrow> oref" where
  "oref_in_place a = Oref (Some a)"

definition oref_of_derived :: "(nat \<Rightarrow> nat) \<Rightarrow> oref \<Rightarrow> oref" where
  "oref_of_derived up o1 = Oref (map_option up (oref_ptr o1))"

definition oref_to_pointer :: "oref \<Rightarrow> nat option" where
  "oref_to_pointer o1 = oref_ptr o1"

definition oref_ne :: "oref \<Rightarrow> oref \<Rightarrow> bool" where
  "oref_ne o1 o2 = (oref_ptr o1 \<noteq> oref_ptr o2)"

definition oref_eq_nullopt :: "oref \<Rightarrow> bool" where
  "oref_eq_nullopt o1 = (oref_ptr o1 = None)"

definition oref_ne_nullopt :: "oref \<Rightarrow> bool" where
  "oref_ne_nullopt o1 = (oref_ptr o1 \<noteq> None)"

definition oref_eq_nullptr :: "oref \<Rightarrow> nat option \<Rightarrow> bool" where
  "oref_eq_nullptr o1 p = (oref_ptr o1 = p)"

definition oref_ne_nullptr :: "oref \<Rightarrow> nat option \<Rightarrow> bool" where
  "oref_ne_nullptr o1 p = (oref_ptr o1 \<noteq> p)"

text \<open>
  The private static \<open>map\<close> of the reference specialisation, as written: with a value it
  emplaces the reference into the option itself and returns \<open>ret\<close> untouched. The result is
  the returned option and the option mapped over.
\<close>

definition oref_map :: "(nat \<Rightarrow> ('b, 'w) comp) \<Rightarrow> oref \<Rightarrow> ('b opt \<times> oref, 'w) comp" where
  "oref_map f o1 =
     (if oref_has_value o1
      then (case oref_deref o1 of
              Inl e \<Rightarrow> fail e
            | Inr a \<Rightarrow> ret (opt_default, snd (oref_emplace o1 a)))
      else ret (opt_default, o1))"

text \<open>
  \<^verbatim>\<open>dynamic_option_cast\<close>. \<open>dyn a\<close> is the address of the target subobject when
  the object at \<open>a\<close> has the target type, as \<^verbatim>\<open>dynamic_cast\<close> of a pointer
  gives it; a null pointer casts to a null pointer.
\<close>

definition dynamic_option_cast :: "(nat \<Rightarrow> nat option) \<Rightarrow> oref \<Rightarrow> oref" where
  "dynamic_option_cast dyn o1 = Oref (case oref_ptr o1 of None \<Rightarrow> None | Some a \<Rightarrow> dyn a)"

section \<open>Properties\<close>

lemmas opt_defs = opt_default_def opt_of_value_def opt_has_value_def opt_deref_def opt_value_def
  opt_value_or_def opt_emplace_def opt_reset_def make_option_def

lemma opt_map_Opt [simp]:
  "opt_map f (Opt None) = ret (Opt None)"
  "opt_map f (Opt (Some x)) = andthen (f x) (\<lambda>y. ret (Opt (Some y)))"
  by (simp_all add: opt_map_def opt_defs)

text \<open>
  Mapping over an option is functorial for computations that may fail and have effects:
  mapping \<open>f\<close> and then \<open>g\<close> runs the same effects, in the same order, and gives the same
  option or failure as mapping their sequence once, and mapping the identity changes nothing.
\<close>

theorem option_map_functor:
  "andthen (opt_map f o1) (opt_map g) = opt_map (\<lambda>x. andthen (f x) g) o1 \<and> opt_map ret o1 = ret o1"
proof (cases o1)
  case (Opt v)
  then show ?thesis by (cases v) (simp_all add: andthen_assoc)
qed

text \<open>
  The accessors of \<^verbatim>\<open>option\<close> agree: \<open>value\<close> throws
  \<^verbatim>\<open>bad_optional_access\<close> exactly when there is no value and otherwise returns what
  \<^verbatim>\<open>operator*\<close> and \<open>value_or\<close> return; after \<open>emplace\<close> the value is the
  emplaced one, after \<open>reset\<close> access throws, and after \<open>swap\<close> each side has the other's.
\<close>

theorem option_access:
  "(opt_value o1 = Inl (Throw Bad_optional_access) \<longleftrightarrow> \<not> opt_has_value o1) \<and>
   (opt_has_value o1 \<longleftrightarrow> opt_value o1 = Inr (opt_value_or o1 d) \<and> opt_deref o1 = opt_value o1) \<and>
   opt_value (snd (opt_emplace o1 x)) = Inr x \<and>
   opt_value (opt_reset o1) = Inl (Throw Bad_optional_access) \<and>
   opt_swap o1 o2 = (o2, o1)"
  by (cases o1; cases o2; auto simp: opt_defs opt_swap_def split: option.splits)

text \<open>
  The order on options is total, an empty option is below every value, and values
  keep their own order; equality is the order's equality.
\<close>

theorem option_order:
  "((o1 :: 'a :: linorder opt) < o2 \<or> opt_eq o1 o2 \<or> o2 < o1) \<and>
   (opt_eq o1 o2 \<longleftrightarrow> o1 \<le> o2 \<and> o2 \<le> o1) \<and>
   opt_default < opt_of_value a \<and> (opt_of_value a < opt_of_value b \<longleftrightarrow> a < b)"
proof -
  have "opt_eq o1 o2 \<longleftrightarrow> o1 = o2"
    by (cases o1; cases o2; auto simp: opt_eq_def opt_has_value_def split: option.splits)
  moreover have "opt_default < opt_of_value a" and "opt_of_value a < opt_of_value b \<longleftrightarrow> a < b"
    by (simp_all add: less_opt_def opt_lt_def opt_defs)
  ultimately show ?thesis using less_linear [of o1 o2] by auto
qed

text \<open>
  \<open>map\<close> on an option of a reference never calls the function and always returns an
  empty option, whatever the option holds, where the primary template returns the mapped value.
\<close>

theorem option_ref_map_always_empty:
  "oref_map f o1 w = (Inr (opt_default, o1), w) \<and>
   opt_map (\<lambda>x. ret (h x)) (opt_of_value a) w = (Inr (opt_of_value (h a)), w)"
  by (cases o1; auto simp: oref_map_def opt_map_def oref_has_value_def oref_deref_def oref_emplace_def opt_defs
      comp_run       split: option.splits)

text \<open>
  An option of a reference behaves as a pointer: access throws exactly when it is null, a
  cast keeps null and fails to null, and casting twice is casting along the composed cast.
\<close>

theorem option_ref_access:
  "(oref_value o1 = Inl (Throw Bad_optional_access) \<longleftrightarrow> \<not> oref_has_value o1) \<and>
   (oref_has_value o1 \<longleftrightarrow> oref_value o1 = Inr (oref_value_or o1 d)) \<and>
   oref_value (snd (oref_emplace o1 a)) = Inr a \<and> \<not> oref_has_value (oref_reset o1) \<and>
   dynamic_option_cast k (dynamic_option_cast j o1) =
     dynamic_option_cast (\<lambda>a. case j a of None \<Rightarrow> None | Some b \<Rightarrow> k b) o1 \<and>
   (oref_eq o1 (Oref None) \<longleftrightarrow> \<not> oref_has_value o1)"
  by (cases o1; auto simp: oref_value_def oref_deref_def oref_has_value_def oref_value_or_def
      oref_emplace_def oref_reset_def dynamic_option_cast_def oref_eq_def split: option.splits)

text \<open>
  An option survives the trip through \<^verbatim>\<open>std::optional\<close>, and through a pointer for
  references; building it from nothing or from null gives the option without a value; and
  \<^verbatim>\<open>!=\<close> is the negation of \<^verbatim>\<open>==\<close> in all its overloads, which agree with
  \<open>has_value\<close>.
\<close>

theorem option_conversions:
  "opt_of_optional conv (opt_to_optional back o1) = Opt (map_option (conv \<circ> back) (opt_inner o1)) \<and>
   opt_to_optional id (opt_of_optional id v) = v \<and>
   \<not> opt_has_value opt_of_nullopt \<and> opt_in_place ctor c = make_option ctor c \<and>
   opt_ne o1 o2 = (\<not> opt_eq o1 o2) \<and>
   opt_eq_nullopt o1 = opt_eq o1 opt_of_nullopt \<and> opt_ne_nullopt o1 = opt_has_value o1 \<and>
   oref_of_pointer (oref_to_pointer p) = p \<and> oref_to_pointer (oref_of_derived up p) = map_option up (oref_to_pointer p) \<and>
   oref_has_value (oref_of_derived up p) = oref_has_value p \<and>
   oref_ne p q = (\<not> oref_eq p q) \<and> oref_eq_nullopt p = oref_eq_nullptr p None \<and>
   oref_ne_nullopt p = oref_has_value p \<and> oref_ne_nullptr p None = oref_has_value p \<and>
   oref_in_place a = oref_of a \<and> oref_eq p oref_of_nullopt = oref_eq_nullopt p"
  by (cases o1; cases o2; cases p; cases q)
    (auto simp: opt_of_optional_def opt_to_optional_def opt_of_nullopt_def opt_in_place_def opt_ne_def
      opt_eq_def opt_eq_nullopt_def opt_ne_nullopt_def opt_defs oref_of_pointer_def oref_to_pointer_def
      oref_of_derived_def oref_has_value_def oref_ne_def oref_eq_def oref_eq_nullopt_def
      oref_eq_nullptr_def oref_ne_nullopt_def oref_ne_nullptr_def oref_in_place_def oref_of_def
      oref_of_nullopt_def option.map_id split: option.splits)

end
