(* ===== verification/Lfqueue_Data.thy ===== *)
theory Lfqueue_Data imports Lfqueue Crasy_Option begin

text \<open>
  The data of a queue entry (\<open>lfqueue::data_t\<close>, include/crasy/lfqueue.hpp). For values it is raw
  storage and a flag that says whether an object lives there, with explicit construction and
  destruction; for references it is a pointer. \<open>Lfqueue\<close> uses one optional value for both, which
  this theory justifies: the flag never lies, and every object is destroyed once.
\<close>

section \<open>Values\<close>

text \<open>
  \<open>dt_data\<close> is the object alive in the storage; the counters are ghosts for the calls of its
  constructor and destructor. \<open>trivial\<close> says that the destructor is trivial and not called.
\<close>

record 'a data_cell =
  dt_data :: "'a option"
  dt_has_value :: bool
  dt_made :: nat
  dt_destroyed :: nat

definition data_ctor :: "'a data_cell" where
  "data_ctor = \<lparr>dt_data = None, dt_has_value = False, dt_made = 0, dt_destroyed = 0\<rparr>"

text \<open>The call of the destructor \<^verbatim>\<open>data.~U()\<close>, undefined without an object.\<close>

definition destroy_object :: "(unit, 'a data_cell) comp" where
  "destroy_object c =
     (if dt_data c = None then (Inl (Undefined Use_after_free), c)
      else (Inr (), c\<lparr>dt_data := None, dt_destroyed := dt_destroyed c + 1\<rparr>))"

definition destroy_held :: "bool \<Rightarrow> (unit, 'a data_cell) comp" where
  "destroy_held trivial c = (if \<not> trivial \<and> dt_has_value c then destroy_object c else (Inr (), c))"

definition data_destroy :: "bool \<Rightarrow> (unit, 'a data_cell) comp" where
  "data_destroy trivial = destroy_held trivial"

definition data_put :: "bool \<Rightarrow> 'a \<Rightarrow> (unit, 'a data_cell) comp" where
  "data_put trivial x =
     andthen (destroy_held trivial)
       (\<lambda>_ c. (Inr (), c\<lparr>dt_data := Some x, dt_made := dt_made c + 1, dt_has_value := True\<rparr>))"

definition data_take :: "bool \<Rightarrow> ('a \<Rightarrow> 'a) \<Rightarrow> ('a opt, 'a data_cell) comp" where
  "data_take trivial moved c =
     (if dt_has_value c
      then (let c1 = c\<lparr>dt_has_value := False\<rparr>
            in case dt_data c1 of
                 None \<Rightarrow> (Inl (Undefined Indeterminate_read), c1)
               | Some x \<Rightarrow> (let c2 = c1\<lparr>dt_data := Some (moved x)\<rparr>
                           in if trivial then (Inr (opt_of_value x), c2)
                              else andthen destroy_object (\<lambda>_. ret (opt_of_value x)) c2))
      else (Inr opt_of_nullopt, c))"

section \<open>References\<close>

type_synonym ref_cell = "nat option"

definition ref_cell_init :: ref_cell where
  "ref_cell_init = None"

definition ref_put_data :: "nat \<Rightarrow> ref_cell \<Rightarrow> ref_cell" where
  "ref_put_data value c = Some value"

definition ref_take_data :: "ref_cell \<Rightarrow> oref \<times> ref_cell" where
  "ref_take_data c = (oref_of_pointer c, None)"

section \<open>Both are an optional value\<close>

datatype 'a data_op = Put 'a | Take

fun data_step :: "bool \<Rightarrow> ('a \<Rightarrow> 'a) \<Rightarrow> 'a data_op \<Rightarrow> 'a data_cell \<Rightarrow> (fault + 'a option) \<times> 'a data_cell" where
  "data_step trivial moved (Put x) c = apfst (map_sum id (\<lambda>_. None)) (data_put trivial x c)"
| "data_step trivial moved Take c = apfst (map_sum id opt_inner) (data_take trivial moved c)"

fun ref_step :: "nat data_op \<Rightarrow> ref_cell \<Rightarrow> nat option \<times> ref_cell" where
  "ref_step (Put x) c = (None, ref_put_data x c)"
| "ref_step Take c = apfst oref_to_pointer (ref_take_data c)"

fun entry_step :: "'a data_op \<Rightarrow> 'a entry \<Rightarrow> 'a option \<times> 'a entry" where
  "entry_step (Put x) e = (None, put_data x e)"
| "entry_step Take e = take_data e"

fun results :: "('o \<Rightarrow> 's \<Rightarrow> 'r \<times> 's) \<Rightarrow> 'o list \<Rightarrow> 's \<Rightarrow> 'r list \<times> 's" where
  "results step [] s = ([], s)"
| "results step (x # xs) s = (let (r, s1) = step x s; (rs, s2) = results step xs s1 in (r # rs, s2))"

text \<open>The flag says whether an object lives, and the objects made are those destroyed and that one.\<close>

definition data_ok :: "bool \<Rightarrow> 'a data_cell \<Rightarrow> 'a entry \<Rightarrow> bool" where
  "data_ok trivial c e \<longleftrightarrow>
     e_data e = (if dt_has_value c then dt_data c else None) \<and>
     (dt_has_value c \<longrightarrow> dt_data c \<noteq> None) \<and>
     (if trivial then dt_destroyed c = 0
      else (dt_data c \<noteq> None \<longrightarrow> dt_has_value c) \<and> dt_made c = dt_destroyed c + (if dt_has_value c then 1 else 0))"

lemmas data_defs = data_put_def data_take_def destroy_held_def destroy_object_def andthen_def ret_def
  opt_of_value_def opt_of_nullopt_def opt_default_def

lemma data_step_ok:
  assumes "data_ok trivial c e"
  shows "\<exists>c'. data_step trivial moved x c = (Inr (fst (entry_step x e)), c') \<and>
           data_ok trivial c' (snd (entry_step x e))"
proof (cases x)
  case (Put y)
  with assms show ?thesis
    by (cases trivial; cases "dt_has_value c") (auto simp: data_ok_def data_defs put_data_def)
next
  case Take
  with assms show ?thesis
    by (cases trivial; cases "dt_has_value c") (auto simp: data_ok_def data_defs)
qed

lemma data_results_ok:
  "data_ok trivial c e \<Longrightarrow> \<exists>c'. results (data_step trivial moved) xs c = (map Inr (fst (results entry_step xs e)), c') \<and>
     data_ok trivial c' (snd (results entry_step xs e))"
proof (induction xs arbitrary: c e)
  case (Cons x xs)
  from data_step_ok [OF Cons.prems, of moved x] obtain c1 where
    c1: "data_step trivial moved x c = (Inr (fst (entry_step x e)), c1)" "data_ok trivial c1 (snd (entry_step x e))"
    by blast
  with Cons.IH [OF c1(2)] show ?case by (auto simp: split_beta)
qed simp

lemma ref_results: "results ref_step xs (e_data e) =
    (fst (results entry_step xs e), e_data (snd (results entry_step xs e)))"
proof (induction xs arbitrary: e)
  case (Cons x xs)
  have "ref_step x (e_data e) = (fst (entry_step x e), e_data (snd (entry_step x e)))"
    by (cases x) (auto simp: ref_put_data_def ref_take_data_def put_data_def oref_to_pointer_def
        oref_of_pointer_def split: option.splits)
  with Cons.IH [of "snd (entry_step x e)"] show ?case by (simp add: split_beta)
qed simp

text \<open>
  The storage with its flag, and the pointer, answer every sequence of \<open>put_data\<close> and
  \<open>take_data\<close> as the optional value of the queue's model does, and never touch an object that
  is not there. Of a type with a destructor every object made is destroyed exactly once when the entry
  is deleted after any such sequence; of one without, no destructor is called.
\<close>

theorem data_cells_are_optional_values:
  "\<exists>c. results (data_step trivial moved) xs data_ctor = (map Inr (fst (results entry_step xs empty_entry)), c) \<and>
       fst (data_destroy trivial c) = Inr () \<and>
       dt_destroyed (snd (data_destroy trivial c)) = (if trivial then 0 else dt_made c) \<and>
       results ref_step ys ref_cell_init =
         (fst (results entry_step ys empty_entry), e_data (snd (results entry_step ys empty_entry)))"
proof -
  have "data_ok trivial data_ctor empty_entry" by (simp add: data_ok_def data_ctor_def empty_entry_def)
  from data_results_ok [OF this, of moved xs] obtain c where
    c: "results (data_step trivial moved) xs data_ctor = (map Inr (fst (results entry_step xs empty_entry)), c)"
    and ok: "data_ok trivial c (snd (results entry_step xs empty_entry))" by blast
  moreover from ok have "fst (data_destroy trivial c) = Inr () \<and>
      dt_destroyed (snd (data_destroy trivial c)) = (if trivial then 0 else dt_made c)"
    by (auto simp: data_ok_def data_destroy_def destroy_held_def destroy_object_def)
  moreover have "results ref_step ys ref_cell_init =
      (fst (results entry_step ys empty_entry), e_data (snd (results entry_step ys empty_entry)))"
    using ref_results [of ys empty_entry] by (simp add: ref_cell_init_def empty_entry_def)
  ultimately show ?thesis by blast
qed

end
