(* ===== verification/Value_Categories.thy ===== *)
theory Value_Categories imports Crasy_Result Crasy_Option begin

text \<open>
  The overloads of \<open>result\<close> and \<open>option\<close> for the four value categories, and what a
  \<open>result\<close> stores (include/crasy/result.hpp, include/crasy/option.hpp). Where \<open>Crasy_Result\<close> and
  \<open>Crasy_Option\<close> say what an operation returns, here the object it is called on stays in view: a
  call on an rvalue may leave the held value moved from, the other categories do not. A held
  reference is an address, and what is read or written through it is not in the object.
\<close>

section \<open>Passing on a held value\<close>

datatype category = Lvalue | Const_lvalue | Rvalue | Const_rvalue

text \<open>
  How something is initialised from a reference of each category: what it becomes, and what is left of
  the value referred to. A parameter taken by value is a copy, and moves from an rvalue, which
  leaves \<open>moved x\<close>; a parameter that is a reference leaves the value alone.
\<close>

type_synonym ('a, 'p) binding = "category \<Rightarrow> 'a \<Rightarrow> 'p \<times> 'a"

definition by_value :: "('a \<Rightarrow> 'a) \<Rightarrow> ('a, 'a) binding" where
  "by_value moved c x = (x, if c = Rvalue then moved x else x)"

section \<open>The maps on an object\<close>

text \<open>
  The private static \<open>map\<close> of \<open>result\<close> visits the variant of an object in one category: it
  calls the function with the held value passed on, or makes an error from the held error passed on. The
  state is the object and whatever the function works on.
\<close>

definition result_static_map :: "('t, 'p) binding \<Rightarrow> ('e, 'e) binding \<Rightarrow> ('p \<Rightarrow> ('u, 'w) comp) \<Rightarrow> category
    \<Rightarrow> (('u, 'e) result, ('t, 'e) result \<times> 'w) comp" where
  "result_static_map bind bind_err f c = (\<lambda>(self, w).
     case self of
       Ok_holder x \<Rightarrow> (let (p, x1) = bind c x; (r, w1) = f p w
                       in (map_sum id (\<lambda>y. result_of_ok id (ok y)) r, Ok_holder x1, w1))
     | Err_holder e \<Rightarrow> (let (e1, e2) = bind_err c e in (Inr (result_of_err id (err e1)), Err_holder e2, w)))"

definition result_static_map_err :: "('e, 'p) binding \<Rightarrow> ('t, 't) binding \<Rightarrow> ('p \<Rightarrow> ('d, 'w) comp) \<Rightarrow> category
    \<Rightarrow> (('t, 'd) result, ('t, 'e) result \<times> 'w) comp" where
  "result_static_map_err bind bind_ok f c = (\<lambda>(self, w).
     case self of
       Err_holder e \<Rightarrow> (let (p, e1) = bind c e; (r, w1) = f p w
                        in (map_sum id (\<lambda>d. result_of_err id (err d)) r, Err_holder e1, w1))
     | Ok_holder x \<Rightarrow> (let (x1, x2) = bind_ok c x in (Inr (result_of_ok id (ok x1)), Ok_holder x2, w)))"

definition option_static_map :: "('a, 'p) binding \<Rightarrow> ('p \<Rightarrow> ('b, 'w) comp) \<Rightarrow> category
    \<Rightarrow> ('b opt, 'a opt \<times> 'w) comp" where
  "option_static_map bind f c = (\<lambda>(self, w).
     case opt_inner self of
       Some x \<Rightarrow> (let (p, x1) = bind c x; (r, w1) = f p w
                  in (map_sum id (\<lambda>y. snd (opt_emplace opt_default y)) r, Opt (Some x1), w1))
     | None \<Rightarrow> (Inr opt_default, self, w))"

text \<open>
  The members: the overload for each category hands the object to the static function in that
  category, by \<open>*this\<close>, \<open>std::move\<close> or a cast to \<^verbatim>\<open>const&&\<close>.
\<close>

fun result_map_member :: "('t, 'p) binding \<Rightarrow> ('e, 'e) binding \<Rightarrow> ('p \<Rightarrow> ('u, 'w) comp) \<Rightarrow> category
    \<Rightarrow> (('u, 'e) result, ('t, 'e) result \<times> 'w) comp" where
  "result_map_member bind bind_err f Lvalue = result_static_map bind bind_err f Lvalue"
| "result_map_member bind bind_err f Const_lvalue = result_static_map bind bind_err f Const_lvalue"
| "result_map_member bind bind_err f Rvalue = result_static_map bind bind_err f Rvalue"
| "result_map_member bind bind_err f Const_rvalue = result_static_map bind bind_err f Const_rvalue"

fun result_map_err_member :: "('e, 'p) binding \<Rightarrow> ('t, 't) binding \<Rightarrow> ('p \<Rightarrow> ('d, 'w) comp) \<Rightarrow> category
    \<Rightarrow> (('t, 'd) result, ('t, 'e) result \<times> 'w) comp" where
  "result_map_err_member bind bind_ok f Lvalue = result_static_map_err bind bind_ok f Lvalue"
| "result_map_err_member bind bind_ok f Const_lvalue = result_static_map_err bind bind_ok f Const_lvalue"
| "result_map_err_member bind bind_ok f Rvalue = result_static_map_err bind bind_ok f Rvalue"
| "result_map_err_member bind bind_ok f Const_rvalue = result_static_map_err bind bind_ok f Const_rvalue"

fun option_map_member :: "('a, 'p) binding \<Rightarrow> ('p \<Rightarrow> ('b, 'w) comp) \<Rightarrow> category
    \<Rightarrow> ('b opt, 'a opt \<times> 'w) comp" where
  "option_map_member bind f Lvalue = option_static_map bind f Lvalue"
| "option_map_member bind f Const_lvalue = option_static_map bind f Const_lvalue"
| "option_map_member bind f Rvalue = option_static_map bind f Rvalue"
| "option_map_member bind f Const_rvalue = option_static_map bind f Const_rvalue"

lemma member_static:
  "result_map_member bind bind_err f c = result_static_map bind bind_err f c"
  "result_map_err_member bind' bind_ok g c = result_static_map_err bind' bind_ok g c"
  "option_map_member bind'' k c = option_static_map bind'' k c"
  by (cases c; simp)+

text \<open>
  The maps of the reference specialisation of \<open>option\<close>: the static \<open>map\<close> emplaces into the
  object, so only the overloads for objects that are not constant can be instantiated.
\<close>

fun oref_map_member :: "(nat \<Rightarrow> ('b, 'w) comp) \<Rightarrow> category \<Rightarrow> oref \<Rightarrow> ('b opt \<times> oref, 'w) comp option" where
  "oref_map_member f Lvalue self = Some (oref_map f self)"
| "oref_map_member f Const_lvalue self = None"
| "oref_map_member f Rvalue self = Some (oref_map f self)"
| "oref_map_member f Const_rvalue self = None"

definition result_to_bool :: "('t, 'e) result \<Rightarrow> bool" where
  "result_to_bool r = is_ok r"

definition result_not :: "('t, 'e) result \<Rightarrow> bool" where
  "result_not r = is_err r"

section \<open>What a result stores\<close>

text \<open>
  \<open>holder<U>\<close> stores the value, \<open>holder<U&>\<close> a pointer. References to places are either to the
  object's own value or to an address of the memory \<open>m\<close>.
\<close>

datatype 'a holder = Value_holder 'a | Ref_holder "nat option"

datatype place = Own | At nat

definition holder_in_place :: "('c \<Rightarrow> 'a) \<Rightarrow> 'c \<Rightarrow> 'a holder" where
  "holder_in_place ctor args = Value_holder (ctor args)"

definition ref_holder_default :: "'a holder" where
  "ref_holder_default = Ref_holder None"

definition ref_holder_in_place :: "nat \<Rightarrow> 'a holder" where
  "ref_holder_in_place v = Ref_holder (Some v)"

fun holder_get :: "'a holder \<Rightarrow> fault + place" where
  "holder_get (Value_holder x) = Inr Own"
| "holder_get (Ref_holder None) = Inl (Undefined Null_deref)"
| "holder_get (Ref_holder (Some a)) = Inr (At a)"

text \<open>\<^verbatim>\<open>operator->\<close> of \<open>option<T>\<close> points to the value inside the object.\<close>

definition opt_arrow :: "'a opt \<Rightarrow> fault + place" where
  "opt_arrow o1 = (case opt_inner o1 of None \<Rightarrow> Inl (Undefined Empty_option_deref) | Some x \<Rightarrow> Inr Own)"

fun holder_ptr :: "'a holder \<Rightarrow> place option" where
  "holder_ptr (Value_holder x) = Some Own"
| "holder_ptr (Ref_holder p) = map_option At p"

text \<open>Whether the reference that \<open>get\<close> gives in a category may be written through.\<close>

fun holder_writable :: "category \<Rightarrow> 'a holder \<Rightarrow> bool" where
  "holder_writable c (Value_holder x) = (c \<in> {Lvalue, Rvalue})"
| "holder_writable c (Ref_holder p) = True"

text \<open>Copying and moving a holder, both defaulted: the member is copied or moved.\<close>

definition holder_copy :: "'a holder \<Rightarrow> 'a holder" where
  "holder_copy h = h"

fun holder_move :: "('a \<Rightarrow> 'a) \<Rightarrow> 'a holder \<Rightarrow> 'a holder \<times> 'a holder" where
  "holder_move moved (Value_holder x) = (Value_holder x, Value_holder (moved x))"
| "holder_move moved (Ref_holder p) = (Ref_holder p, Ref_holder p)"

definition place_read :: "(nat \<Rightarrow> 'a) \<Rightarrow> 'a holder \<Rightarrow> fault + 'a" where
  "place_read m h =
     (case holder_get h of
        Inl e \<Rightarrow> Inl e
      | Inr Own \<Rightarrow> (case h of Value_holder x \<Rightarrow> Inr x | Ref_holder p \<Rightarrow> Inl (Undefined Null_deref))
      | Inr (At a) \<Rightarrow> Inr (m a))"

definition place_write :: "'a \<Rightarrow> (nat \<Rightarrow> 'a) \<times> 'a holder \<Rightarrow> (nat \<Rightarrow> 'a) \<times> 'a holder" where
  "place_write v = (\<lambda>(m, h).
     case holder_get h of
       Inl e \<Rightarrow> (m, h)
     | Inr Own \<Rightarrow> (m, Value_holder v)
     | Inr (At a) \<Rightarrow> (m(a := v), h))"

text \<open>
  Passing on what a holder gives: \<open>get\<close> of an rvalue holder of a value is an rvalue, but a held
  reference is an lvalue in every category, so nothing is moved out of what it refers to.
\<close>

definition pass_held :: "('a \<Rightarrow> 'a) \<Rightarrow> (nat \<Rightarrow> 'a) \<Rightarrow> ('a holder, fault + 'a) binding" where
  "pass_held moved m c h =
     (place_read m h, case h of Value_holder x \<Rightarrow> Value_holder (snd (by_value moved c x)) | Ref_holder p \<Rightarrow> h)"

section \<open>Properties\<close>

text \<open>
  The value category a map is called in never changes what it returns, how often it calls
  the function or with what effects: all four overloads of \<open>map\<close> and \<open>map_err\<close> of a result
  and of \<open>map\<close> of an option are the map of the values. It only decides what is left of the
  object: an rvalue's held value or error is moved from, any other object is as before, and the
  object holds the same alternative as before in every case.
\<close>

theorem maps_in_every_category:
  "result_map_member (by_value m) (by_value n) f c (r, w) =
     (let (res, w1) = result_map f r w
      in (res, if c = Rvalue then (case r of Ok_holder x \<Rightarrow> Ok_holder (m x) | Err_holder e \<Rightarrow> Err_holder (n e)) else r, w1)) \<and>
   result_map_err_member (by_value n) (by_value m) g c (r, v) =
     (let (res, v1) = result_map_err g r v
      in (res, if c = Rvalue then (case r of Ok_holder x \<Rightarrow> Ok_holder (m x) | Err_holder e \<Rightarrow> Err_holder (n e)) else r, v1)) \<and>
   option_map_member (by_value k) h c (p, z) =
     (let (res, z1) = opt_map h p z in (res, if c = Rvalue then Opt (map_option k (opt_inner p)) else p, z1)) \<and>
   is_ok (fst (snd (result_map_member (by_value m) (by_value n) f c (r, w)))) = is_ok r \<and>
   opt_has_value (fst (snd (option_map_member (by_value k) h c (p, z)))) = opt_has_value p"
  by (cases r; cases p; cases "opt_inner p")
    (auto simp: member_static result_static_map_def result_static_map_err_def option_static_map_def by_value_def
      result_map_def result_map_err_def result_defs opt_defs andthen_def ret_def
      split: prod.splits sum.splits)

text \<open>
  Copies of a result that holds a value are independent, and copies of one that holds a
  reference are not: what is written through the one is read through the other. Moving
  leaves a held reference in place, even a constant result gives a reference that can be written
  through, and mapping a result of a reference passes on what is referred to, whatever the category,
  and moves nothing out of it.
\<close>

theorem result_copies_share_references:
  "place_read (fst (place_write v (m, holder_copy (Value_holder x)))) (Value_holder x) = Inr x \<and>
   place_read (fst (place_write v (m, holder_copy (ref_holder_in_place a)))) (ref_holder_in_place a) = Inr v \<and>
   holder_move moved (ref_holder_in_place a :: 'a holder) = (ref_holder_in_place a, ref_holder_in_place a) \<and>
   holder_writable c (ref_holder_in_place a :: 'a holder) \<and>
   (holder_writable c (Value_holder x) \<longleftrightarrow> c = Lvalue \<or> c = Rvalue) \<and>
   result_map_member (pass_held moved m) (by_value n) f c (Ok_holder (ref_holder_in_place a), w) =
     (let (res, w1) = f (Inr (m a)) w in (map_sum id Ok_holder res, Ok_holder (ref_holder_in_place a), w1))"
  by (auto simp: place_read_def place_write_def holder_copy_def ref_holder_in_place_def member_static
      result_static_map_def pass_held_def result_defs split: prod.splits)

end
