(* ===== verification/Type_Kinds.thy ===== *)
theory Type_Kinds imports Main begin

text \<open>
  The member types of \<open>option\<close> and \<open>result\<close>: the trait \<open>type_kinds\<close> and
  \<open>remove_rvalue_reference\<close> (include/crasy/detail.hpp), and the aliases of option.hpp and
  result.hpp, as functions on C++ types. The primary template and its specialisations are the
  equations of one function.
\<close>

section \<open>Types\<close>

text \<open>Other types of the language are one of the \<open>Object\<close>s.\<close>

datatype cpp_type =
    Void | Object nat | Const cpp_type | Pointer cpp_type | Lvalue_ref cpp_type | Rvalue_ref cpp_type

fun is_reference :: "cpp_type \<Rightarrow> bool" where
  "is_reference (Lvalue_ref t) = True"
| "is_reference (Rvalue_ref t) = True"
| "is_reference _ = False"

fun is_void :: "cpp_type \<Rightarrow> bool" where
  "is_void Void = True"
| "is_void (Const t) = is_void t"
| "is_void _ = False"

fun is_const :: "cpp_type \<Rightarrow> bool" where
  "is_const (Const t) = True"
| "is_const _ = False"

text \<open>The types there are: no reference to \<open>void\<close> or to a reference, no pointer to a reference.\<close>

fun formed :: "cpp_type \<Rightarrow> bool" where
  "formed Void = True"
| "formed (Object n) = True"
| "formed (Const t) = (formed t \<and> \<not> is_const t \<and> \<not> is_reference t)"
| "formed (Pointer t) = (formed t \<and> \<not> is_reference t)"
| "formed (Lvalue_ref t) = (formed t \<and> \<not> is_reference t \<and> \<not> is_void t)"
| "formed (Rvalue_ref t) = (formed t \<and> \<not> is_reference t \<and> \<not> is_void t)"

text \<open>\<open>std::add_const_t\<close> leaves references and constant types alone; references collapse.\<close>

definition add_const :: "cpp_type \<Rightarrow> cpp_type" where
  "add_const t = (if is_reference t \<or> is_const t then t else Const t)"

fun ref :: "cpp_type \<Rightarrow> cpp_type" where
  "ref (Lvalue_ref t) = Lvalue_ref t"
| "ref (Rvalue_ref t) = Lvalue_ref t"
| "ref t = Lvalue_ref t"

fun rref :: "cpp_type \<Rightarrow> cpp_type" where
  "rref (Lvalue_ref t) = Lvalue_ref t"
| "rref (Rvalue_ref t) = Rvalue_ref t"
| "rref t = Rvalue_ref t"

section \<open>The traits\<close>

fun remove_rvalue_reference :: "cpp_type \<Rightarrow> cpp_type" where
  "remove_rvalue_reference (Rvalue_ref u) = u"
| "remove_rvalue_reference u = u"

record kinds =
  k_value :: cpp_type
  k_reference :: cpp_type
  k_const_reference :: cpp_type
  k_rvalue_reference :: cpp_type
  k_const_rvalue_reference :: cpp_type
  k_pointer :: cpp_type
  k_const_pointer :: cpp_type

definition object_kinds :: "cpp_type \<Rightarrow> kinds" where
  "object_kinds t = \<lparr>k_value = t, k_reference = ref t, k_const_reference = ref (add_const t),
     k_rvalue_reference = rref t, k_const_rvalue_reference = rref (add_const t),
     k_pointer = Pointer t, k_const_pointer = Pointer (add_const t)\<rparr>"

fun type_kinds :: "cpp_type \<Rightarrow> kinds" where
  "type_kinds (Lvalue_ref t) = \<lparr>k_value = ref t, k_reference = ref t, k_const_reference = ref (add_const t),
     k_rvalue_reference = ref t, k_const_rvalue_reference = ref (add_const t),
     k_pointer = Pointer t, k_const_pointer = Pointer (add_const t)\<rparr>"
| "type_kinds (Rvalue_ref t) = object_kinds t"
| "type_kinds Void = \<lparr>k_value = Void, k_reference = Void, k_const_reference = Void,
     k_rvalue_reference = Void, k_const_rvalue_reference = Void, k_pointer = Void, k_const_pointer = Void\<rparr>"
| "type_kinds t = object_kinds t"

text \<open>The aliases of \<open>option<T>\<close> and of the specialisation \<open>option<T&>\<close>; those of \<open>result\<close>.\<close>

fun option_kinds :: "cpp_type \<Rightarrow> kinds" where
  "option_kinds (Lvalue_ref t) = \<lparr>k_value = ref t, k_reference = ref t, k_const_reference = ref t,
     k_rvalue_reference = ref t, k_const_rvalue_reference = ref t,
     k_pointer = Pointer t, k_const_pointer = Pointer t\<rparr>"
| "option_kinds t = object_kinds t"

definition result_ok_kinds :: "cpp_type \<Rightarrow> cpp_type \<Rightarrow> kinds" where
  "result_ok_kinds t e = type_kinds t"

definition result_err_kinds :: "cpp_type \<Rightarrow> cpp_type \<Rightarrow> kinds" where
  "result_err_kinds t e = type_kinds e"

text \<open>The option that \<open>map\<close> returns when the function returns \<open>ret\<close>.\<close>

definition map_value_type :: "cpp_type \<Rightarrow> cpp_type" where
  "map_value_type ret = remove_rvalue_reference ret"

section \<open>Properties\<close>

definition all_formed :: "kinds \<Rightarrow> bool" where
  "all_formed k \<longleftrightarrow> formed (k_value k) \<and> formed (k_reference k) \<and> formed (k_const_reference k) \<and>
     formed (k_rvalue_reference k) \<and> formed (k_const_rvalue_reference k) \<and> formed (k_pointer k) \<and>
     formed (k_const_pointer k)"

lemma add_const_formed: "formed t \<Longrightarrow> formed (add_const t)"
  by (cases t) (auto simp: add_const_def)

lemma object_kinds_formed:
  assumes "formed t" and "\<not> is_reference t" and "\<not> is_void t"
  shows "all_formed (object_kinds t)"
  using assms by (cases t) (auto simp: all_formed_def object_kinds_def add_const_def)

lemma formed_const_void: "formed t \<Longrightarrow> is_void t \<Longrightarrow> t = Void \<or> t = Const Void"
proof (cases t)
  case (Const u)
  assume "formed t" "is_void t"
  with Const show ?thesis by (cases u) simp_all
qed simp_all

text \<open>
  The member types of a \<open>result\<close> exist for every type but \<open>const void\<close>, references and
  \<open>void\<close> included, and the type an option has after \<open>map\<close> is never an rvalue reference.
  \<open>option<T>\<close> has the same member types as \<open>type_kinds<T>\<close>, except that \<open>option<T&>\<close>
  gives access to a \<open>T\<close> where \<open>type_kinds<T&>\<close> says \<open>const T\<close>: they agree on \<open>T&\<close> exactly when
  \<open>T\<close> is constant.
\<close>

theorem member_types:
  assumes "formed t" and "t \<noteq> Const Void"
  shows "all_formed (result_ok_kinds t e) \<and> all_formed (result_err_kinds e t) \<and>
    formed (map_value_type t) \<and> (\<forall>u. map_value_type t \<noteq> Rvalue_ref u) \<and>
    (case t of
       Lvalue_ref u \<Rightarrow> (option_kinds t = type_kinds t \<longleftrightarrow> is_const u)
     | Rvalue_ref u \<Rightarrow> type_kinds t = type_kinds u
     | Void \<Rightarrow> k_reference (type_kinds t) = Void
     | _ \<Rightarrow> option_kinds t = type_kinds t)"
proof (cases t)
  case (Lvalue_ref u)
  with assms show ?thesis
    by (cases u) (auto simp: all_formed_def result_ok_kinds_def result_err_kinds_def map_value_type_def add_const_def)
next
  case (Rvalue_ref u)
  with assms object_kinds_formed [of u] show ?thesis
    by (cases u) (auto simp: result_ok_kinds_def result_err_kinds_def map_value_type_def)
next
  case (Const u)
  with assms formed_const_void [of t] have "\<not> is_void t" by auto
  with assms Const object_kinds_formed [of t] show ?thesis
    by (simp add: result_ok_kinds_def result_err_kinds_def map_value_type_def)
qed (use assms object_kinds_formed [of t] in
      \<open>simp_all add: result_ok_kinds_def result_err_kinds_def map_value_type_def all_formed_def\<close>)

theorem member_types_witness:
  "option_kinds (Lvalue_ref (Object 1)) \<noteq> type_kinds (Lvalue_ref (Object 1)) \<and>
   all_formed (result_ok_kinds (Lvalue_ref (Object 1)) Void)"
  using member_types [of "Lvalue_ref (Object 1)" Void] by simp

end
