(* ===== verification/Special_Members.thy ===== *)
theory Special_Members imports Main begin

text \<open>
  Which objects can be copied and moved: the special members that the classes of the library declare, default or
  delete, and C++20's rules for the ones they do not declare, through the members down to the types of the standard library.
  Types from outside, asio's and the user's, are a parameter, as what they allow.
\<close>

section \<open>Declarations\<close>

datatype special_op = Copy_ctor | Move_ctor | Copy_assign | Move_assign

datatype decl = Undeclared | Defaulted | Deleted | Provided

record special =
  sp_op :: "special_op \<Rightarrow> decl"
  sp_dtor :: decl

fun declares :: "decl \<Rightarrow> decl \<Rightarrow> decl \<Rightarrow> decl \<Rightarrow> special_op \<Rightarrow> decl" where
  "declares cc mc ca ma Copy_ctor = cc"
| "declares cc mc ca ma Move_ctor = mc"
| "declares cc mc ca ma Copy_assign = ca"
| "declares cc mc ca ma Move_assign = ma"

definition none_declared :: special where
  "none_declared = \<lparr>sp_op = declares Undeclared Undeclared Undeclared Undeclared, sp_dtor = Undeclared\<rparr>"

definition all_defaulted :: special where
  "all_defaulted = \<lparr>sp_op = declares Defaulted Defaulted Defaulted Defaulted, sp_dtor = Defaulted\<rparr>"

definition all_deleted :: "decl \<Rightarrow> special" where
  "all_deleted dtor = \<lparr>sp_op = declares Deleted Deleted Deleted Deleted, sp_dtor = dtor\<rparr>"

definition moves_only :: "decl \<Rightarrow> decl \<Rightarrow> special" where
  "moves_only move dtor = \<lparr>sp_op = declares Deleted move Deleted move, sp_dtor = dtor\<rparr>"

text \<open>One definition for each class that declares any.\<close>

definition option_special :: special where "option_special = all_defaulted"
definition option_ref_special :: special where "option_ref_special = all_defaulted"
definition result_special :: special where "result_special = all_defaulted"
definition holder_special :: special where "holder_special = all_defaulted"
definition ref_holder_special :: special where "ref_holder_special = all_defaulted"
definition void_holder_special :: special where "void_holder_special = all_defaulted"
definition ipv4_special :: special where "ipv4_special = all_defaulted"
definition ipv6_special :: special where "ipv6_special = all_defaulted"
definition ip_special :: special where "ip_special = all_defaulted"
definition endpoint_special :: special where "endpoint_special = all_defaulted"
definition udp_special :: special where "udp_special = moves_only Defaulted Defaulted"
definition join_handle_special :: special where "join_handle_special = moves_only Defaulted Defaulted"
definition future_special :: special where "future_special = moves_only Provided Provided"
definition future_void_special :: special where "future_void_special = moves_only Provided Provided"
definition join_impl_special :: special where "join_impl_special = moves_only Provided Provided"
definition join_impl_void_special :: special where "join_impl_void_special = moves_only Provided Provided"
definition blocking_special :: special where "blocking_special = moves_only Provided Provided"
definition blocking_void_special :: special where "blocking_void_special = moves_only Provided Provided"
definition stream_special :: special where "stream_special = moves_only Provided Provided"
definition lock_guard_special :: special where "lock_guard_special = moves_only Provided Provided"
definition unique_lock_special :: special where "unique_lock_special = moves_only Provided Provided"
definition state_base_special :: special where "state_base_special = all_deleted Defaulted"
definition state_t_special :: special where "state_t_special = all_deleted Defaulted"
definition state_base_void_special :: special where "state_base_void_special = all_deleted Defaulted"
definition state_t_void_special :: special where "state_t_void_special = all_deleted Defaulted"
definition mutex_special :: special where "mutex_special = all_deleted Defaulted"
definition shared_mutex_special :: special where "shared_mutex_special = all_deleted Defaulted"
definition cv_special :: special where "cv_special = all_deleted Defaulted"
definition lfqueue_special :: special where "lfqueue_special = all_deleted Provided"
definition executor_special :: special where "executor_special = all_deleted Provided"
definition exec_guard_special :: special where "exec_guard_special = all_deleted Provided"
definition data_special :: special where "data_special = none_declared\<lparr>sp_dtor := Provided\<rparr>"

section \<open>Types\<close>

text \<open>
  \<open>Plain\<close> are numbers, pointers, coroutine handles and exception pointers; \<open>Outside\<close> are asio's types and
  the user's. A base class counts as a member. The arguments of \<open>Result\<close> are its two holders, \<open>Holder t\<close>,
  \<open>Ref_holder\<close> or \<open>Void_holder\<close>; those of \<open>Wait_future\<close> and \<open>Op_future\<close> are the awaiter and the result that they store.
\<close>

datatype cxx =
    Plain | Atomic | Std_mutex | Std_condition_variable | Std_thread | Optional cxx | Variant cxx cxx | Outside nat
  | Option cxx | Option_ref | Holder cxx | Ref_holder | Void_holder | Result cxx cxx
  | Ipv4_address | Ipv6_address | Ip_address | Endpoint | Udp_socket
  | Future | Future_void | Join_impl | Join_impl_void | Join_handle | Join_handle_void
  | Blocking_handle | Blocking_handle_void | State_base cxx | State_t cxx cxx | State_base_void | State_t_void cxx
  | Stream | Lock_guard | Unique_lock | Mutex | Shared_mutex | Mutex_lock_future | Shared_lock_future | Shared_lock_shared_future
  | Condition_variable | Wait_future cxx | Data cxx | Entry cxx | Lfqueue cxx | Executor | Exec_guard
  | Io_future | Op_future cxx | Sleep_future

definition address_v4 :: cxx where "address_v4 = Outside 0"
definition address_v6 :: cxx where "address_v6 = Outside 1"
definition address_any :: cxx where "address_any = Outside 2"
definition asio_socket :: cxx where "asio_socket = Outside 3"
definition asio_timer :: cxx where "asio_timer = Outside 4"
definition asio_context :: cxx where "asio_context = Outside 5"

lemmas outside_defs = address_v4_def address_v6_def address_any_def asio_socket_def asio_timer_def asio_context_def

fun special_of :: "cxx \<Rightarrow> special" where
  "special_of (Option t) = option_special"
| "special_of Option_ref = option_ref_special"
| "special_of (Holder t) = holder_special"
| "special_of Ref_holder = ref_holder_special"
| "special_of Void_holder = void_holder_special"
| "special_of (Result t e) = result_special"
| "special_of Ipv4_address = ipv4_special"
| "special_of Ipv6_address = ipv6_special"
| "special_of Ip_address = ip_special"
| "special_of Endpoint = endpoint_special"
| "special_of Udp_socket = udp_special"
| "special_of Future = future_special"
| "special_of Future_void = future_void_special"
| "special_of Join_impl = join_impl_special"
| "special_of Join_impl_void = join_impl_void_special"
| "special_of Join_handle = join_handle_special"
| "special_of Join_handle_void = join_handle_special"
| "special_of Blocking_handle = blocking_special"
| "special_of Blocking_handle_void = blocking_void_special"
| "special_of (State_base t) = state_base_special"
| "special_of (State_t t f) = state_t_special"
| "special_of State_base_void = state_base_void_special"
| "special_of (State_t_void f) = state_t_void_special"
| "special_of Stream = stream_special"
| "special_of Lock_guard = lock_guard_special"
| "special_of Unique_lock = unique_lock_special"
| "special_of Mutex = mutex_special"
| "special_of Shared_mutex = shared_mutex_special"
| "special_of Condition_variable = cv_special"
| "special_of (Data t) = data_special"
| "special_of (Lfqueue t) = lfqueue_special"
| "special_of Executor = executor_special"
| "special_of Exec_guard = exec_guard_special"
| "special_of _ = none_declared"

fun members_of :: "cxx \<Rightarrow> cxx list" where
  "members_of (Optional t) = [t]"
| "members_of (Variant t e) = [t, e]"
| "members_of (Option t) = [Optional t]"
| "members_of Option_ref = [Plain]"
| "members_of (Holder t) = [t]"
| "members_of Ref_holder = [Plain]"
| "members_of (Result t e) = [Variant t e]"
| "members_of Ipv4_address = [address_v4]"
| "members_of Ipv6_address = [address_v6]"
| "members_of Ip_address = [address_any]"
| "members_of Endpoint = [Ip_address, Plain]"
| "members_of Udp_socket = [asio_socket, Option Endpoint, Option Endpoint]"
| "members_of Join_handle = [Join_impl]"
| "members_of Join_handle_void = [Join_impl_void]"
| "members_of (State_base t) = [Std_mutex, Option t, Plain, Plain, Plain]"
| "members_of (State_t t f) = [State_base t, f]"
| "members_of State_base_void = [Std_mutex, Plain, Plain, Plain]"
| "members_of (State_t_void f) = [State_base_void, f]"
| "members_of Unique_lock = [Plain, Plain]"
| "members_of Mutex = [Atomic, Lfqueue Plain]"
| "members_of Shared_mutex = [Atomic, Lfqueue Plain]"
| "members_of Mutex_lock_future = [Plain]"
| "members_of Shared_lock_future = [Plain, Plain]"
| "members_of Shared_lock_shared_future = [Plain]"
| "members_of Condition_variable = [Lfqueue Plain]"
| "members_of (Wait_future aw) = [Plain, Plain, Plain, Plain, Plain, Option aw]"
| "members_of (Data t) = [t, Atomic]"
| "members_of (Entry t) = [Data t, Atomic]"
| "members_of (Lfqueue t) = [Atomic, Atomic, Atomic]"
| "members_of Executor = [asio_context, Std_thread, Std_thread, Plain, Lfqueue Plain, Std_mutex, Std_condition_variable,
     Std_mutex, Std_condition_variable, Atomic, Plain, Plain, Plain]"
| "members_of Io_future = [Atomic]"
| "members_of (Op_future t) = [Io_future, Option t]"
| "members_of Sleep_future = [asio_timer, Plain]"
| "members_of c = (if c \<in> {Future, Future_void, Join_impl, Join_impl_void, Blocking_handle, Blocking_handle_void, Stream,
     Lock_guard, Exec_guard} then [Plain] else [])"

fun weight :: "cxx \<Rightarrow> nat" where
  "weight (Optional t) = weight t + 1"
| "weight (Variant t e) = weight t + weight e + 1"
| "weight (Option t) = weight t + 2"
| "weight (Holder t) = weight t + 1"
| "weight (Result t e) = weight t + weight e + 2"
| "weight (State_base t) = weight t + 3"
| "weight (State_t t f) = weight t + weight f + 4"
| "weight (State_t_void f) = weight f + 3"
| "weight (Wait_future aw) = weight aw + 3"
| "weight (Data t) = weight t + 1"
| "weight (Entry t) = weight t + 2"
| "weight (Lfqueue t) = 1"
| "weight (Op_future t) = weight t + 3"
| "weight Endpoint = 3"
| "weight Udp_socket = 6"
| "weight Join_impl = 1"
| "weight Join_impl_void = 1"
| "weight c = (if members_of c = [] then 0 else 2)"

lemma members_lighter: "m \<in> set (members_of c) \<Longrightarrow> weight m < weight c"
  by (cases c) (auto simp: outside_defs)

section \<open>The rules\<close>

text \<open>
  A class allows an operation if it provides it, or has it by default and every member allows it. A move that is not
  there, or that a member does not allow, is a copy; an operation that is deleted is chosen and does not compile. The
  copies go undeclared with any move, the moves with any other special member.
\<close>

definition others_undeclared :: "special \<Rightarrow> special_op \<Rightarrow> bool" where
  "others_undeclared d op \<longleftrightarrow>
     list_all (\<lambda>o'. o' = op \<or> sp_op d o' = Undeclared) [Copy_ctor, Move_ctor, Copy_assign, Move_assign] \<and>
     sp_dtor d = Undeclared"

fun copy_of :: "special_op \<Rightarrow> special_op" where
  "copy_of Move_ctor = Copy_ctor"
| "copy_of Move_assign = Copy_assign"
| "copy_of op = op"

definition class_copies :: "special \<Rightarrow> (special_op \<Rightarrow> bool) \<Rightarrow> special_op \<Rightarrow> bool" where
  "class_copies d members op =
     (case sp_op d op of
        Deleted \<Rightarrow> False
      | Provided \<Rightarrow> True
      | Defaulted \<Rightarrow> members op
      | Undeclared \<Rightarrow> sp_op d Move_ctor = Undeclared \<and> sp_op d Move_assign = Undeclared \<and> members op)"

definition class_moves :: "special \<Rightarrow> (special_op \<Rightarrow> bool) \<Rightarrow> special_op \<Rightarrow> bool" where
  "class_moves d members op =
     (case sp_op d op of
        Deleted \<Rightarrow> False
      | Provided \<Rightarrow> True
      | Defaulted \<Rightarrow> members op \<or> class_copies d members (copy_of op)
      | Undeclared \<Rightarrow> others_undeclared d op \<and> members op \<or> class_copies d members (copy_of op))"

definition class_allows :: "special \<Rightarrow> (special_op \<Rightarrow> bool) \<Rightarrow> special_op \<Rightarrow> bool" where
  "class_allows d members op = (if copy_of op = op then class_copies d members op else class_moves d members op)"

text \<open>\<^verbatim>\<open>std::optional\<close> and \<^verbatim>\<open>std::variant\<close> assign by constructing as well.\<close>

fun wrapper_allows :: "(special_op \<Rightarrow> bool) \<Rightarrow> special_op \<Rightarrow> bool" where
  "wrapper_allows members Copy_assign = (members Copy_ctor \<and> members Copy_assign)"
| "wrapper_allows members Move_assign = (members Move_ctor \<and> members Move_assign)"
| "wrapper_allows members op = members op"

fun allows_by :: "(nat \<Rightarrow> special_op \<Rightarrow> bool) \<Rightarrow> cxx \<Rightarrow> (special_op \<Rightarrow> bool) \<Rightarrow> special_op \<Rightarrow> bool" where
  "allows_by A Plain members op = True"
| "allows_by A Atomic members op = False"
| "allows_by A Std_mutex members op = False"
| "allows_by A Std_condition_variable members op = False"
| "allows_by A Std_thread members op = (copy_of op \<noteq> op)"
| "allows_by A (Optional t) members op = wrapper_allows members op"
| "allows_by A (Variant t e) members op = wrapper_allows members op"
| "allows_by A (Outside n) members op = A n op"
| "allows_by A c members op = class_allows (special_of c) members op"

function allows :: "(nat \<Rightarrow> special_op \<Rightarrow> bool) \<Rightarrow> cxx \<Rightarrow> special_op \<Rightarrow> bool" where
  "allows A c op = allows_by A c (\<lambda>o'. list_all (\<lambda>m. allows A m o') (members_of c)) op"
  by auto
termination by (relation "measure (\<lambda>(A, c, op). weight c)") (auto dest: members_lighter)

declare allows.simps [simp del]

text \<open>Whether the destructor of an object does anything, by itself or through a member.\<close>

function releases :: "cxx \<Rightarrow> bool" where
  "releases c \<longleftrightarrow> sp_dtor (special_of c) = Provided \<or> list_ex releases (members_of c)"
  by auto
termination by (relation "measure weight") (auto dest: members_lighter)

declare releases.simps [simp del]

lemmas special_defs = option_special_def option_ref_special_def result_special_def holder_special_def
  ref_holder_special_def void_holder_special_def ipv4_special_def ipv6_special_def ip_special_def
  endpoint_special_def udp_special_def join_handle_special_def future_special_def future_void_special_def
  join_impl_special_def join_impl_void_special_def blocking_special_def blocking_void_special_def
  stream_special_def lock_guard_special_def unique_lock_special_def state_base_special_def state_t_special_def
  state_base_void_special_def state_t_void_special_def mutex_special_def shared_mutex_special_def cv_special_def
  lfqueue_special_def executor_special_def exec_guard_special_def data_special_def
  none_declared_def all_defaulted_def all_deleted_def moves_only_def
lemmas class_defs = class_allows_def class_copies_def class_moves_def others_undeclared_def special_defs

section \<open>Properties\<close>

text \<open>
  Nothing that releases something in a destructor of the library, its own or a member's, can be copied or assigned from
  without being moved: no object is released twice because there were two copies of it.
\<close>

theorem nothing_copied_releases:
  assumes "allows A c op" and "op \<in> {Copy_ctor, Copy_assign}"
  shows "\<not> releases c"
  using assms
proof (induction A c op rule: allows.induct)
  case (1 A c op)
  have op: "copy_of op = op" using 1(3) by auto
  have "sp_dtor (special_of c) \<noteq> Provided \<and> list_all (\<lambda>m. allows A m op) (members_of c)"
    using 1(2,3) op unfolding allows.simps [of A c]
    by (cases c) (auto simp: class_defs outside_defs allows.simps [of A Atomic])
  with 1(1,3) show ?case unfolding releases.simps [of c] by (auto simp: list_all_iff list_ex_iff)
qed

theorem nothing_copied_releases_witness: "\<not> releases Endpoint"
proof (rule nothing_copied_releases)
  show "allows (\<lambda>n op. True) Endpoint Copy_ctor"
    by (simp add: allows.simps [of _ Endpoint] allows.simps [of _ Ip_address] allows.simps [of _ Plain] allows.simps [of _ "Outside n" for n]
        address_any_def class_defs)
qed simp

text \<open>What can be copied can be moved, as long as that holds of the types from outside.\<close>

definition moves_copies :: "(special_op \<Rightarrow> bool) \<Rightarrow> bool" where
  "moves_copies f \<longleftrightarrow> (f Copy_ctor \<longrightarrow> f Move_ctor) \<and> (f Copy_assign \<longrightarrow> f Move_assign)"

lemma class_moves_copies:
  assumes "sp_op d Move_ctor = Deleted \<longrightarrow> sp_op d Copy_ctor = Deleted"
    and "sp_op d Move_assign = Deleted \<longrightarrow> sp_op d Copy_assign = Deleted"
  shows "moves_copies (class_allows d f)"
  using assms by (auto simp: moves_copies_def class_allows_def class_moves_def split: decl.splits) (simp_all add: class_copies_def)

lemma special_of_moves:
  "sp_op (special_of c) Move_ctor = Deleted \<longrightarrow> sp_op (special_of c) Copy_ctor = Deleted"
  "sp_op (special_of c) Move_assign = Deleted \<longrightarrow> sp_op (special_of c) Copy_assign = Deleted"
  by (cases c; simp add: special_defs)+

lemma allows_by_moves_copies:
  assumes "moves_copies f" and "\<And>n. moves_copies (A n)"
  shows "moves_copies (allows_by A c f)"
proof -
  have "moves_copies (class_allows (special_of c) f)" by (rule class_moves_copies [OF special_of_moves])
  with assms show ?thesis by (cases c) (auto simp: moves_copies_def)
qed

theorem what_is_copied_can_be_moved:
  assumes "\<And>n. moves_copies (A n)"
  shows "moves_copies (allows A c)"
proof (induction c rule: releases.induct)
  case (1 c)
  then have "moves_copies (\<lambda>o'. list_all (\<lambda>m. allows A m o') (members_of c))"
    by (auto simp: moves_copies_def list_all_iff)
  from allows_by_moves_copies [OF this assms, where c = c] show ?case
    by (simp add: moves_copies_def allows.simps [of A c])
qed

theorem what_is_copied_can_be_moved_witness: "moves_copies (allows (\<lambda>n op. n \<noteq> 5 \<and> (n = 3 \<longrightarrow> copy_of op \<noteq> op)) Udp_socket)"
  by (rule what_is_copied_can_be_moved) (simp add: moves_copies_def)

text \<open>What the three ways to declare all of them come to.\<close>

lemma class_kinds:
  "class_allows all_defaulted f op = (f op \<or> f (copy_of op))"
  "class_allows (moves_only Provided dtor) f op = (copy_of op \<noteq> op)"
  "class_allows (all_deleted dtor) f op = False"
  by (cases op; simp add: class_defs)+

lemma handles_move_only:
  assumes "c \<in> {Future, Future_void, Join_impl, Join_impl_void, Blocking_handle, Blocking_handle_void, Stream, Lock_guard, Unique_lock}"
  shows "allows A c op = (copy_of op \<noteq> op)"
  using assms
  by (auto simp: allows.simps [of A c] future_special_def future_void_special_def join_impl_special_def
      join_impl_void_special_def blocking_special_def blocking_void_special_def stream_special_def
      lock_guard_special_def unique_lock_special_def class_kinds)

lemma shared_objects_stay:
  assumes "c \<in> {Mutex, Shared_mutex, Condition_variable, Executor, Exec_guard, State_base t, State_t t f, Lfqueue t}"
  shows "\<not> allows A c op"
  using assms
  by (auto simp: allows.simps [of A c] mutex_special_def shared_mutex_special_def cv_special_def executor_special_def
      exec_guard_special_def state_base_special_def state_t_special_def lfqueue_special_def class_kinds)

lemma undeclared_class:
  "class_allows none_declared f op = (f op \<or> f (copy_of op))"
  by (cases op; simp add: class_defs)

lemma operations_stay: "\<not> allows A (Op_future t) op"
  by (simp add: allows.simps [of A "Op_future t" for t] allows.simps [of A Io_future] allows.simps [of A Atomic] undeclared_class)

lemma value_copies:
  "allows A (Option t) Copy_ctor = allows A t Copy_ctor"
  "allows A (Result (Holder t) (Holder e)) Copy_ctor = (allows A t Copy_ctor \<and> allows A e Copy_ctor)"
  by (simp_all add: allows.simps [of A "Option t" for t] allows.simps [of A "Optional t" for t] allows.simps [of A "Holder t" for t]
      allows.simps [of A "Result t e" for t e] allows.simps [of A "Variant t e" for t e]
      option_special_def result_special_def holder_special_def class_kinds)

lemma waiting_futures_move:
  "allows A Sleep_future Move_ctor = (A 4 Move_ctor \<or> A 4 Copy_ctor)"
  "allows A (Wait_future aw) Copy_ctor = allows A aw Copy_ctor"
  by (simp_all add: allows.simps [of A Sleep_future] allows.simps [of A "Wait_future t" for t] allows.simps [of A Plain]
      allows.simps [of A "Option t" for t] allows.simps [of A "Optional t" for t] allows.simps [of A "Outside n" for n]
      asio_timer_def undeclared_class option_special_def class_kinds)

text \<open>
  An option and a result can be copied as what they hold; handles and guards can be moved only; and what
  others point to while they wait, mutexes, condition variables, executors, blocks of \<open>spawn_blocking\<close> and the futures of
  I/O operations, stays where it is. The exceptions are the futures of a sleep and of a wait for a condition
  variable: a pointer to them is kept while they wait, and yet they can be moved.
\<close>

theorem copies_and_moves:
  "(allows A (Option t) Copy_ctor = allows A t Copy_ctor \<and>
    allows A (Result (Holder t) (Holder e)) Copy_ctor = (allows A t Copy_ctor \<and> allows A e Copy_ctor)) \<and>
   (\<forall>c \<in> {Future, Future_void, Join_impl, Join_impl_void, Blocking_handle, Blocking_handle_void, Stream, Lock_guard, Unique_lock}.
      \<forall>op. allows A c op = (copy_of op \<noteq> op)) \<and>
   (\<forall>c \<in> {Mutex, Shared_mutex, Condition_variable, Executor, Exec_guard, State_base t, State_t t f, Lfqueue t, Op_future t}.
      \<forall>op. \<not> allows A c op) \<and>
   (A 4 Move_ctor \<longrightarrow> allows A Sleep_future Move_ctor) \<and> (allows A aw Copy_ctor \<longrightarrow> allows A (Wait_future aw) Copy_ctor)"
  using handles_move_only shared_objects_stay operations_stay by (simp add: value_copies waiting_futures_move)

end
