(* ===== verification/Lock_Interface.thy ===== *)
theory Lock_Interface imports Prelude begin

text \<open>
  What the lock functions and guards (include/crasy/lock_guard.hpp, unique_lock.hpp) need of the
  type they are instantiated with. Lockable objects are named by numbers and live in a world
  \<open>'w\<close>; \<open>status\<close> is what the object's state says. \<open>try_lock\<close> and \<open>unlock\<close>
  are provided by \<^verbatim>\<open>mutex\<close> and \<^verbatim>\<open>shared_mutex\<close>.
\<close>

datatype lstat = Free | Exclusive | Shared

section \<open>The templates, for any lockable type\<close>

text \<open>\<open>detail::try_lock_impl\<close>: how many of the mutexes were locked, all of them or none staying so.\<close>

fun try_lock_impl :: "(nat \<Rightarrow> (bool, 'w) prog) \<Rightarrow> (nat \<Rightarrow> (unit, 'w) prog) \<Rightarrow> nat list \<Rightarrow> (nat, 'w) prog" where
  "try_lock_impl try_lock unlock [] = pret 0"
| "try_lock_impl try_lock unlock (mtx1 # mtxn) =
     pthen (try_lock mtx1) (\<lambda>got.
       if got
       then pthen (try_lock_impl try_lock unlock mtxn) (\<lambda>cnt.
              pthen (if cnt \<noteq> length mtxn then unlock mtx1 else pret ()) (\<lambda>_.
                pret (1 + cnt)))
       else pret 0)"

function lock_rotate_and_call :: "(nat list \<Rightarrow> 'r) \<Rightarrow> nat \<Rightarrow> nat list \<Rightarrow> 'r" where
  "lock_rotate_and_call func count [] = func []"
| "lock_rotate_and_call func count (mtx1 # mtxn) =
     (if count = 0 then func (mtx1 # mtxn)
      else lock_rotate_and_call func (count - 1) (mtxn @ [mtx1]))"
  by pat_completeness auto
termination by (relation "measure (\<lambda>(func, count, mtxs). count)") auto

text \<open>
  \<open>detail::lock_impl\<close>. \<open>acquire m\<close> is \<^verbatim>\<open>co_await m.lock()\<close>, during which other
  tasks may run.
\<close>

definition lock_impl_body ::
    "(nat \<Rightarrow> (unit, 'w) prog) \<Rightarrow> (nat \<Rightarrow> (bool, 'w) prog) \<Rightarrow> (nat \<Rightarrow> (unit, 'w) prog)
      \<Rightarrow> nat \<Rightarrow> nat list \<Rightarrow> (nat, 'w) prog" where
  "lock_impl_body acquire try_lock unlock start mtxs =
     (let m1 = hd mtxs; mn = tl mtxs
      in pthen (acquire m1) (\<lambda>_.
         pthen (try_lock_impl try_lock unlock mn) (\<lambda>ret.
           if ret = length mn then pret (ret + 1)
           else pthen (unlock m1) (\<lambda>_. pret ((start + ret + 1) mod (length mn + 1))))))"

definition lock_impl ::
    "(nat \<Rightarrow> (unit, 'w) prog) \<Rightarrow> (nat \<Rightarrow> (bool, 'w) prog) \<Rightarrow> (nat \<Rightarrow> (unit, 'w) prog)
      \<Rightarrow> nat \<Rightarrow> nat list \<Rightarrow> (nat, 'w) prog" where
  "lock_impl acquire try_lock unlock start mtxs =
     lock_rotate_and_call (lock_impl_body acquire try_lock unlock start) start mtxs"

text \<open>The loop of \<open>lock(m1, m2, ...)\<close>, entered with \<open>i = 0\<close>.\<close>

partial_function (option) lock_loop ::
    "(nat \<Rightarrow> (unit, 'w) prog) \<Rightarrow> (nat \<Rightarrow> (bool, 'w) prog) \<Rightarrow> (nat \<Rightarrow> (unit, 'w) prog)
      \<Rightarrow> nat list \<Rightarrow> nat \<Rightarrow> 'w \<Rightarrow> ((fault + unit) \<times> 'w) option" where
  "lock_loop acquire try_lock unlock mtxs i w =
     (case lock_impl acquire try_lock unlock i mtxs w of
        None \<Rightarrow> None
      | Some (r, w1) \<Rightarrow>
          (case r of
             Inl f \<Rightarrow> Some (Inl f, w1)
           | Inr i1 \<Rightarrow> if i1 \<noteq> length mtxs then lock_loop acquire try_lock unlock mtxs i1 w1
                       else Some (Inr (), w1)))"

definition lock_all ::
    "(nat \<Rightarrow> (unit, 'w) prog) \<Rightarrow> (nat \<Rightarrow> (bool, 'w) prog) \<Rightarrow> (nat \<Rightarrow> (unit, 'w) prog)
      \<Rightarrow> nat list \<Rightarrow> (nat option list, 'w) prog" where
  "lock_all acquire try_lock unlock mtxs =
     pthen (lock_loop acquire try_lock unlock mtxs 0) (\<lambda>_. pret (map Some mtxs))"

lemma lock_rotate_and_call_rotate: "lock_rotate_and_call func n ms = func (rotate n ms)"
proof (induction func n ms rule: lock_rotate_and_call.induct)
  case (2 func count m1 mn)
  then show ?case by (cases count) (simp_all add: rotate1_rotate_swap rotate1_rotate_swap [symmetric])
qed simp

text \<open>How far \<open>try_lock_impl\<close> gets from a given status of the objects.\<close>

fun first_taken :: "(nat \<Rightarrow> lstat) \<Rightarrow> nat list \<Rightarrow> nat" where
  "first_taken st [] = 0"
| "first_taken st (m # ms) = (if st m = Free then Suc (first_taken (st(m := Exclusive)) ms) else 0)"

definition take_all :: "(nat \<Rightarrow> lstat) \<Rightarrow> nat list \<Rightarrow> nat \<Rightarrow> lstat" where
  "take_all st ms = (\<lambda>i. if i \<in> set ms then Exclusive else st i)"

lemma first_taken_le: "first_taken st ms \<le> length ms"
  by (induction ms arbitrary: st) auto

lemma first_taken_all:
  "first_taken st ms = length ms \<longleftrightarrow> distinct ms \<and> (\<forall>m \<in> set ms. st m = Free)"
  by (induction ms arbitrary: st) (auto split: if_splits)

lemma first_taken_blocked:
  "first_taken st ms < length ms \<Longrightarrow> distinct ms \<Longrightarrow> st (ms ! first_taken st ms) \<noteq> Free"
proof (induction ms arbitrary: st)
  case (Cons m ms)
  show ?case
  proof (cases "st m = Free")
    case True
    let ?k = "first_taken (st(m := Exclusive)) ms"
    from True Cons.prems have k: "?k < length ms" and "m \<notin> set ms" by auto
    with nth_mem [OF k] have "ms ! ?k \<noteq> m" by metis
    from Cons.prems(2) have "(st(m := Exclusive)) (ms ! ?k) \<noteq> Free" by (intro Cons.IH [OF k]) simp
    with \<open>ms ! ?k \<noteq> m\<close> have "st (ms ! ?k) \<noteq> Free" by (metis fun_upd_other)
    with True show ?thesis by simp
  qed simp
qed simp

lemma take_all_simps [simp]:
  "take_all st [] = st" "take_all (st(m := Exclusive)) ms = take_all st (m # ms)"
  by (auto simp: take_all_def fun_eq_iff)

section \<open>The contract\<close>

locale lockable =
  fixes try_lock :: "nat \<Rightarrow> (bool, 'w) prog"
    and unlock :: "nat \<Rightarrow> (unit, 'w) prog"
    and status :: "'w \<Rightarrow> nat \<Rightarrow> lstat"
    and ok :: "'w \<Rightarrow> bool"
  assumes try_free: "ok w \<Longrightarrow> status w i = Free \<Longrightarrow>
      \<exists>w'. try_lock i w = Some (Inr True, w') \<and> ok w' \<and> status w' = (status w)(i := Exclusive)"
    and try_taken: "ok w \<Longrightarrow> status w i \<noteq> Free \<Longrightarrow>
      \<exists>w'. try_lock i w = Some (Inr False, w') \<and> ok w' \<and> status w' = status w"
    and unlock_held: "ok w \<Longrightarrow> status w i = Exclusive \<Longrightarrow>
      \<exists>w'. unlock i w = Some (Inr (), w') \<and> ok w' \<and> status w' = (status w)(i := Free)"
begin

text \<open>All or nothing: the whole list ends up locked, or the status is what it was.\<close>

lemma try_lock_impl_result:
  assumes "ok w"
  shows "\<exists>w'. try_lock_impl try_lock unlock ms w = Some (Inr (first_taken (status w) ms), w') \<and> ok w' \<and>
           status w' = (if first_taken (status w) ms = length ms then take_all (status w) ms else status w)"
  using assms
proof (induction ms arbitrary: w)
  case (Cons m ms)
  show ?case
  proof (cases "status w m = Free")
    case free: True
    then obtain w1 where w1: "try_lock m w = Some (Inr True, w1)" "ok w1"
      "status w1 = (status w)(m := Exclusive)"
      using try_free [OF Cons.prems] by blast
    from Cons.IH [OF w1(2)] obtain w2 where w2:
      "try_lock_impl try_lock unlock ms w1 = Some (Inr (first_taken (status w1) ms), w2)" "ok w2"
      "status w2 = (if first_taken (status w1) ms = length ms then take_all (status w1) ms else status w1)"
      by blast
    show ?thesis
    proof (cases "first_taken (status w1) ms = length ms")
      case True
      with free w1 w2 show ?thesis by (simp add: comp_run)
    next
      case False
      with w1 w2 have "status w2 m = Exclusive" by simp
      with unlock_held [OF w2(2)] obtain w3 where "unlock m w2 = Some (Inr (), w3)" "ok w3"
        "status w3 = (status w2)(m := Free)" by blast
      moreover from free have "(status w)(m := Free) = status w" by (simp add: fun_eq_iff)
      ultimately show ?thesis using False free w1 w2 by (simp add: comp_run)
    qed
  next
    case False
    with try_taken [OF Cons.prems] obtain w1 where "try_lock m w = Some (Inr False, w1)" "ok w1"
      "status w1 = status w" by blast
    with False show ?thesis by (simp add: comp_run)
  qed
qed (simp add: comp_run)

end

text \<open>One round whose first lock was acquired.\<close>

lemma lock_impl_unfold:
  assumes "acquire (ms ! start) w = Some (Inr (), w1)" and "start < length ms"
  shows "lock_impl acquire try_lock unlock start ms w =
    pthen (try_lock_impl try_lock unlock (tl (rotate start ms))) (\<lambda>ret.
      if ret = length ms - 1 then pret (ret + 1)
      else pthen (unlock (ms ! start)) (\<lambda>_. pret ((start + ret + 1) mod length ms))) w1"
proof -
  from assms(2) have "ms \<noteq> []" by auto
  with assms(2) have hd: "hd (rotate start ms) = ms ! start" by (simp add: hd_rotate_conv_nth)
  have len: "length (tl (rotate start ms)) = length ms - 1" by simp
  have inc: "length ms - 1 + 1 = length ms" using assms(2) by simp
  show ?thesis
    unfolding lock_impl_def lock_rotate_and_call_rotate lock_impl_body_def Let_def hd len inc
    by (rule pthen_run(3), rule assms(1))
qed

text \<open>
  With waiting: \<open>acquire i\<close> returns only with the object locked. Nothing is assumed about
  what other tasks did to the other objects meanwhile.
\<close>

locale lock_wait = lockable try_lock unlock status ok
  for try_lock :: "nat \<Rightarrow> (bool, 'w) prog" and unlock :: "nat \<Rightarrow> (unit, 'w) prog"
    and status :: "'w \<Rightarrow> nat \<Rightarrow> lstat" and ok :: "'w \<Rightarrow> bool" +
  fixes acquire :: "nat \<Rightarrow> (unit, 'w) prog"
  assumes acquire_got: "ok w \<Longrightarrow> acquire i w = Some (Inr (), w') \<Longrightarrow> ok w' \<and> status w' i = Exclusive"
begin

lemma rotate_tl_nth:
  assumes "start < length ms" and "k < length ms - 1"
  shows "tl (rotate start ms) ! k = ms ! ((start + k + 1) mod length ms)"
  using assms by (simp add: nth_tl nth_rotate)

lemma rotate_split:
  assumes "start < length ms"
  shows "rotate start ms = ms ! start # tl (rotate start ms)"
proof -
  from assms have "ms \<noteq> []" by auto
  with assms have "hd (rotate start ms) = ms ! start" by (simp add: hd_rotate_conv_nth)
  with \<open>ms \<noteq> []\<close> show ?thesis by (metis list.collapse rotate_is_Nil_conv)
qed

text \<open>
  One round: it ends with everything locked, or with nothing locked and the index of an
  object that was not free.
\<close>

lemma lock_impl_result:
  assumes w: "ok w" and start: "start < length ms"
    and acq: "acquire (ms ! start) w = Some (Inr (), w1)"
    and others: "others = tl (rotate start ms)"
  shows "\<exists>i w'. lock_impl acquire try_lock unlock start ms w = Some (Inr i, w') \<and> ok w' \<and>
    (if distinct others \<and> (\<forall>m \<in> set others. status w1 m = Free)
     then i = length ms \<and> status w' = take_all (status w1) ms
     else i < length ms \<and> status w' = (status w1)(ms ! start := Free) \<and>
          (distinct ms \<longrightarrow> i \<noteq> start \<and> status w1 (ms ! i) \<noteq> Free))"
proof -
  let ?k = "first_taken (status w1) others" and ?N = "length ms"
  from start have N: "length others = ?N - 1" "?N > 0" by (auto simp: others)
  from rotate_split [OF start] have "set ms = insert (ms ! start) (set others)"
    using others by (metis list.simps(15) set_rotate)
  moreover from acquire_got [OF w acq] have w1: "ok w1" "status w1 (ms ! start) = Exclusive" by auto
  ultimately have take: "take_all (status w1) others = take_all (status w1) ms"
    by (auto simp: take_all_def fun_eq_iff)
  from try_lock_impl_result [OF w1(1), of others] obtain w2 where
    w2: "try_lock_impl try_lock unlock others w1 = Some (Inr ?k, w2)" "ok w2"
      "status w2 = (if ?k = length others then take_all (status w1) others else status w1)" by blast
  show ?thesis
  proof (cases "?k = length others")
    case True
    moreover from True have "distinct others \<and> (\<forall>m \<in> set others. status w1 m = Free)"
      by (rule first_taken_all [THEN iffD1])
    ultimately show ?thesis
      unfolding if_P [OF \<open>distinct others \<and> (\<forall>m \<in> set others. status w1 m = Free)\<close>]
      using lock_impl_unfold [where acquire = acquire, OF acq start] w2 N take
      by (simp add: comp_run others [symmetric] del: take_all_simps)
  next
    case False
    let ?i = "(start + ?k + 1) mod ?N"
    from False have k: "?k < length others" using first_taken_le [of "status w1" others] by simp
    from False w2 w1 have "status w2 (ms ! start) = Exclusive" by simp
    with unlock_held [OF w2(2)] obtain w3 where w3: "unlock (ms ! start) w2 = Some (Inr (), w3)"
      "ok w3" "status w3 = (status w2)(ms ! start := Free)" by blast
    have nth: "others ! ?k = ms ! ?i" using rotate_tl_nth [OF start] k N by (simp add: others)
    have i: "?i < ?N" using N by simp
    have "?i \<noteq> start \<and> status w1 (ms ! ?i) \<noteq> Free" if "distinct ms"
    proof
      from that rotate_split [OF start] have d: "distinct others" "ms ! start \<notin> set others"
        by (metis distinct.simps(2) distinct_rotate others)+
      from first_taken_blocked [OF k d(1)] nth show "status w1 (ms ! ?i) \<noteq> Free" by simp
      from nth_mem [OF k] d(2) nth show "?i \<noteq> start" by metis
    qed
    moreover from False have "\<not> (distinct others \<and> (\<forall>m \<in> set others. status w1 m = Free))"
      using first_taken_all [of "status w1" others] by blast
    ultimately show ?thesis
      unfolding if_not_P [OF \<open>\<not> (distinct others \<and> (\<forall>m \<in> set others. status w1 m = Free))\<close>]
      using lock_impl_unfold [where acquire = acquire, OF acq start] w2 w3 N k i False by (simp add: comp_run others [symmetric])
  qed
qed

lemma lock_impl_acquired:
  assumes "start < length ms" and "lock_impl acquire try_lock unlock start ms w = Some (Inr i, w')"
  shows "\<exists>w1. acquire (ms ! start) w = Some (Inr (), w1)"
proof -
  from assms(1) have "ms \<noteq> []" by auto
  with assms(1) have "hd (rotate start ms) = ms ! start" by (simp add: hd_rotate_conv_nth)
  with assms(2) show ?thesis
    by (auto simp: lock_impl_def lock_rotate_and_call_rotate lock_impl_body_def Let_def elim: pthen_SomeE)
qed

text \<open>Whatever happened while waiting: when \<open>lock\<close> returns, it holds every object, each once.\<close>

lemma lock_loop_holds:
  assumes "lock_loop acquire try_lock unlock ms i w = Some (r, w')"
    and "ok w" "i < length ms" "r = Inr ()"
  shows "ok w' \<and> distinct ms \<and> (\<forall>m \<in> set ms. status w' m = Exclusive)"
proof -
  have "acq = acquire \<and> tlk = try_lock \<and> ulk = unlock \<and> mtxs = ms \<and> ok w \<and> i < length ms \<and>
      fst x = Inr () \<longrightarrow>
      ok (snd x) \<and> distinct ms \<and> (\<forall>m \<in> set ms. status (snd x) m = Exclusive)"
    if "lock_loop acq tlk ulk mtxs i w = Some x" for acq tlk ulk mtxs i w x
  proof (rule lock_loop.raw_induct [OF _ that], intro impI, elim conjE)
    fix loop acq tlk ulk mtxs i w and x :: "(fault + unit) \<times> 'w"
    assume IH: "\<And>acq tlk ulk mtxs i w x. loop acq tlk ulk mtxs i w = Some (x :: (fault + unit) \<times> 'w) \<Longrightarrow>
        acq = acquire \<and> tlk = try_lock \<and> ulk = unlock \<and> mtxs = ms \<and> ok w \<and> i < length ms \<and>
        fst x = Inr () \<longrightarrow> ok (snd x) \<and> distinct ms \<and> (\<forall>m \<in> set ms. status (snd x) m = Exclusive)"
    assume body: "(case lock_impl acq tlk ulk i mtxs w of None \<Rightarrow> None
        | Some (r, w1) \<Rightarrow> (case r of Inl f \<Rightarrow> Some (Inl f, w1)
           | Inr i1 \<Rightarrow> if i1 \<noteq> length mtxs then loop acq tlk ulk mtxs i1 w1 else Some (Inr (), w1))) = Some x"
    assume eqs: "acq = acquire" "tlk = try_lock" "ulk = unlock" "mtxs = ms"
      and w: "ok w" and i: "i < length ms" and "fst x = Inr ()"
    then obtain w' where x: "x = (Inr (), w')" by (cases x) auto
    with body eqs obtain j w1
      where round: "lock_impl acquire try_lock unlock i ms w = Some (Inr j, w1)"
        and rest: "if j \<noteq> length ms then loop acquire try_lock unlock ms j w1 = Some x else w1 = w'"
      by (auto split: option.splits sum.splits if_splits prod.splits)
    from lock_impl_acquired [OF i round] obtain w0
      where acq: "acquire (ms ! i) w = Some (Inr (), w0)" ..
    note res = lock_impl_result [OF w i acq refl] and got = acquire_got [OF w acq]
    let ?others = "tl (rotate i ms)"
    show "ok (snd x) \<and> distinct ms \<and> (\<forall>m \<in> set ms. status (snd x) m = Exclusive)"
    proof (cases "distinct ?others \<and> (\<forall>m \<in> set ?others. status w0 m = Free)")
      case True
      with res round have j: "j = length ms" and ok: "ok w1" and st: "status w1 = take_all (status w0) ms"
        by auto
      from got True have "distinct (ms ! i # ?others)" by auto
      with rotate_split [OF i] have "distinct ms" by (metis distinct_rotate)
      with rest j ok st x show ?thesis by (simp add: take_all_def)
    next
      case False
      with res round have j: "j < length ms" and ok: "ok w1" by auto
      with rest x have "loop acquire try_lock unlock ms j w1 = Some (Inr (), w')" by simp
      from IH [OF this] ok j x show ?thesis by simp
    qed
  qed
  from this [OF assms(1)] assms(2-4) show ?thesis by simp
qed

end

text \<open>
  A task on its own, observed up to the point where it would have to wait: \<open>acquire i\<close>
  locks a free object and stops with \<open>waits i\<close> on one that is taken.
\<close>

locale lock_probe = lockable try_lock unlock status ok
  for try_lock :: "nat \<Rightarrow> (bool, 'w) prog" and unlock :: "nat \<Rightarrow> (unit, 'w) prog"
    and status :: "'w \<Rightarrow> nat \<Rightarrow> lstat" and ok :: "'w \<Rightarrow> bool" +
  fixes acquire :: "nat \<Rightarrow> (unit, 'w) prog" and waits :: "nat \<Rightarrow> fault"
  assumes acquire_free: "ok w \<Longrightarrow> status w i = Free \<Longrightarrow>
      \<exists>w'. acquire i w = Some (Inr (), w') \<and> ok w' \<and> status w' = (status w)(i := Exclusive)"
    and acquire_taken: "ok w \<Longrightarrow> status w i \<noteq> Free \<Longrightarrow>
      \<exists>w'. acquire i w = Some (Inl (waits i), w') \<and> ok w' \<and> status w' = status w"

sublocale lock_probe \<subseteq> lock_wait
proof unfold_locales
  fix w i w'
  assume "ok w" and "acquire i w = Some (Inr (), w')"
  then show "ok w' \<and> status w' i = Exclusive"
    using acquire_free [of w i] acquire_taken [of w i] by (cases "status w i = Free") auto
qed

context lock_probe
begin

lemma loop_waits:
  assumes "ok w" and "i < length ms" and "status w (ms ! i) \<noteq> Free"
  shows "\<exists>w'. lock_loop acquire try_lock unlock ms i w = Some (Inl (waits (ms ! i)), w') \<and> ok w' \<and>
           status w' = status w"
proof -
  from assms(2) have "ms \<noteq> []" by auto
  with assms(2) have hd: "hd (rotate i ms) = ms ! i" by (simp add: hd_rotate_conv_nth)
  from acquire_taken [OF assms(1,3)] obtain w' where
    "acquire (ms ! i) w = Some (Inl (waits (ms ! i)), w')" "ok w'" "status w' = status w" by blast
  moreover from this(1) have "lock_impl acquire try_lock unlock i ms w = Some (Inl (waits (ms ! i)), w')"
    unfolding lock_impl_def lock_rotate_and_call_rotate lock_impl_body_def Let_def hd
    by (rule pthen_run(2))
  ultimately show ?thesis by (subst lock_loop.simps) simp
qed

text \<open>
  Two rounds decide: either all objects are locked, or the task waits for one that was taken
  and holds none of the others.
\<close>

lemma lock_loop_decides:
  assumes "ok w" and "distinct ms" and "i < length ms"
  shows "\<exists>r w'. lock_loop acquire try_lock unlock ms i w = Some (r, w') \<and> ok w' \<and>
    (if \<forall>m \<in> set ms. status w m = Free
     then r = Inr () \<and> status w' = take_all (status w) ms
     else (\<exists>m \<in> set ms. r = Inl (waits m) \<and> status w m \<noteq> Free) \<and> status w' = status w)"
proof (cases "status w (ms ! i) = Free")
  case False
  then have "\<not> (\<forall>m \<in> set ms. status w m = Free)" using assms(3) nth_mem by blast
  with loop_waits [OF assms(1,3) False] False nth_mem [OF assms(3)] show ?thesis by auto
next
  case True
  let ?others = "tl (rotate i ms)"
  from acquire_free [OF assms(1) True] obtain w1 where acq: "acquire (ms ! i) w = Some (Inr (), w1)"
    and st1: "status w1 = (status w)(ms ! i := Exclusive)" by blast
  note split = rotate_split [OF assms(3)]
  have dist: "distinct ?others" "ms ! i \<notin> set ?others"
    by (metis assms(2) split distinct.simps(2) distinct_rotate)+
  have set: "set ms = insert (ms ! i) (set ?others)" by (metis split list.simps(15) set_rotate)
  have free: "(\<forall>m \<in> set ?others. status w1 m = Free) = (\<forall>m \<in> set ms. status w m = Free)"
    using dist(2) True by (auto simp: set st1)
  then have cond: "(distinct ?others \<and> (\<forall>m \<in> set ?others. status w1 m = Free)) =
      (\<forall>m \<in> set ms. status w m = Free)" using dist(1) by simp
  from lock_impl_result [OF assms(1,3) acq refl, unfolded cond] obtain j w2 where
    round: "lock_impl acquire try_lock unlock i ms w = Some (Inr j, w2)" and ok2: "ok w2" and
    res: "if \<forall>m \<in> set ms. status w m = Free
      then j = length ms \<and> status w2 = take_all (status w1) ms
      else j < length ms \<and> status w2 = (status w1)(ms ! i := Free) \<and>
           (distinct ms \<longrightarrow> j \<noteq> i \<and> status w1 (ms ! j) \<noteq> Free)"
    by blast
  show ?thesis
  proof (cases "\<forall>m \<in> set ms. status w m = Free")
    case all: True
    from res have "j = length ms" and "status w2 = take_all (status w1) ms"
      unfolding if_P [OF all] by auto
    moreover have "take_all (status w1) ms = take_all (status w) ms"
      using set by (auto simp: take_all_def st1 fun_eq_iff)
    ultimately show ?thesis
      unfolding if_P [OF all] using round ok2 by (subst lock_loop.simps) simp
  next
    case some: False
    from res have j: "j < length ms" "j \<noteq> i" and taken: "status w1 (ms ! j) \<noteq> Free"
      and "status w2 = (status w1)(ms ! i := Free)" unfolding if_not_P [OF some] using assms(2) by auto
    with True st1 have st2: "status w2 = status w" by (auto simp: fun_eq_iff)
    from j assms(2,3) have "ms ! j \<noteq> ms ! i" by (simp add: nth_eq_iff_index_eq)
    with taken st1 have busy: "status w (ms ! j) \<noteq> Free" by simp
    from loop_waits [OF ok2 j(1)] st2 busy obtain w' where
      "lock_loop acquire try_lock unlock ms j w2 = Some (Inl (waits (ms ! j)), w')" "ok w'"
      "status w' = status w" by auto
    moreover have "lock_loop acquire try_lock unlock ms i w = lock_loop acquire try_lock unlock ms j w2"
      using round j(1) by (subst lock_loop.simps) simp
    ultimately show ?thesis
      unfolding if_not_P [OF some] using busy nth_mem [OF j(1)] by auto
  qed
qed

end

end
