(* ===== verification/Ownership.thy ===== *)
theory Ownership imports Prelude Transition "HOL-Library.Multiset" begin

text \<open>
  Classes that own a resource through one nullable member: \<open>lock_guard\<close>, \<open>future\<close>,
  \<open>stream\<close>, the join handles. They differ in what the destructor does; moving and
  move-assigning must neither lose nor duplicate the resource. The interface states just that,
  and the programs are all sequences of creating, moving, move-assigning and destroying
  variables of the class.
\<close>

section \<open>Programs over owners\<close>

datatype own_op = O_new nat | O_move nat | O_assign nat nat | O_destroy nat

text \<open>Variables in the order they are created, \<open>None\<close> once destroyed; resources released.\<close>

record 'g own_vars =
  ov_slots :: "'g option list"
  ov_log :: "nat list"

definition no_vars :: "'g own_vars" where
  "no_vars = \<lparr>ov_slots = [], ov_log = []\<rparr>"

definition slot_at :: "nat \<Rightarrow> 'g own_vars \<Rightarrow> 'g option" where
  "slot_at k s = (if k < length (ov_slots s) then ov_slots s ! k else None)"

fun own_step :: "(nat \<Rightarrow> 'g) \<Rightarrow> ('g \<Rightarrow> 'g \<times> 'g) \<Rightarrow> ('g \<Rightarrow> 'g \<Rightarrow> 'g \<times> 'g) \<Rightarrow> ('g \<Rightarrow> nat list)
    \<Rightarrow> own_op \<Rightarrow> 'g own_vars \<Rightarrow> 'g own_vars option" where
  "own_step ctor move assign release (O_new r) s = Some (s\<lparr>ov_slots := ov_slots s @ [Some (ctor r)]\<rparr>)"
| "own_step ctor move assign release (O_move k) s =
     (case slot_at k s of
        None \<Rightarrow> None
      | Some g \<Rightarrow> (let (new, old) = move g
                   in Some (s\<lparr>ov_slots := (ov_slots s)[k := Some old] @ [Some new]\<rparr>)))"
| "own_step ctor move assign release (O_assign j k) s =
     (case (slot_at j s, slot_at k s) of
        (Some g, Some h) \<Rightarrow> (let (l, r) = assign g h
                             in if j = k then Some s
                                else Some (s\<lparr>ov_slots := (ov_slots s)[j := Some l, k := Some r]\<rparr>))
      | _ \<Rightarrow> None)"
| "own_step ctor move assign release (O_destroy k) s =
     (case slot_at k s of
        None \<Rightarrow> None
      | Some g \<Rightarrow> Some (s\<lparr>ov_slots := (ov_slots s)[k := None], ov_log := ov_log s @ release g\<rparr>))"

fun made :: "own_op list \<Rightarrow> nat multiset" where
  "made [] = {#}"
| "made (O_new r # ops) = add_mset r (made ops)"
| "made (_ # ops) = made ops"

definition slot_owns :: "('g \<Rightarrow> nat multiset) \<Rightarrow> 'g option \<Rightarrow> nat multiset" where
  "slot_owns owns s = (case s of None \<Rightarrow> {#} | Some g \<Rightarrow> owns g)"

definition owned :: "('g \<Rightarrow> nat multiset) \<Rightarrow> 'g option list \<Rightarrow> nat multiset" where
  "owned owns gs = (\<Sum>g\<leftarrow>gs. slot_owns owns g)"

lemma owned_append [simp]:
  "owned owns (gs @ hs) = owned owns gs + owned owns hs" "owned owns [g] = slot_owns owns g"
  "owned owns [] = {#}"
  by (simp_all add: owned_def)

lemma owned_upd:
  "k < length gs \<Longrightarrow> owned owns (gs[k := g]) + slot_owns owns (gs ! k) = owned owns gs + slot_owns owns g"
proof (induction gs arbitrary: k)
  case (Cons x xs)
  then show ?case by (cases k) (auto simp: owned_def ac_simps)
qed simp

lemma owned_dead: "set gs \<subseteq> {None} \<Longrightarrow> owned owns gs = {#}"
  by (induction gs) (auto simp: owned_def slot_owns_def)

section \<open>The contract\<close>

locale owner =
  fixes ctor :: "nat \<Rightarrow> 'g"
    and move :: "'g \<Rightarrow> 'g \<times> 'g"
    and assign :: "'g \<Rightarrow> 'g \<Rightarrow> 'g \<times> 'g"
    and release :: "'g \<Rightarrow> nat list"
    and owns :: "'g \<Rightarrow> nat multiset"
  assumes owns_ctor: "owns (ctor x) = {#x#}"
    and owns_move: "move g = (new, old) \<Longrightarrow> owns new + owns old = owns g"
    and owns_assign: "assign g h = (l, r) \<Longrightarrow> owns l + owns r = owns g + owns h"
    and owns_release: "mset (release g) = owns g"
begin

lemma step_balance:
  assumes "own_step ctor move assign release op s = Some t"
  shows "mset (ov_log t) + owned owns (ov_slots t) =
         mset (ov_log s) + owned owns (ov_slots s) + made [op]"
proof (cases op)
  case (O_new r)
  with assms show ?thesis by (auto simp: slot_owns_def owns_ctor)
next
  case (O_move k)
  with assms obtain g new old where k: "k < length (ov_slots s)" "ov_slots s ! k = Some g"
    and m: "move g = (new, old)" and t: "t = s\<lparr>ov_slots := (ov_slots s)[k := Some old] @ [Some new]\<rparr>"
    by (auto simp: slot_at_def split: option.splits if_splits prod.splits)
  from owned_upd [OF k(1), of owns "Some old"] owns_move [OF m] O_move k show ?thesis
    by (simp add: t slot_owns_def ac_simps) (metis add.assoc add.commute add_right_cancel)
next
  case (O_assign j k)
  with assms obtain g h l r where j: "j < length (ov_slots s)" "ov_slots s ! j = Some g"
    and k: "k < length (ov_slots s)" "ov_slots s ! k = Some h" and a: "assign g h = (l, r)"
    and t: "t = (if j = k then s else s\<lparr>ov_slots := (ov_slots s)[j := Some l, k := Some r]\<rparr>)"
    by (auto simp: slot_at_def split: option.splits if_splits prod.splits)
  show ?thesis
  proof (cases "j = k")
    case True
    with t O_assign show ?thesis by simp
  next
    case False
    let ?gs = "(ov_slots s)[j := Some l]"
    from k False have k': "k < length ?gs" "?gs ! k = Some h" by (simp_all add: nth_list_update)
    from owned_upd [OF j(1), of owns "Some l"] j(2)
    have "owned owns ?gs + owns g = owned owns (ov_slots s) + owns l" by (simp add: slot_owns_def)
    moreover from owned_upd [OF k'(1), of owns "Some r", unfolded k'(2)]
    have "owned owns (?gs[k := Some r]) + owns h = owned owns ?gs + owns r" by (simp add: slot_owns_def)
    ultimately have "owned owns (?gs[k := Some r]) + (owns g + owns h) = owned owns (ov_slots s) + (owns l + owns r)"
      by (metis add.assoc add.commute)
    then have "owned owns (?gs[k := Some r]) = owned owns (ov_slots s)"
      using owns_assign [OF a] by simp
    with False O_assign show ?thesis by (simp add: t)
  qed
next
  case (O_destroy k)
  with assms obtain g where k: "k < length (ov_slots s)" "ov_slots s ! k = Some g"
    and t: "t = s\<lparr>ov_slots := (ov_slots s)[k := None], ov_log := ov_log s @ release g\<rparr>"
    by (auto simp: slot_at_def split: option.splits if_splits)
  from owned_upd [OF k(1), of owns None] O_destroy k show ?thesis
    by (simp add: t slot_owns_def owns_release ac_simps)
qed

lemma balance:
  assumes "run (own_step ctor move assign release) ops s = Some t"
  shows "mset (ov_log t) + owned owns (ov_slots t) = mset (ov_log s) + owned owns (ov_slots s) + made ops"
  using assms
proof (induction ops arbitrary: s)
  case (Cons op ops)
  from Cons.prems obtain s1 where "own_step ctor move assign release op s = Some s1"
    and "run (own_step ctor move assign release) ops s1 = Some t" by (auto split: option.splits)
  moreover have "made (op # ops) = made [op] + made ops" by (cases op) auto
  ultimately show ?case using step_balance [of op s s1] Cons.IH [of s1] by simp
qed simp

text \<open>Each resource is released exactly as often as it was handed to an owner.\<close>

lemma released_once:
  assumes "run (own_step ctor move assign release) ops no_vars = Some t"
  shows "mset (ov_log t) + owned owns (ov_slots t) = made ops"
    and "set (ov_slots t) \<subseteq> {None} \<Longrightarrow> mset (ov_log t) = made ops"
  using balance [OF assms] owned_dead [of "ov_slots t" owns] by (simp_all add: no_vars_def)

end

end
