(* ===== verification/Locks.thy ===== *)
theory Locks imports Lock_Interface Ownership Mutex Shared_Mutex begin

text \<open>
  The lock functions and guards (include/crasy/lock_guard.hpp, unique_lock.hpp) over
  worlds of \<^verbatim>\<open>mutex\<close> and \<^verbatim>\<open>shared_mutex\<close> objects: the interpretations of
  \<open>lockable\<close> and its extensions, and the ownership discipline of \<open>lock_guard\<close> and
  \<open>unique_lock\<close>.
\<close>

section \<open>Worlds of mutexes\<close>

record mutex_world =
  mw_mx :: "nat \<Rightarrow> mutex"
  mw_ex :: exec_ctx

definition mw_try_lock :: "nat \<Rightarrow> (bool, mutex_world) prog" where
  "mw_try_lock i w =
     (let (got, m) = mutex_try_lock (mw_mx w i)
      in Some (Inr got, w\<lparr>mw_mx := (mw_mx w)(i := m)\<rparr>))"

definition mw_unlock :: "nat \<Rightarrow> (unit, mutex_world) prog" where
  "mw_unlock i w =
     (let (r, m, ex) = mutex_unlock (mw_mx w i) (mw_ex w)
      in Some (r, w\<lparr>mw_mx := (mw_mx w)(i := m), mw_ex := ex\<rparr>))"

text \<open>
  \<^verbatim>\<open>co_await\<close> of the lock future by task \<open>h\<close>, up to its suspension;
  \<open>resume i\<close> is what the task finds when it is resumed, the rest of the program.
\<close>

definition mw_await :: "handle \<Rightarrow> (nat \<Rightarrow> (unit, mutex_world) prog) \<Rightarrow> nat \<Rightarrow> (unit, mutex_world) prog" where
  "mw_await h resume i w =
     (let (ready, m) = lock_future_ready (mw_mx w i);
          w1 = w\<lparr>mw_mx := (mw_mx w)(i := m)\<rparr>
      in if ready then Some (Inr (), w1)
         else (let (r, m2, ex) = lock_future_suspend h m (mw_ex w1);
                   w2 = w1\<lparr>mw_mx := (mw_mx w1)(i := m2), mw_ex := ex\<rparr>
               in case r of Inl f \<Rightarrow> Some (Inl f, w2) | Inr _ \<Rightarrow> resume i w2))"

definition mw_status :: "mutex_world \<Rightarrow> nat \<Rightarrow> lstat" where
  "mw_status w i = (if mx_locked (mw_mx w i) then Exclusive else Free)"

definition mw_ok :: "mutex_world \<Rightarrow> bool" where
  "mw_ok w \<longleftrightarrow> in_exec (mw_ex w) \<and> (\<forall>i. lfq_ok (mx_suspended (mw_mx w i)))"

text \<open>The observer of \<open>lock_probe\<close>: the program stops when the task suspends on object \<open>i\<close>.\<close>

definition suspended_on :: "nat \<Rightarrow> fault" where
  "suspended_on i = Throw (User_exn i)"

definition stop_at_wait :: "nat \<Rightarrow> (unit, mutex_world) prog" where
  "stop_at_wait i = pfail (suspended_on i)"

lemma mutex_unlock_in_exec:
  assumes "lfq_ok (mx_suspended m)" and "in_exec ex"
  shows "\<exists>m' ex'. mutex_unlock m ex = (Inr (), m', ex') \<and> \<not> mx_locked m' \<and>
           lfq_ok (mx_suspended m') \<and> in_exec ex'"
  using assms
  by (auto simp: mutex_unlock_def mutex_unlock_store_def mutex_unlock_wake_def Let_def
      split: prod.splits option.splits dest: lq.popD(3))

interpretation mw: lockable mw_try_lock mw_unlock mw_status mw_ok
proof unfold_locales
  fix w i
  assume w: "mw_ok w"
  show "\<exists>w'. mw_try_lock i w = Some (Inr True, w') \<and> mw_ok w' \<and>
          mw_status w' = (mw_status w)(i := Exclusive)" if "mw_status w i = Free"
    using that w by (auto simp: mw_try_lock_def mutex_try_lock_def mw_status_def mw_ok_def fun_eq_iff
        split: if_splits)
  show "\<exists>w'. mw_try_lock i w = Some (Inr False, w') \<and> mw_ok w' \<and> mw_status w' = mw_status w"
    if "mw_status w i \<noteq> Free"
    using that w by (auto simp: mw_try_lock_def mutex_try_lock_def mw_status_def mw_ok_def fun_eq_iff
        split: if_splits)
  show "\<exists>w'. mw_unlock i w = Some (Inr (), w') \<and> mw_ok w' \<and> mw_status w' = (mw_status w)(i := Free)"
    if "mw_status w i = Exclusive"
  proof -
    from w have "lfq_ok (mx_suspended (mw_mx w i))" "in_exec (mw_ex w)" by (auto simp: mw_ok_def)
    from mutex_unlock_in_exec [OF this] obtain m' ex' where
      "mutex_unlock (mw_mx w i) (mw_ex w) = (Inr (), m', ex')" "\<not> mx_locked m'"
      "lfq_ok (mx_suspended m')" "in_exec ex'" by blast
    with w show ?thesis by (auto simp: mw_unlock_def mw_status_def mw_ok_def fun_eq_iff)
  qed
qed

interpretation mwp: lock_probe mw_try_lock mw_unlock mw_status mw_ok "mw_await h stop_at_wait" suspended_on
  for h
proof unfold_locales
  fix w i
  assume w: "mw_ok w"
  show "\<exists>w'. mw_await h stop_at_wait i w = Some (Inr (), w') \<and> mw_ok w' \<and>
          mw_status w' = (mw_status w)(i := Exclusive)" if "mw_status w i = Free"
    using that w
    by (auto simp: mw_await_def lock_future_ready_def mutex_try_lock_def mw_status_def mw_ok_def
        fun_eq_iff split: if_splits)
  show "\<exists>w'. mw_await h stop_at_wait i w = Some (Inl (suspended_on i), w') \<and> mw_ok w' \<and>
          mw_status w' = mw_status w" if "mw_status w i \<noteq> Free"
    using that w
    by (auto simp: mw_await_def lock_future_ready_def mutex_try_lock_def lock_future_suspend_def
        lock_future_push_def lock_future_check_def stop_at_wait_def comp_run mw_status_def mw_ok_def
        fun_eq_iff lq.ok_push split: if_splits)
qed

section \<open>Worlds of shared mutexes\<close>

record sm_world =
  sw_sm :: "nat \<Rightarrow> shared_mutex"
  sw_ex :: exec_ctx

definition sw_try_lock :: "nat \<Rightarrow> (bool, sm_world) prog" where
  "sw_try_lock i w =
     (let (got, m) = sm_try_lock (sw_sm w i)
      in Some (Inr got, w\<lparr>sw_sm := (sw_sm w)(i := m)\<rparr>))"

definition sw_unlock :: "nat \<Rightarrow> (unit, sm_world) prog" where
  "sw_unlock i w =
     map_option (\<lambda>(r, m, ex). (r, w\<lparr>sw_sm := (sw_sm w)(i := m), sw_ex := ex\<rparr>))
       (sm_unlock (sw_sm w i) (sw_ex w))"

definition sw_status :: "sm_world \<Rightarrow> nat \<Rightarrow> lstat" where
  "sw_status w i =
     (if sm_state (sw_sm w i) = 0 then Free
      else if sm_state (sw_sm w i) = EX_BIT then Exclusive else Shared)"

definition sw_ok :: "sm_world \<Rightarrow> bool" where
  "sw_ok w \<longleftrightarrow> in_exec (sw_ex w) \<and> (\<forall>i. lfq_ok (sm_suspended (sw_sm w i)))"

interpretation sw: lockable sw_try_lock sw_unlock sw_status sw_ok
proof unfold_locales
  fix w i
  assume w: "sw_ok w"
  show "\<exists>w'. sw_try_lock i w = Some (Inr True, w') \<and> sw_ok w' \<and>
          sw_status w' = (sw_status w)(i := Exclusive)" if "sw_status w i = Free"
    using that w by (auto simp: sw_try_lock_def sm_try_lock_def sw_status_def sw_ok_def fun_eq_iff
        split: if_splits)
  show "\<exists>w'. sw_try_lock i w = Some (Inr False, w') \<and> sw_ok w' \<and> sw_status w' = sw_status w"
    if "sw_status w i \<noteq> Free"
    using that w by (auto simp: sw_try_lock_def sm_try_lock_def sw_status_def sw_ok_def fun_eq_iff
        split: if_splits)
  show "\<exists>w'. sw_unlock i w = Some (Inr (), w') \<and> sw_ok w' \<and> sw_status w' = (sw_status w)(i := Free)"
    if "sw_status w i = Exclusive"
  proof -
    let ?m = "sm_unlock_sub (sw_sm w i)"
    from w have "lfq_ok (sm_suspended ?m)" and "in_exec (sw_ex w)"
      by (auto simp: sw_ok_def sm_unlock_sub_def)
    from sm_drain_result [OF this] obtain q ex' where
      "sm_drain ?m (sw_ex w) = Some (Inr (), ?m\<lparr>sm_suspended := q\<rparr>, ex')" "lfq_ok q" "in_exec ex'"
      by (auto simp: \<open>in_exec (sw_ex w)\<close>)
    moreover from that have "sm_state ?m = 0"
      by (auto simp: sw_status_def sm_unlock_sub_def split: if_splits)
    ultimately show ?thesis
      using w by (auto simp: sw_unlock_def sm_unlock_def sw_status_def sw_ok_def fun_eq_iff)
  qed
qed

section \<open>lock_guard\<close>

text \<open>The guard is its pointer \<open>mtx_\<close>, \<open>None\<close> when null.\<close>

type_synonym guard = "nat option"

definition guard_ctor :: "nat \<Rightarrow> guard" where
  "guard_ctor mtx = Some mtx"

text \<open>The move constructor gives the new guard and what is left of the old one.\<close>

definition guard_move :: "guard \<Rightarrow> guard \<times> guard" where
  "guard_move other = (other, None)"

definition guard_assign :: "guard \<Rightarrow> guard \<Rightarrow> guard \<times> guard" where
  "guard_assign this rhs = (rhs, this)"

definition guard_destroy :: "(nat \<Rightarrow> (unit, 'w) prog) \<Rightarrow> guard \<Rightarrow> (unit, 'w) prog" where
  "guard_destroy unlock g = (case g of Some mtx \<Rightarrow> unlock mtx | None \<Rightarrow> pret ())"

definition lock_one :: "(nat \<Rightarrow> (unit, 'w) prog) \<Rightarrow> nat \<Rightarrow> (guard, 'w) prog" where
  "lock_one acquire mtx = pthen (acquire mtx) (\<lambda>_. pret (guard_ctor mtx))"

text \<open>What destroying a guard unlocks, and the interpretation of \<open>owner\<close>.\<close>

definition log_unlock :: "nat \<Rightarrow> (unit, nat list) prog" where
  "log_unlock mtx l = Some (Inr (), l @ [mtx])"

definition guard_release :: "guard \<Rightarrow> nat list" where
  "guard_release g = (case guard_destroy log_unlock g [] of Some (_, l) \<Rightarrow> l | None \<Rightarrow> [])"

definition guard_owns :: "guard \<Rightarrow> nat multiset" where
  "guard_owns g = (case g of Some mtx \<Rightarrow> {#mtx#} | None \<Rightarrow> {#})"

interpretation gu: owner guard_ctor guard_move guard_assign guard_release guard_owns
  by unfold_locales
    (auto simp: guard_ctor_def guard_move_def guard_assign_def guard_release_def guard_owns_def
      guard_destroy_def log_unlock_def comp_run split: option.splits)

section \<open>unique_lock\<close>

record ulock =
  ul_mtx :: "nat option"
  ul_locked :: bool

definition ul_ctor :: "nat \<Rightarrow> ulock" where
  "ul_ctor mtx = \<lparr>ul_mtx = Some mtx, ul_locked = False\<rparr>"

definition ul_move :: "ulock \<Rightarrow> ulock \<times> ulock" where
  "ul_move other = (\<lparr>ul_mtx = ul_mtx other, ul_locked = ul_locked other\<rparr>, other\<lparr>ul_mtx := None\<rparr>)"

definition ul_assign :: "ulock \<Rightarrow> ulock \<Rightarrow> ulock \<times> ulock" where
  "ul_assign this rhs =
     (this\<lparr>ul_mtx := ul_mtx rhs, ul_locked := ul_locked rhs\<rparr>,
      rhs\<lparr>ul_mtx := ul_mtx this, ul_locked := ul_locked this\<rparr>)"

definition ul_destroy :: "(nat \<Rightarrow> (unit, 'w) prog) \<Rightarrow> ulock \<Rightarrow> (unit, 'w) prog" where
  "ul_destroy unlock u =
     (case ul_mtx u of
        Some mtx \<Rightarrow> if ul_locked u then unlock mtx else pret ()
      | None \<Rightarrow> pret ())"

definition ul_try_lock :: "(nat \<Rightarrow> (bool, 'w) prog) \<Rightarrow> ulock \<Rightarrow> (bool \<times> ulock, 'w) prog" where
  "ul_try_lock try_lock u =
     (case ul_mtx u of
        None \<Rightarrow> pfail (Undefined Null_deref)
      | Some mtx \<Rightarrow> pthen (try_lock mtx) (\<lambda>got. pret (got, u\<lparr>ul_locked := got\<rparr>)))"

text \<open>\<open>lock\<close> sets the flag and then returns the awaitable \<open>mtx_->lock()\<close>, here its mutex.\<close>

definition ul_lock :: "ulock \<Rightarrow> (nat \<times> ulock, 'w) prog" where
  "ul_lock u =
     (let u1 = u\<lparr>ul_locked := True\<rparr>
      in case ul_mtx u1 of None \<Rightarrow> pfail (Undefined Null_deref) | Some mtx \<Rightarrow> pret (mtx, u1))"

definition ul_unlock :: "(nat \<Rightarrow> (unit, 'w) prog) \<Rightarrow> ulock \<Rightarrow> (ulock, 'w) prog" where
  "ul_unlock unlock u =
     (let u1 = u\<lparr>ul_locked := False\<rparr>
      in case ul_mtx u1 of
           None \<Rightarrow> pfail (Undefined Null_deref)
         | Some mtx \<Rightarrow> pthen (unlock mtx) (\<lambda>_. pret u1))"

definition lock_unique :: "(nat \<Rightarrow> (unit, 'w) prog) \<Rightarrow> nat \<Rightarrow> (ulock, 'w) prog" where
  "lock_unique acquire mtx = pthen (acquire mtx) (\<lambda>_. pret (ul_ctor mtx))"

section \<open>Properties\<close>

lemma mw_lock_wait:
  assumes "\<And>i w w'. mw_ok w \<Longrightarrow> acquire i w = Some (Inr (), w') \<Longrightarrow> mw_ok w' \<and> mw_status w' i = Exclusive"
  shows "lock_wait mw_try_lock mw_unlock mw_status mw_ok acquire"
  by (intro lock_wait.intro lock_wait_axioms.intro mw.lockable_axioms) (rule assms)

definition fresh_world :: mutex_world where
  "fresh_world = \<lparr>mw_mx = (\<lambda>_. mutex_init), mw_ex = \<lparr>in_exec = True, posted = []\<rparr>\<rparr>"

lemma fresh_world_ok [simp]: "mw_ok fresh_world" "mw_status fresh_world i = Free"
  by (simp_all add: fresh_world_def mw_ok_def mw_status_def mutex_init_def lq.ok_empty)

lemma fresh_lock_two:
  "\<exists>w'. lock_all (mw_await 7 stop_at_wait) mw_try_lock mw_unlock [0, 1] fresh_world =
          Some (Inr [Some 0, Some 1], w')"
proof -
  from mwp.lock_loop_decides [of fresh_world "[0, 1]" 0 7] obtain w' where
    "lock_loop (mw_await 7 stop_at_wait) mw_try_lock mw_unlock [0, 1] 0 fresh_world = Some (Inr (), w')"
    by auto
  then show ?thesis by (simp add: lock_all_def comp_run)
qed

text \<open>
  \<^verbatim>\<open>lock(m1, m2, ...)\<close> on lockables whose awaited lock ends with the object locked, as that of \<^verbatim>\<open>mutex\<close> does when
  it did not have to wait, and only then: whatever other tasks do meanwhile, when the call returns it
  returns one guard per mutex, every mutex is locked, and no mutex was given twice.
\<close>

theorem multi_lock_holds_all:
  assumes "lock_all acquire mw_try_lock mw_unlock ms w = Some (Inr guards, w')"
    and "mw_ok w" and "length ms \<ge> 2"
    and "\<And>i w w'. mw_ok w \<Longrightarrow> acquire i w = Some (Inr (), w') \<Longrightarrow> mw_ok w' \<and> mw_status w' i = Exclusive"
  shows "guards = map Some ms \<and> distinct ms \<and> (\<forall>m \<in> set ms. mw_status w' m = Exclusive) \<and> mw_ok w'"
proof -
  from assms(1) have loop: "lock_loop acquire mw_try_lock mw_unlock ms 0 w = Some (Inr (), w')"
    and g: "guards = map Some ms"
    unfolding lock_all_def by (auto elim!: pthen_SomeE simp: comp_run)
  have lw: "lock_wait mw_try_lock mw_unlock mw_status mw_ok acquire"
    by (rule mw_lock_wait) (rule assms(4))
  have "0 < length ms" using assms(3) by linarith
  from lock_wait.lock_loop_holds [OF lw loop assms(2) this refl] g show ?thesis by blast
qed

theorem multi_lock_holds_all_witness:
  "\<exists>w'. lock_all (mw_await 7 stop_at_wait) mw_try_lock mw_unlock [0, 1] fresh_world =
           Some (Inr [Some 0, Some 1], w') \<and> mw_status w' 1 = Exclusive"
proof -
  from fresh_lock_two obtain w' where
    run: "lock_all (mw_await 7 stop_at_wait) mw_try_lock mw_unlock [0, 1] fresh_world =
      Some (Inr [Some 0, Some 1], w')" by blast
  from multi_lock_holds_all [OF run] mwp.acquire_got run show ?thesis by auto
qed






text \<open>
  C22: \<^verbatim>\<open>lock(m1, m2, ...)\<close> never waits while holding: on distinct mutexes it either
  locks all of them or suspends on one that is taken, having unlocked every mutex it had locked,
  and it decides this after at most two rounds, so two tasks calling it cannot deadlock.
\<close>

theorem multi_lock_no_hold_and_wait:
  assumes "mw_ok w" and "distinct ms" and "ms \<noteq> []"
  shows "\<exists>r w'. lock_all (mw_await h stop_at_wait) mw_try_lock mw_unlock ms w = Some (r, w') \<and> mw_ok w' \<and>
    (if \<forall>m \<in> set ms. mw_status w m = Free
     then r = Inr (map Some ms) \<and> mw_status w' = take_all (mw_status w) ms
     else (\<exists>m \<in> set ms. r = Inl (suspended_on m) \<and> mw_status w m \<noteq> Free) \<and> mw_status w' = mw_status w)"
proof -
  have ret: "pthen (lock_loop (mw_await h stop_at_wait) mw_try_lock mw_unlock ms 0) (\<lambda>_. pret x) w =
      Some (case r of Inl f \<Rightarrow> Inl f | Inr _ \<Rightarrow> Inr x, w')"
    if "lock_loop (mw_await h stop_at_wait) mw_try_lock mw_unlock ms 0 w = Some (r, w')" for r w' x
    using that by (cases r) (simp_all add: comp_run)
  from mwp.lock_loop_decides [OF assms(1,2), of 0 h] assms(3) obtain r w' where
    loop: "lock_loop (mw_await h stop_at_wait) mw_try_lock mw_unlock ms 0 w = Some (r, w')" and ok: "mw_ok w'"
    and res: "if \<forall>m \<in> set ms. mw_status w m = Free
      then r = Inr () \<and> mw_status w' = take_all (mw_status w) ms
      else (\<exists>m \<in> set ms. r = Inl (suspended_on m) \<and> mw_status w m \<noteq> Free) \<and> mw_status w' = mw_status w"
    by auto
  show ?thesis
  proof (cases "\<forall>m \<in> set ms. mw_status w m = Free")
    case True
    from res ret [OF loop, of "map Some ms"] ok show ?thesis
      unfolding if_P [OF True] lock_all_def by auto
  next
    case False
    from res ret [OF loop, of "map Some ms"] ok show ?thesis
      unfolding if_not_P [OF False] lock_all_def by auto
  qed
qed

theorem multi_lock_no_hold_and_wait_witness:
  "\<exists>r w'. lock_all (mw_await 7 stop_at_wait) mw_try_lock mw_unlock [0, 1]
             (snd (the (mw_try_lock 1 fresh_world))) = Some (r, w') \<and> r = Inl (suspended_on 1) \<and>
           mw_status w' 0 = Free"
proof -
  let ?w = "snd (the (mw_try_lock 1 fresh_world))"
  have "mw_ok ?w" and "mw_status ?w = (\<lambda>_. Free)(1 := Exclusive)"
    using mw.try_free [of fresh_world 1] by (auto simp: fun_eq_iff)
  with multi_lock_no_hold_and_wait [of ?w "[0, 1]" 7] show ?thesis by auto
qed

text \<open>
  \<open>try_lock_impl\<close> on mutexes and on shared mutexes is all or nothing: it returns the
  number of objects exactly when all are distinct and free, and they are then locked; otherwise
  it returns the position of the first that is not free and leaves every object as it was.
\<close>

theorem try_lock_all_or_nothing:
  assumes "mw_ok w" and "sw_ok v"
  shows "\<exists>w' v'. try_lock_impl mw_try_lock mw_unlock ms w = Some (Inr (first_taken (mw_status w) ms), w') \<and>
    try_lock_impl sw_try_lock sw_unlock ms v = Some (Inr (first_taken (sw_status v) ms), v') \<and>
    mw_status w' = (if distinct ms \<and> mw_status w ` set ms \<subseteq> {Free}
                    then take_all (mw_status w) ms else mw_status w) \<and>
    sw_status v' = (if distinct ms \<and> sw_status v ` set ms \<subseteq> {Free}
                    then take_all (sw_status v) ms else sw_status v)"
proof -
  have all: "(distinct ms \<and> st ` set ms \<subseteq> {Free}) = (first_taken st ms = length ms)" for st
    using first_taken_all [of st ms] by auto
  from mw.try_lock_impl_result [OF assms(1), of ms] sw.try_lock_impl_result [OF assms(2), of ms]
  show ?thesis unfolding all by blast
qed

theorem try_lock_all_or_nothing_witness:
  "\<exists>w'. try_lock_impl mw_try_lock mw_unlock [0, 1, 0] fresh_world = Some (Inr 2, w') \<and>
        mw_status w' 0 = Free"
  using try_lock_all_or_nothing
    [of fresh_world "\<lparr>sw_sm = (\<lambda>_. sm_init), sw_ex = \<lparr>in_exec = True, posted = []\<rparr>\<rparr>" "[0, 1, 0]"]
  by (auto simp: sw_ok_def sm_init_def lq.ok_empty)

text \<open>
  C27: in every program that creates, moves, move-assigns and destroys \<open>lock_guard\<close>s, the
  mutexes unlocked so far and those still owned by a guard are together exactly the mutexes
  that were locked, each as often; when all guards are gone every lock was unlocked once.
\<close>

theorem guards_unlock_exactly_once:
  assumes "run (own_step guard_ctor guard_move guard_assign guard_release) ops no_vars = Some s"
  shows "mset (ov_log s) + owned guard_owns (ov_slots s) = made ops \<and>
         (set (ov_slots s) \<subseteq> {None} \<longrightarrow> mset (ov_log s) = made ops)"
  using gu.released_once [OF assms] by simp

theorem guards_unlock_exactly_once_witness:
  "\<exists>s. run (own_step guard_ctor guard_move guard_assign guard_release)
         [O_new 4, O_new 5, O_move 0, O_assign 1 2, O_destroy 0, O_destroy 2, O_destroy 1]
         no_vars = Some s \<and> mset (ov_log s) = {#4, 5#}"
proof -
  let ?ops = "[O_new 4, O_new 5, O_move 0, O_assign 1 2, O_destroy 0, O_destroy 2, O_destroy 1]"
  have r: "run (own_step guard_ctor guard_move guard_assign guard_release) ?ops no_vars =
      Some \<lparr>ov_slots = [None, None, None], ov_log = [5, 4]\<rparr>" by code_simp
  with guards_unlock_exactly_once [OF r] show ?thesis by simp
qed

text \<open>
  A scope with a \<open>lock_guard\<close>: locking a free mutex and destroying the guard leaves it
  free again, with a move in between as well, when the moved-from guard is destroyed too.
\<close>

theorem lock_guard_scope:
  assumes "mw_ok w" and "mw_status w i = Free"
  shows "\<exists>w'. pthen (lock_one (mw_await h stop_at_wait) i) (\<lambda>g.
            pthen (guard_destroy mw_unlock (snd (guard_move g))) (\<lambda>_.
              guard_destroy mw_unlock (fst (guard_move g)))) w = Some (Inr (), w') \<and>
           mw_ok w' \<and> mw_status w' = mw_status w"
proof -
  from mwp.acquire_free [OF assms] obtain w1 where w1: "mw_await h stop_at_wait i w = Some (Inr (), w1)"
    "mw_ok w1" "mw_status w1 = (mw_status w)(i := Exclusive)" by blast
  with mw.unlock_held [OF w1(2), of i] obtain w2 where "mw_unlock i w1 = Some (Inr (), w2)" "mw_ok w2"
    "mw_status w2 = (mw_status w1)(i := Free)" by auto
  with w1 assms(2) show ?thesis
    by (auto simp: lock_one_def comp_run guard_ctor_def guard_move_def guard_destroy_def fun_eq_iff)
qed

theorem lock_guard_scope_witness:
  "\<exists>w'. pthen (lock_one (mw_await 7 stop_at_wait) 3) (\<lambda>g.
          pthen (guard_destroy mw_unlock (snd (guard_move g))) (\<lambda>_.
            guard_destroy mw_unlock (fst (guard_move g)))) fresh_world = Some (Inr (), w') \<and>
        mw_status w' 3 = Free"
  using lock_guard_scope [of fresh_world 3 7] by auto

text \<open>
  The \<open>unique_lock\<close> that \<open>lock_unique\<close> returns never unlocks: its flag is false, so
  destroying it does nothing and the mutex it locked stays locked.
\<close>

theorem lock_unique_never_unlocks:
  assumes "mw_ok w" and "mw_status w i = Free"
  shows "\<exists>u w1. lock_unique (mw_await h stop_at_wait) i w = Some (Inr u, w1) \<and>
           mw_status w1 i = Exclusive \<and> ul_destroy mw_unlock u w1 = Some (Inr (), w1)"
proof -
  from mwp.acquire_free [OF assms] obtain w1 where "mw_await h stop_at_wait i w = Some (Inr (), w1)"
    "mw_status w1 = (mw_status w)(i := Exclusive)" by blast
  then show ?thesis by (simp add: lock_unique_def comp_run ul_ctor_def ul_destroy_def)
qed

theorem lock_unique_never_unlocks_witness:
  "\<exists>u w1. lock_unique (mw_await 7 stop_at_wait) 3 fresh_world = Some (Inr u, w1) \<and>
          ul_destroy mw_unlock u w1 = Some (Inr (), w1) \<and> mw_status w1 3 = Exclusive"
  using lock_unique_never_unlocks [of fresh_world 3 7] by auto

text \<open>
  A \<open>unique_lock\<close> used through \<open>try_lock\<close>: when it gets the mutex, destroying it
  frees the mutex, and so does \<open>unlock\<close>, after which destroying does nothing; when it does
  not get it, destroying it leaves the mutex to its owner.
\<close>

theorem unique_lock_scope:
  assumes "mw_ok w"
  shows "\<exists>u w1 w2. ul_try_lock mw_try_lock (ul_ctor i) w = Some (Inr (mw_status w i = Free, u), w1) \<and>
    ul_destroy mw_unlock u w1 = Some (Inr (), w2) \<and> mw_status w2 = mw_status w \<and>
    (mw_status w i = Free \<longrightarrow>
       (\<exists>u3. ul_unlock mw_unlock u w1 = Some (Inr u3, w2) \<and> ul_destroy mw_unlock u3 = pret ()))"
proof (cases "mw_status w i = Free")
  case True
  from mw.try_free [OF assms True] obtain w1 where w1: "mw_try_lock i w = Some (Inr True, w1)"
    "mw_ok w1" "mw_status w1 = (mw_status w)(i := Exclusive)" by blast
  with mw.unlock_held [OF w1(2), of i] obtain w2 where w2: "mw_unlock i w1 = Some (Inr (), w2)"
    "mw_status w2 = (mw_status w1)(i := Free)" by auto
  with w1 True have "mw_status w2 = mw_status w" by (simp add: fun_eq_iff)
  with w1 w2 True show ?thesis
    by (simp add: ul_try_lock_def ul_ctor_def ul_destroy_def ul_unlock_def comp_run)
next
  case False
  from mw.try_taken [OF assms False] obtain w1 where "mw_try_lock i w = Some (Inr False, w1)"
    "mw_status w1 = mw_status w" by blast
  with False show ?thesis by (simp add: ul_try_lock_def ul_ctor_def ul_destroy_def comp_run)
qed

theorem unique_lock_scope_witness:
  "\<exists>u w1 w2. ul_try_lock mw_try_lock (ul_ctor 2) fresh_world = Some (Inr (True, u), w1) \<and>
             ul_destroy mw_unlock u w1 = Some (Inr (), w2) \<and> mw_status w2 2 = Free"
  using unique_lock_scope [of fresh_world 2] by auto

text \<open>
  Calling \<open>try_lock\<close> again on a \<open>unique_lock\<close> that holds its mutex returns false and
  clears the flag, so the mutex is never unlocked; and every use of a moved-from
  \<open>unique_lock\<close> other than destroying or assigning it dereferences a null pointer.
\<close>

theorem unique_lock_misuse:
  assumes "mw_ok w" and "mw_status w i = Exclusive"
  shows "(\<exists>w1. ul_try_lock mw_try_lock \<lparr>ul_mtx = Some i, ul_locked = True\<rparr> w =
             Some (Inr (False, \<lparr>ul_mtx = Some i, ul_locked = False\<rparr>), w1) \<and>
           ul_destroy mw_unlock \<lparr>ul_mtx = Some i, ul_locked = False\<rparr> w1 = Some (Inr (), w1) \<and>
           mw_status w1 i = Exclusive) \<and>
    ul_try_lock mw_try_lock (snd (ul_move u)) = pfail (Undefined Null_deref) \<and>
    ul_lock (snd (ul_move u)) = (pfail (Undefined Null_deref) :: (_, mutex_world) prog) \<and>
    ul_unlock mw_unlock (snd (ul_move u)) = pfail (Undefined Null_deref) \<and>
    ul_destroy mw_unlock (snd (ul_move u)) = pret ()"
proof -
  from mw.try_taken [OF assms(1), of i] assms(2) obtain w1 where
    got: "mw_try_lock i w = Some (Inr False, w1)" and st: "mw_status w1 = mw_status w" by auto
  have "ul_try_lock mw_try_lock \<lparr>ul_mtx = Some i, ul_locked = True\<rparr> w =
      Some (Inr (False, \<lparr>ul_mtx = Some i, ul_locked = False\<rparr>), w1)"
    by (simp add: ul_try_lock_def pthen_run(3) [of "mw_try_lock i", OF got] comp_run)
  moreover have "ul_try_lock mw_try_lock (snd (ul_move u)) = pfail (Undefined Null_deref)"
    by (simp add: ul_try_lock_def ul_move_def)
  ultimately show ?thesis using st assms(2)
    by (simp add: ul_destroy_def ul_move_def ul_lock_def ul_unlock_def comp_run)
qed

theorem unique_lock_misuse_witness:
  "\<exists>w1. ul_try_lock mw_try_lock \<lparr>ul_mtx = Some 1, ul_locked = True\<rparr>
            (snd (the (mw_try_lock 1 fresh_world))) =
          Some (Inr (False, \<lparr>ul_mtx = Some 1, ul_locked = False\<rparr>), w1)"
proof -
  let ?w = "snd (the (mw_try_lock 1 fresh_world))"
  have "mw_ok ?w" and "mw_status ?w = (\<lambda>_. Free)(1 := Exclusive)"
    using mw.try_free [of fresh_world 1] by (auto simp: fun_eq_iff)
  with unique_lock_misuse [of ?w 1] show ?thesis by auto
qed

end
