(* ===== verification/Cv_Predicate.thy ===== *)
theory Cv_Predicate imports Condition_Variable begin

text \<open>
  The overload of \<open>condition_variable::wait\<close> with a predicate: a coroutine that awaits
  \<open>wait(lk)\<close> until the predicate holds (include/crasy/condition_variable.hpp), run by one task
  among the others of \<open>Condition_Variable\<close>.
\<close>

section \<open>The loop\<close>

partial_function (option) wait_while :: "('s \<Rightarrow> bool \<times> 's) \<Rightarrow> (unit, 's) prog \<Rightarrow> 's \<Rightarrow> ((fault + unit) \<times> 's) option" where
  "wait_while pred wait s =
     (case pred s of
        (b, s1) \<Rightarrow>
          (if b then Some (Inr (), s1)
           else case wait s1 of
                  None \<Rightarrow> None
                | Some (r, s2) \<Rightarrow>
                    (case r of Inl f \<Rightarrow> Some (Inl f, s2) | Inr _ \<Rightarrow> wait_while pred wait s2)))"

lemma wait_while_True: "pred s = (True, s1) \<Longrightarrow> wait_while pred wait s = Some (Inr (), s1)"
  by (simp add: wait_while.simps)

text \<open>Whatever the condition variable does, the loop returns only where the predicate has just held.\<close>

lemma wait_while_post:
  fixes pred :: "'s \<Rightarrow> bool \<times> 's" and wait :: "(unit, 's) prog"
  assumes "wait_while pred wait s = Some (Inr u, t)"
  shows "\<exists>s1. pred s1 = (True, t)"
proof -
  let ?P = "\<lambda>(pred :: 's \<Rightarrow> bool \<times> 's) (wait :: (unit, 's) prog) (s :: 's) (rt :: (fault + unit) \<times> 's).
    (\<forall>u. fst rt = Inr u \<longrightarrow> (\<exists>s1. pred s1 = (True, snd rt)))"
  have "?P pred wait s (Inr u, t)"
  proof (rule wait_while.raw_induct [where P = ?P, OF _ assms])
    fix loop and pred :: "'s \<Rightarrow> bool \<times> 's" and wait :: "(unit, 's) prog" and s rt
    assume IH: "\<And>pred wait s rt. loop pred wait s = Some rt \<Longrightarrow> ?P pred wait s rt"
      and body: "(case pred s of (b, s1) \<Rightarrow> if b then Some (Inr (), s1)
        else case wait s1 of None \<Rightarrow> None
             | Some (Inl f, s2) \<Rightarrow> Some (Inl f, s2)
             | Some (Inr x, s2) \<Rightarrow> loop pred wait s2) = Some rt"
    obtain b s1 where p: "pred s = (b, s1)" by (cases "pred s")
    show "?P pred wait s rt"
    proof (cases b)
      case True
      with body p show ?thesis by auto
    next
      case False
      with body p obtain r s2 where w: "wait s1 = Some (r, s2)" by (auto split: option.splits)
      with IH [of pred wait s2 rt] body p False show ?thesis by (cases r) auto
    qed
  qed
  then show ?thesis by simp
qed

text \<open>And it returns if every wait does and brings the predicate closer.\<close>

lemma wait_while_returns:
  assumes wait: "\<And>s s1. I s \<Longrightarrow> pred s = (False, s1) \<Longrightarrow>
      \<exists>r t. wait s1 = Some (r, t) \<and> (r = Inr () \<longrightarrow> I t \<and> m t < (m s :: nat))"
    and "I s"
  shows "\<exists>rt. wait_while pred wait s = Some rt"
  using \<open>I s\<close>
proof (induction "m s" arbitrary: s rule: less_induct)
  case less
  obtain b s1 where p: "pred s = (b, s1)" by (cases "pred s")
  show ?case
  proof (cases b)
    case True
    with p show ?thesis by (simp add: wait_while_True)
  next
    case False
    with p have "pred s = (False, s1)" by simp
    from wait [OF less.prems this] obtain r t where "wait s1 = Some (r, t)" "r = Inr () \<longrightarrow> I t \<and> m t < m s"
      by blast
    with less.hyps p False show ?thesis by (cases r) (auto simp: wait_while.simps [of pred wait s])
  qed
qed

section \<open>One task that waits\<close>

text \<open>The predicate reads and may change the world of the lockable.\<close>

definition test_world :: "('w \<Rightarrow> bool \<times> 'w) \<Rightarrow> ('aw, 'w) cv_sys \<Rightarrow> bool \<times> ('aw, 'w) cv_sys" where
  "test_world pred s = (let (b, w) = pred (cs_world s) in (b, s\<lparr>cs_world := w\<rparr>))"

text \<open>
  \<open>co_await wait(lk)\<close> with a fresh future \<open>a\<close>. \<open>others\<close> is what the other tasks do from the time
  the task suspends until it is at the front of the run queue, \<open>None\<close> when that never happens;
  a lockable that is ready at once lets the task go on without suspending.
\<close>

definition co_await_wait ::
    "('aw, 'w) lk_ops \<Rightarrow> (('aw, 'w) cv_sys \<Rightarrow> ('aw, 'w) cv_sys option) \<Rightarrow> nat \<Rightarrow> (unit, ('aw, 'w) cv_sys) prog" where
  "co_await_wait lk others a s =
     Option.bind (cv_step lk (W_ready a) s) (\<lambda>s1.
       if cs_pc s1 a = Scheduled
       then Some (let (r, w) = wait_resume (lk_resume lk) (cv_futures (cs_cv s1) a) (cs_world s1)
                  in (r, s1\<lparr>cs_world := w, cs_pc := (cs_pc s1)(a := Done)\<rparr>))
       else Option.bind (cv_step lk (W_suspend a) s1) (\<lambda>s2.
         Option.bind (others s2) (\<lambda>s3.
           Option.bind (cv_step lk W_resume s3) (\<lambda>t.
             Some (case cs_fault t of None \<Rightarrow> (Inr (), t) | Some f \<Rightarrow> (Inl f, t))))))"

definition wait_pred ::
    "('aw, 'w) lk_ops \<Rightarrow> (('aw, 'w) cv_sys \<Rightarrow> ('aw, 'w) cv_sys option) \<Rightarrow> nat \<Rightarrow> ('w \<Rightarrow> bool \<times> 'w)
       \<Rightarrow> (unit, ('aw, 'w) cv_sys) prog" where
  "wait_pred lk others a pred = wait_while (test_world pred) (co_await_wait lk others a)"

lemma co_await_wait_broken:
  assumes inv: "cv_inv s" and others: "\<And>u v. cv_inv u \<Longrightarrow> others u = Some v \<Longrightarrow> cv_inv v"
    and "co_await_wait lk others a s = Some (r, t)"
  shows "r = Inl (Undefined Empty_option_deref)"
proof -
  from assms(3) obtain s1 where s1: "cv_step lk (W_ready a) s = Some s1"
    by (auto simp: co_await_wait_def bind_eq_Some_conv)
  then have fresh: "cs_pc s a = Fresh" by (auto split: if_splits)
  with inv have "\<not> cf_notified (cv_futures (cs_cv s) a)" by (simp add: cv_inv_def)
  with s1 fresh have "cs_pc s1 a = Entered" by (auto simp: wait_ready_def split: if_splits)
  with assms(3) s1 obtain s2 s3 u where s2: "cv_step lk (W_suspend a) s1 = Some s2"
    and s3: "others s2 = Some s3" and u: "cv_step lk W_resume s3 = Some u"
    and r: "(r, t) = (case cs_fault u of None \<Rightarrow> (Inr (), u) | Some f \<Rightarrow> (Inl f, u))"
    by (auto simp: co_await_wait_def bind_eq_Some_conv)
  from cv_inv_step [OF inv s1] have "cv_inv s1" .
  from cv_inv_step [OF this s2] have "cv_inv s2" .
  from others [OF this s3] have "cv_inv s3" .
  from cv_inv_resume [OF this u] r show ?thesis by simp
qed

section \<open>Properties\<close>

text \<open>
  Waiting with a predicate succeeds only if there is nothing to wait for: if the predicate
  holds at first the call returns and has tested it once; otherwise the call never returns
  normally, whatever the lockable is and whatever the other tasks do: either the task is never
  resumed, or it runs into undefined behaviour when it is.
\<close>

theorem cv_wait_pred_broken:
  assumes "reach (cv_init w) (cv_step lk) s"
    and "\<And>u v. others u = Some v \<Longrightarrow> \<exists>ls. run (cv_step lk) ls u = Some v"
  shows "case pred (cs_world s) of
     (True, w1) \<Rightarrow> wait_pred lk others a pred s = Some (Inr (), s\<lparr>cs_world := w1\<rparr>)
   | (False, w1) \<Rightarrow> wait_pred lk others a pred s = None \<or>
        (\<exists>t. wait_pred lk others a pred s = Some (Inl (Undefined Empty_option_deref), t))"
proof -
  note inv = cv_reach_inv [OF assms(1)]
  have others: "cv_inv v" if "cv_inv u" "others u = Some v" for u v
    using assms(2) [OF that(2)] run_invariant [of "cv_step lk" _ u v cv_inv] that(1) cv_inv_step by blast
  obtain b w1 where p: "pred (cs_world s) = (b, w1)" by (cases "pred (cs_world s)")
  have sel: "cs_cv (s\<lparr>cs_world := w1\<rparr>) = cs_cv s" "cs_pc (s\<lparr>cs_world := w1\<rparr>) = cs_pc s"
    "cs_pushed (s\<lparr>cs_world := w1\<rparr>) = cs_pushed s" "cs_woken (s\<lparr>cs_world := w1\<rparr>) = cs_woken s" by simp_all
  have inv1: "cv_inv (s\<lparr>cs_world := w1\<rparr>)" using inv unfolding cv_inv_def sel .
  show ?thesis
  proof (cases b)
    case True
    with p show ?thesis by (simp add: wait_pred_def test_world_def wait_while_True)
  next
    case False
    with p have loop: "wait_pred lk others a pred s =
        (case co_await_wait lk others a (s\<lparr>cs_world := w1\<rparr>) of
           None \<Rightarrow> None
         | Some (r, s2) \<Rightarrow> (case r of Inl f \<Rightarrow> Some (Inl f, s2) | Inr _ \<Rightarrow> wait_pred lk others a pred s2))"
      unfolding wait_pred_def by (subst wait_while.simps) (simp add: test_world_def)
    show ?thesis
    proof (cases "co_await_wait lk others a (s\<lparr>cs_world := w1\<rparr>)")
      case None
      with loop p False show ?thesis by simp
    next
      case (Some rt)
      obtain r t where rt: "rt = (r, t)" by (cases rt)
      from co_await_wait_broken [OF inv1, of others lk a r t] others Some rt have "r = Inl (Undefined Empty_option_deref)" by blast
      with loop p False Some rt show ?thesis by simp
    qed
  qed
qed

theorem cv_wait_pred_broken_witness:
  "\<exists>t. wait_pred trivial_lk (cv_step trivial_lk W_notify_one) 1 (\<lambda>w. (False, w)) (cv_init ()) =
         Some (Inl (Undefined Empty_option_deref), t)"
proof -
  have "\<exists>ls. run (cv_step trivial_lk) ls u = Some v" if "cv_step trivial_lk W_notify_one u = Some v" for u v
    using that by (intro exI [of _ "[W_notify_one]"]) simp
  from cv_wait_pred_broken [where lk = trivial_lk and w = "()" and pred = "\<lambda>w. (False, w)" and a = 1
      and others = "cv_step trivial_lk W_notify_one", OF reach_init this]
  have "wait_pred trivial_lk (cv_step trivial_lk W_notify_one) 1 (\<lambda>w. (False, w)) (cv_init ()) = None \<or>
      (\<exists>t. wait_pred trivial_lk (cv_step trivial_lk W_notify_one) 1 (\<lambda>w. (False, w)) (cv_init ()) =
        Some (Inl (Undefined Empty_option_deref), t))" by (simp only: prod.case bool.case)
  moreover have "wait_pred trivial_lk (cv_step trivial_lk W_notify_one) 1 (\<lambda>w. (False, w)) (cv_init ()) \<noteq> None"
    unfolding wait_pred_def by (subst wait_while.simps) code_simp
  ultimately show ?thesis by blast
qed

end
