(* ===== verification/Wake_Interface.thy ===== *)
theory Wake_Interface imports Prelude Transition begin

text \<open>
  What a task that awaits the completion of an operation relies on. The operation finishes once,
  on some thread; the task first asks whether it is ready and, if not, suspends. Whatever the
  interleaving, a suspended task must be scheduled exactly once, and not before the operation
  finished. \<open>io_future\<close>, the join handles and \<open>future\<close> all offer these three operations;
  \<open>one_shot\<close> states the laws under which this holds.
\<close>

section \<open>The three operations in any order\<close>

datatype event_state = Idle | Waits handle | Finished | Spent

datatype waiter_pc = W_start | W_unready | W_suspended | W_through

record 'e wake_sys =
  ws_event :: 'e
  ws_exec :: exec_ctx
  ws_pc :: waiter_pc
  ws_finished :: bool
  ws_fault :: "fault option"

datatype wake_label = E_ready | E_suspend | E_finish

definition wake_init :: "'e \<Rightarrow> 'e wake_sys" where
  "wake_init e = \<lparr>ws_event = e, ws_exec = \<lparr>in_exec = True, posted = []\<rparr>, ws_pc = W_start,
     ws_finished = False, ws_fault = None\<rparr>"

definition wake_fault :: "fault + unit \<Rightarrow> fault option" where
  "wake_fault r = (case r of Inl f \<Rightarrow> Some f | Inr _ \<Rightarrow> None)"

text \<open>Task \<open>h\<close> awaits; every operation is one atomic step.\<close>

fun wake_step :: "handle \<Rightarrow> ('e \<Rightarrow> bool) \<Rightarrow> (handle \<Rightarrow> (unit, 'e \<times> exec_ctx) comp) \<Rightarrow> (unit, 'e \<times> exec_ctx) comp
    \<Rightarrow> wake_label \<Rightarrow> 'e wake_sys \<Rightarrow> 'e wake_sys option" where
  "wake_step h ready suspend finish E_ready s =
     (if ws_pc s = W_start \<and> ws_fault s = None
      then Some (s\<lparr>ws_pc := if ready (ws_event s) then W_through else W_unready\<rparr>)
      else None)"
| "wake_step h ready suspend finish E_suspend s =
     (if ws_pc s = W_unready \<and> ws_fault s = None
      then (let (r, e, ex) = suspend h (ws_event s, ws_exec s)
            in Some (s\<lparr>ws_event := e, ws_exec := ex, ws_pc := W_suspended, ws_fault := wake_fault r\<rparr>))
      else None)"
| "wake_step h ready suspend finish E_finish s =
     (if \<not> ws_finished s \<and> ws_fault s = None
      then (let (r, e, ex) = finish (ws_event s, ws_exec s)
            in Some (s\<lparr>ws_event := e, ws_exec := ex, ws_finished := True, ws_fault := wake_fault r\<rparr>))
      else None)"

text \<open>The state the event is in when nothing is lost.\<close>

definition event_of :: "handle \<Rightarrow> 'e wake_sys \<Rightarrow> event_state" where
  "event_of h s =
     (if ws_pc s = W_suspended then if ws_finished s then Spent else Waits h
      else if ws_finished s then Finished else Idle)"

definition woken_so_far :: "handle \<Rightarrow> 'e wake_sys \<Rightarrow> handle list" where
  "woken_so_far h s = (if ws_pc s = W_suspended \<and> ws_finished s then [h] else [])"

section \<open>The contract\<close>

locale one_shot =
  fixes init :: 'e
    and ready :: "'e \<Rightarrow> bool"
    and suspend :: "handle \<Rightarrow> (unit, 'e \<times> exec_ctx) comp"
    and finish :: "(unit, 'e \<times> exec_ctx) comp"
    and rep :: "'e \<Rightarrow> event_state \<Rightarrow> bool"
  assumes init_idle: "rep init Idle"
    and not_ready: "rep e Idle \<Longrightarrow> \<not> ready e"
    and is_ready: "rep e Finished \<Longrightarrow> ready e"
    and suspend_idle: "rep e Idle \<Longrightarrow> in_exec ex \<Longrightarrow>
          \<exists>e'. suspend h (e, ex) = (Inr (), e', ex) \<and> rep e' (Waits h)"
    and suspend_finished: "rep e Finished \<Longrightarrow> in_exec ex \<Longrightarrow>
          \<exists>e'. suspend h (e, ex) = (Inr (), e', ex\<lparr>posted := posted ex @ [h]\<rparr>) \<and> rep e' Spent"
    and finish_idle: "rep e Idle \<Longrightarrow> in_exec ex \<Longrightarrow>
          \<exists>e'. finish (e, ex) = (Inr (), e', ex) \<and> rep e' Finished"
    and finish_waits: "rep e (Waits h) \<Longrightarrow> in_exec ex \<Longrightarrow>
          \<exists>e'. finish (e, ex) = (Inr (), e', ex\<lparr>posted := posted ex @ [h]\<rparr>) \<and> rep e' Spent"
begin

definition wake_inv :: "handle \<Rightarrow> 'e wake_sys \<Rightarrow> bool" where
  "wake_inv h s \<longleftrightarrow> rep (ws_event s) (event_of h s) \<and> in_exec (ws_exec s) \<and> ws_fault s = None \<and>
     posted (ws_exec s) = woken_so_far h s \<and> (ws_pc s = W_through \<longrightarrow> ws_finished s)"

text \<open>The event, by where the task and the completion are.\<close>

lemma wake_inv_rep:
  assumes "wake_inv h s"
  shows "ws_pc s \<noteq> W_suspended \<Longrightarrow> \<not> ws_finished s \<Longrightarrow> rep (ws_event s) Idle"
    and "ws_pc s \<noteq> W_suspended \<Longrightarrow> ws_finished s \<Longrightarrow> rep (ws_event s) Finished"
    and "ws_pc s = W_suspended \<Longrightarrow> \<not> ws_finished s \<Longrightarrow> rep (ws_event s) (Waits h)"
  using assms by (simp_all add: wake_inv_def event_of_def)

lemma suspend_inv:
  assumes inv: "wake_inv h s" and pc: "ws_pc s = W_unready" and res: "suspend h (ws_event s, ws_exec s) = (r, e, ex)"
  shows "wake_inv h (s\<lparr>ws_event := e, ws_exec := ex, ws_pc := W_suspended, ws_fault := wake_fault r\<rparr>)"
proof -
  from inv have ex: "in_exec (ws_exec s)" by (simp add: wake_inv_def)
  show ?thesis
    using wake_inv_rep [OF inv] suspend_finished [OF _ ex, of "ws_event s" h] suspend_idle [OF _ ex, of "ws_event s" h] inv pc res
    by (cases "ws_finished s") (auto simp: wake_inv_def event_of_def woken_so_far_def wake_fault_def)
qed

lemma finish_inv:
  assumes inv: "wake_inv h s" and fin: "\<not> ws_finished s" and res: "finish (ws_event s, ws_exec s) = (r, e, ex)"
  shows "wake_inv h (s\<lparr>ws_event := e, ws_exec := ex, ws_finished := True, ws_fault := wake_fault r\<rparr>)"
proof -
  from inv have ex: "in_exec (ws_exec s)" by (simp add: wake_inv_def)
  show ?thesis
    using wake_inv_rep [OF inv] finish_waits [OF _ ex, of "ws_event s" h] finish_idle [OF _ ex, of "ws_event s"] inv fin res
    by (cases "ws_pc s = W_suspended") (auto simp: wake_inv_def event_of_def woken_so_far_def wake_fault_def)
qed

lemma wake_inv_step:
  assumes inv: "wake_inv h s" and step: "wake_step h ready suspend finish l s = Some t"
  shows "wake_inv h t"
proof (cases l)
  case E_ready
  with step have pc: "ws_pc s = W_start"
    and t: "t = s\<lparr>ws_pc := if ready (ws_event s) then W_through else W_unready\<rparr>"
    by (auto split: if_splits)
  have "ready (ws_event s) = ws_finished s"
    using wake_inv_rep(1,2) [OF inv] is_ready not_ready pc by auto
  with inv pc show ?thesis by (simp add: wake_inv_def t event_of_def woken_so_far_def)
next
  case E_suspend
  with step show ?thesis by (auto split: if_splits prod.splits intro: suspend_inv [OF inv])
next
  case E_finish
  with step show ?thesis by (auto split: if_splits prod.splits intro: finish_inv [OF inv])
qed

text \<open>Exactly once, never early, and no fault.\<close>

lemma wakes_once:
  assumes "reach (wake_init init) (wake_step h ready suspend finish) s"
  shows "posted (ws_exec s) = woken_so_far h s" and "ws_fault s = None"
    and "ws_pc s = W_through \<Longrightarrow> ws_finished s"
proof -
  have "wake_inv h s"
    using assms
  proof (rule reach_invariant)
    show "wake_inv h (wake_init init)"
      by (simp add: wake_inv_def wake_init_def event_of_def woken_so_far_def init_idle)
  qed (rule wake_inv_step)
  then show "posted (ws_exec s) = woken_so_far h s" and "ws_fault s = None"
    and "ws_pc s = W_through \<Longrightarrow> ws_finished s" by (simp_all add: wake_inv_def)
qed

end

end
