(* ===== verification/Future.thy ===== *)
theory Future imports Wake_Interface Ownership begin

text \<open>
  \<open>crasy::future\<close> (include/crasy/future.hpp): the promise in the coroutine frame, the
  awaitable side, and the ownership of the frame. The promise has no lock and no atomics.
  A finished body is \<open>Inl e\<close> when it let the exception \<open>e\<close> escape and \<open>Inr v\<close> when
  it returned \<open>v\<close>. The explicit specialisation \<open>future<void>\<close> is in \<open>Future_Void\<close>.
\<close>

section \<open>The promise\<close>

record 'v fut_promise =
  fp_value :: "'v option"
  fp_ex :: "exn option"
  fp_suspended :: "handle option"
  fp_done :: bool

definition fut_promise_init :: "'v fut_promise" where
  "fut_promise_init = \<lparr>fp_value = None, fp_ex = None, fp_suspended = None, fp_done = False\<rparr>"

definition fut_unhandled_exception :: "exn \<Rightarrow> 'v fut_promise \<Rightarrow> 'v fut_promise" where
  "fut_unhandled_exception e p = p\<lparr>fp_ex := Some e\<rparr>"

definition fut_return_value :: "'v \<Rightarrow> 'v fut_promise \<Rightarrow> 'v fut_promise" where
  "fut_return_value v p = p\<lparr>fp_value := Some v\<rparr>"

definition fut_final_suspend :: "(unit, 'v fut_promise \<times> exec_ctx) comp" where
  "fut_final_suspend = (\<lambda>(p, ex).
     let p1 = p\<lparr>fp_done := True\<rparr>
     in case fp_suspended p1 of
          Some h \<Rightarrow> (let (r, ex1) = schedule_task h ex in (r, p1\<lparr>fp_suspended := None\<rparr>, ex1))
        | None \<Rightarrow> (Inr (), p1, ex))"

section \<open>The awaitable\<close>

definition fut_await_ready :: "'v fut_promise \<Rightarrow> bool" where
  "fut_await_ready p = fp_done p"

definition fut_await_suspend :: "handle \<Rightarrow> (unit, 'v fut_promise \<times> exec_ctx) comp" where
  "fut_await_suspend suspended = (\<lambda>(p, ex). (Inr (), p\<lparr>fp_suspended := Some suspended\<rparr>, ex))"

text \<open>
  \<^verbatim>\<open>*std::move(promise.value_)\<close> on an empty option is undefined; moving the value out leaves
  the option engaged, with what the type's move constructor leaves behind, \<open>moved v\<close>.
\<close>

definition fut_await_resume :: "('v \<Rightarrow> 'v) \<Rightarrow> ('v, 'v fut_promise) comp" where
  "fut_await_resume moved p =
     (case fp_ex p of
        Some e \<Rightarrow> (Inl (Throw e), p\<lparr>fp_ex := None\<rparr>)
      | None \<Rightarrow> (case fp_value p of
                   Some v \<Rightarrow> (Inr v, p\<lparr>fp_value := Some (moved v)\<rparr>)
                 | None \<Rightarrow> (Inl (Undefined Empty_option_deref), p)))"

text \<open>What the compiler makes of a finished body: store the outcome, then \<open>final_suspend\<close>.\<close>

definition fut_complete :: "exn + 'v \<Rightarrow> (unit, 'v fut_promise \<times> exec_ctx) comp" where
  "fut_complete r = (\<lambda>(p, ex). fut_final_suspend
     (case r of Inl e \<Rightarrow> fut_unhandled_exception e p | Inr v \<Rightarrow> fut_return_value v p, ex))"

section \<open>The owner of the frame\<close>

type_synonym fut_handle = "nat option"

definition future_ctor :: "nat \<Rightarrow> fut_handle" where
  "future_ctor h = Some h"

definition future_move :: "fut_handle \<Rightarrow> fut_handle \<times> fut_handle" where
  "future_move other = (other, None)"

definition future_assign :: "fut_handle \<Rightarrow> fut_handle \<Rightarrow> fut_handle \<times> fut_handle" where
  "future_assign this rhs = (let tmp = this in (rhs, tmp))"

definition future_destroy :: "fut_handle \<Rightarrow> nat list" where
  "future_destroy g = (case g of Some h \<Rightarrow> [h] | None \<Rightarrow> [])"

definition into_handle :: "fut_handle \<Rightarrow> fut_handle \<times> fut_handle" where
  "into_handle g = (g, None)"

definition fut_owns :: "fut_handle \<Rightarrow> nat multiset" where
  "fut_owns g = mset_set (set_option g)"

interpretation fo: owner future_ctor future_move future_assign future_destroy fut_owns
  by unfold_locales
    (auto simp: future_ctor_def future_move_def future_assign_def future_destroy_def fut_owns_def
      split: option.splits)

lemmas fut_defs = fut_promise_init_def fut_unhandled_exception_def fut_return_value_def
  fut_final_suspend_def fut_await_ready_def fut_await_suspend_def
  fut_await_resume_def fut_complete_def

section \<open>Properties\<close>

text \<open>
  A future delivers what its body ended with: the returned value or the escaped exception;
  the waiting task is scheduled once. An exception is delivered once: a further
  \<open>await_resume\<close> is then undefined.
\<close>

theorem future_delivers:
  assumes "in_exec ex"
  shows "\<exists>p. fut_complete r (fut_promise_init\<lparr>fp_suspended := w\<rparr>, ex) =
             (Inr (), p, ex\<lparr>posted := posted ex @ (case w of Some h \<Rightarrow> [h] | None \<Rightarrow> [])\<rparr>) \<and>
           fut_await_ready p \<and>
           fst (fut_await_resume moved p) = (case r of Inl e \<Rightarrow> Inl (Throw e) | Inr v \<Rightarrow> Inr v) \<and>
           fst (fut_await_resume moved (snd (fut_await_resume moved p))) =
             (case r of Inl e \<Rightarrow> Inl (Undefined Empty_option_deref) | Inr v \<Rightarrow> Inr (moved v))"
  using assms by (cases r; cases w) (simp_all add: fut_defs)

theorem future_delivers_witness:
  "\<exists>p. fut_complete (Inr (9::nat)) (fut_promise_init\<lparr>fp_suspended := Some 4\<rparr>, \<lparr>in_exec = True, posted = []\<rparr>) =
         (Inr (), p, \<lparr>in_exec = True, posted = [4]\<rparr>) \<and> fst (fut_await_resume (\<lambda>_. 0) p) = Inr 9"
  using future_delivers [of "\<lparr>in_exec = True, posted = []\<rparr>" "Inr (9::nat)" "Some 4" "\<lambda>_. 0"] by auto

text \<open>What is known after a schedule of the three operations.\<close>

fun suspended_first :: "wake_label list \<Rightarrow> bool" where
  "suspended_first [] = False"
| "suspended_first (E_suspend # ls) = (E_finish \<in> set ls)"
| "suspended_first (l # ls) = suspended_first ls"

definition fut_after :: "handle \<Rightarrow> wake_label list \<Rightarrow> 'v fut_promise wake_sys \<Rightarrow> bool" where
  "fut_after h ls s \<longleftrightarrow>
     (ws_pc s = W_suspended \<longleftrightarrow> E_suspend \<in> set ls) \<and> (ws_finished s \<longleftrightarrow> E_finish \<in> set ls) \<and>
     (ws_pc s = W_through \<longrightarrow> ws_finished s) \<and> ws_fault s = None \<and> in_exec (ws_exec s) \<and>
     fp_done (ws_event s) = ws_finished s \<and>
     posted (ws_exec s) = (if suspended_first ls then [h] else []) \<and>
     fp_suspended (ws_event s) = (if E_suspend \<in> set ls \<and> \<not> suspended_first ls then Some h else None)"

lemma suspended_first_snoc:
  "suspended_first (ls @ [l]) \<longleftrightarrow> suspended_first ls \<or> E_suspend \<in> set ls \<and> l = E_finish"
  by (induction ls rule: suspended_first.induct) (cases l; auto)+

lemma suspended_first_needs: "suspended_first ls \<Longrightarrow> E_suspend \<in> set ls \<and> E_finish \<in> set ls"
  by (induction ls rule: suspended_first.induct) auto

lemma fut_complete_effect:
  assumes "in_exec ex" and "fut_complete r (p, ex) = (res, p', ex')"
  shows "res = Inr () \<and> fp_done p' \<and> fp_suspended p' = None \<and> in_exec ex' \<and>
         posted ex' = posted ex @ (case fp_suspended p of Some h \<Rightarrow> [h] | None \<Rightarrow> [])"
  using assms by (cases r; cases "fp_suspended p") (auto simp: fut_defs)

lemma fut_after_step:
  assumes inv: "fut_after h ls s" and step: "wake_step h fut_await_ready fut_await_suspend (fut_complete r) l s = Some t"
  shows "fut_after h (ls @ [l]) t"
proof (cases l)
  case E_ready
  with inv step show ?thesis
    by (simp add: fut_after_def suspended_first_snoc fut_await_ready_def split: if_splits)
      (auto dest: suspended_first_needs)
next
  case E_suspend
  with inv step have "\<not> suspended_first ls" by (auto simp: fut_after_def dest: suspended_first_needs split: if_splits)
  with E_suspend inv step show ?thesis
    by (simp add: fut_after_def suspended_first_snoc fut_await_suspend_def wake_fault_def split: if_splits) auto
next
  case E_finish
  obtain res p ex where c: "fut_complete r (ws_event s, ws_exec s) = (res, p, ex)" by (metis prod_cases3)
  from E_finish inv step c have "\<not> suspended_first ls" "in_exec (ws_exec s)"
    and t: "t = s\<lparr>ws_event := p, ws_exec := ex, ws_finished := True, ws_fault := wake_fault res\<rparr>"
    by (auto simp: fut_after_def dest: suspended_first_needs split: if_splits)
  with E_finish inv fut_complete_effect [OF _ c] show ?thesis
    by (auto simp: fut_after_def suspended_first_snoc wake_fault_def)
qed

lemma run_fut_after:
  "run (wake_step h fut_await_ready fut_await_suspend (fut_complete r)) ls (wake_init fut_promise_init) = Some s
     \<Longrightarrow> fut_after h ls s"
proof (induction ls arbitrary: s rule: rev_induct)
  case Nil
  then show ?case by (auto simp: fut_after_def wake_init_def fut_promise_init_def)
next
  case (snoc l ls)
  then show ?case by (auto simp: run_append split: option.splits intro: fut_after_step)
qed

text \<open>
  C29: when the task that awaits a future is scheduled: however the body's end interleaves with
  \<open>await_ready\<close> and \<open>await_suspend\<close>, and whatever the body ends with, the task is
  scheduled once if it had suspended before the body ended and never otherwise. A task that found the
  future not ready and suspends after the body's end therefore waits for ever, although the future is
  done; only a body that cannot end between the two calls is safe.
\<close>

theorem future_woken_iff_suspended_first:
  assumes "run (wake_step h fut_await_ready fut_await_suspend (fut_complete r)) ls
             (wake_init fut_promise_init) = Some s"
  shows "posted (ws_exec s) = (if suspended_first ls then [h] else []) \<and> ws_fault s = None \<and>
         (ws_pc s = W_suspended \<longleftrightarrow> E_suspend \<in> set ls) \<and> (ws_pc s = W_through \<longrightarrow> fut_await_ready (ws_event s)) \<and>
         (fut_await_ready (ws_event s) \<longleftrightarrow> E_finish \<in> set ls)"
  using run_fut_after [OF assms] by (auto simp: fut_after_def fut_await_ready_def)

theorem future_woken_iff_suspended_first_witness:
  "(\<exists>s. run (wake_step 5 fut_await_ready fut_await_suspend (fut_complete (Inr (9 :: nat)))) [E_ready, E_suspend, E_finish]
          (wake_init fut_promise_init) = Some s \<and> posted (ws_exec s) = [5]) \<and>
   (\<exists>s. run (wake_step 5 fut_await_ready fut_await_suspend (fut_complete (Inr (9 :: nat)))) [E_ready, E_finish, E_suspend]
          (wake_init fut_promise_init) = Some s \<and> ws_pc s = W_suspended \<and> fut_await_ready (ws_event s) \<and>
          posted (ws_exec s) = [])"
proof (intro conjI)
  let ?step = "wake_step 5 fut_await_ready fut_await_suspend (fut_complete (Inr (9 :: nat)))"
  have "run_sat ?step [E_ready, E_suspend, E_finish] (wake_init fut_promise_init) (\<lambda>_. True)" by code_simp
  then obtain s where "run ?step [E_ready, E_suspend, E_finish] (wake_init fut_promise_init) = Some s"
    by (rule run_satE)
  with future_woken_iff_suspended_first [OF this]
  show "\<exists>s. run ?step [E_ready, E_suspend, E_finish] (wake_init fut_promise_init) = Some s \<and>
        posted (ws_exec s) = [5]" by auto
  have "run_sat ?step [E_ready, E_finish, E_suspend] (wake_init fut_promise_init) (\<lambda>_. True)" by code_simp
  then obtain s where "run ?step [E_ready, E_finish, E_suspend] (wake_init fut_promise_init) = Some s"
    by (rule run_satE)
  with future_woken_iff_suspended_first [OF this]
  show "\<exists>s. run ?step [E_ready, E_finish, E_suspend] (wake_init fut_promise_init) = Some s \<and>
        ws_pc s = W_suspended \<and> fut_await_ready (ws_event s) \<and> posted (ws_exec s) = []"
    by auto
qed

text \<open>
  One such schedule: when the awaited body finishes on another thread between \<open>await_ready\<close> and
  \<open>await_suspend\<close>, the wake-up is lost: a state is reachable in which the task is suspended,
  the future is done, and nobody is scheduled; no operation is left that would schedule it.
\<close>

theorem future_lost_wakeup:
  "\<exists>s. reach (wake_init (fut_promise_init :: nat fut_promise))
            (wake_step 5 fut_await_ready fut_await_suspend (fut_complete (Inr 9))) s \<and>
       ws_pc s = W_suspended \<and> fut_await_ready (ws_event s) \<and> posted (ws_exec s) = [] \<and> ws_fault s = None \<and>
       (\<forall>l. wake_step 5 fut_await_ready fut_await_suspend (fut_complete (Inr 9)) l s = None)"
proof -
  have "run_sat (wake_step 5 fut_await_ready fut_await_suspend (fut_complete (Inr 9)))
      [E_ready, E_finish, E_suspend] (wake_init (fut_promise_init :: nat fut_promise))
      (\<lambda>s. ws_pc s = W_suspended \<and> fut_await_ready (ws_event s) \<and> posted (ws_exec s) = [] \<and>
           ws_fault s = None \<and> ws_finished s)" by code_simp
  then obtain s where "reach (wake_init (fut_promise_init :: nat fut_promise))
      (wake_step 5 fut_await_ready fut_await_suspend (fut_complete (Inr 9))) s"
    and "ws_pc s = W_suspended \<and> fut_await_ready (ws_event s) \<and> posted (ws_exec s) = [] \<and>
         ws_fault s = None \<and> ws_finished s" by (rule run_satE)
  moreover from this(2) have "wake_step 5 fut_await_ready fut_await_suspend (fut_complete (Inr 9)) l s = None"
    for l by (cases l) simp_all
  ultimately show ?thesis by blast
qed

text \<open>
  In every program that creates, moves, assigns and destroys futures, each coroutine
  frame is destroyed at most once, and exactly once when all futures are gone.
\<close>

theorem future_frames_destroyed_once:
  assumes "run (own_step future_ctor future_move future_assign future_destroy) ops no_vars = Some s"
  shows "mset (ov_log s) + owned fut_owns (ov_slots s) = made ops \<and>
         (set (ov_slots s) \<subseteq> {None} \<longrightarrow> mset (ov_log s) = made ops)"
  using fo.released_once [OF assms] by simp

theorem future_frames_destroyed_once_witness:
  "\<exists>s. run (own_step future_ctor future_move future_assign future_destroy)
         [O_new 4, O_move 0, O_destroy 1, O_destroy 0] no_vars = Some s \<and> mset (ov_log s) = {#4#}"
proof -
  let ?ops = "[O_new 4, O_move 0, O_destroy 1, O_destroy 0]"
  have r: "run (own_step future_ctor future_move future_assign future_destroy) ?ops no_vars =
      Some \<lparr>ov_slots = [None, None], ov_log = [4]\<rparr>" by code_simp
  with future_frames_destroyed_once [OF r] show ?thesis by simp
qed

end
