(* ===== verification/Specialisation.thy ===== *)
theory Specialisation imports Prelude begin

text \<open>
  The sources write three classes twice, as a template and as an explicit specialisation for
  \<^verbatim>\<open>void\<close>. This theory holds what the comparison of such a pair needs: the operations a
  client sees, their observable results, and the locale in which the specialisation is the template
  at the unit type with part of its state forgotten.
\<close>

fun observe :: "('o \<Rightarrow> 's \<Rightarrow> 'r \<times> 's) \<Rightarrow> 'o list \<Rightarrow> 's \<Rightarrow> 'r list \<times> 's" where
  "observe step [] s = ([], s)"
| "observe step (x # xs) s =
     (let (r, s1) = step x s; (rs, s2) = observe step xs s1 in (r # rs, s2))"

locale specialises =
  fixes general :: "'o \<Rightarrow> 's \<Rightarrow> 'r \<times> 's"
    and special :: "'o \<Rightarrow> 't \<Rightarrow> 'r \<times> 't"
    and forget :: "'s \<Rightarrow> 't"
    and erase :: "'o \<Rightarrow> 'r \<Rightarrow> 'r"
  assumes commutes: "special x (forget s) = (erase x (fst (general x s)), forget (snd (general x s)))"
begin

lemma observe_special:
  "observe special xs (forget s) =
     (map2 erase xs (fst (observe general xs s)), forget (snd (observe general xs s)))"
proof (induction xs arbitrary: s)
  case (Cons x xs)
  then show ?case by (simp add: commutes split_beta)
qed simp

end

text \<open>
  The client of an awaitable: it ends with a value or an exception (\<open>Finish\<close>), is asked and
  suspended on and resumed from, and a join handle can be detached; the results are answers, or
  nothing, or a fault.
\<close>

datatype aw_op = Finish "exn + unit" | Ask_ready | Suspend handle | Resume

datatype handle_op = Await aw_op | Detach

datatype aw_obs = Obs_bool "fault + bool" | Obs_unit "fault + unit"

definition obs_unit :: "(fault + unit) \<times> 's \<Rightarrow> aw_obs \<times> 's" where
  "obs_unit z = (Obs_unit (fst z), snd z)"

definition obs_keep :: "('t \<Rightarrow> (fault + unit) \<times> 't) \<Rightarrow> 't \<times> 'x \<Rightarrow> aw_obs \<times> ('t \<times> 'x)" where
  "obs_keep f = (\<lambda>(t, x). let (r, t1) = f t in (Obs_unit r, t1, x))"

text \<open>The one difference: without a value there is no empty option to dereference.\<close>

definition no_value :: "aw_obs \<Rightarrow> aw_obs" where
  "no_value r = (if r = Obs_unit (Inl (Undefined Empty_option_deref)) then Obs_unit (Inr ()) else r)"

fun erase_value :: "aw_op \<Rightarrow> aw_obs \<Rightarrow> aw_obs" where
  "erase_value Resume r = no_value r"
| "erase_value x r = r"

fun erase_await :: "handle_op \<Rightarrow> aw_obs \<Rightarrow> aw_obs" where
  "erase_await (Await x) r = erase_value x r"
| "erase_await Detach r = r"

lemma schedule_task_no_ub [simp]: "fst (schedule_task h ex) \<noteq> Inl (Undefined u)"
  by (simp add: schedule_task_def)

lemmas obs_defs = obs_unit_def obs_keep_def no_value_def

end
