(* ===== verification/Future_Void.thy ===== *)
theory Future_Void imports Future Specialisation begin

text \<open>
  \<open>future<void>\<close> (include/crasy/future.hpp, the explicit specialisation): a promise without a
  value. It is compared with \<open>future<T>\<close> at the unit type.
\<close>

section \<open>The promise\<close>

record fv_promise =
  fv_ex :: "exn option"
  fv_suspended :: "handle option"
  fv_done :: bool

definition fv_promise_init :: fv_promise where
  "fv_promise_init = \<lparr>fv_ex = None, fv_suspended = None, fv_done = False\<rparr>"

definition fv_unhandled_exception :: "exn \<Rightarrow> fv_promise \<Rightarrow> fv_promise" where
  "fv_unhandled_exception e p = p\<lparr>fv_ex := Some e\<rparr>"

definition fv_return_void :: "fv_promise \<Rightarrow> fv_promise" where
  "fv_return_void p = p"

definition fv_final_suspend :: "(unit, fv_promise \<times> exec_ctx) comp" where
  "fv_final_suspend = (\<lambda>(p, ex).
     let p1 = p\<lparr>fv_done := True\<rparr>
     in case fv_suspended p1 of
          Some h \<Rightarrow> (let (r, ex1) = schedule_task h ex in (r, p1\<lparr>fv_suspended := None\<rparr>, ex1))
        | None \<Rightarrow> (Inr (), p1, ex))"

section \<open>The awaitable\<close>

definition fv_await_ready :: "fv_promise \<Rightarrow> bool" where
  "fv_await_ready p = fv_done p"

definition fv_await_suspend :: "handle \<Rightarrow> (unit, fv_promise \<times> exec_ctx) comp" where
  "fv_await_suspend suspended = (\<lambda>(p, ex). (Inr (), p\<lparr>fv_suspended := Some suspended\<rparr>, ex))"

definition fv_await_resume :: "(unit, fv_promise) comp" where
  "fv_await_resume p =
     (case fv_ex p of
        Some e \<Rightarrow> (Inl (Throw e), p\<lparr>fv_ex := None\<rparr>)
      | None \<Rightarrow> (Inr (), p))"

definition fv_complete :: "exn + unit \<Rightarrow> (unit, fv_promise \<times> exec_ctx) comp" where
  "fv_complete r = (\<lambda>(p, ex). fv_final_suspend
     (case r of Inl e \<Rightarrow> fv_unhandled_exception e p | Inr _ \<Rightarrow> fv_return_void p, ex))"

section \<open>The owner of the frame\<close>

definition fv_ctor :: "nat \<Rightarrow> fut_handle" where
  "fv_ctor h = Some h"

definition fv_move :: "fut_handle \<Rightarrow> fut_handle \<times> fut_handle" where
  "fv_move other = (other, None)"

definition fv_assign :: "fut_handle \<Rightarrow> fut_handle \<Rightarrow> fut_handle \<times> fut_handle" where
  "fv_assign this rhs = (let tmp = this in (rhs, tmp))"

definition fv_destroy :: "fut_handle \<Rightarrow> nat list" where
  "fv_destroy g = (case g of Some h \<Rightarrow> [h] | None \<Rightarrow> [])"

definition fv_into_handle :: "fut_handle \<Rightarrow> fut_handle \<times> fut_handle" where
  "fv_into_handle g = (g, None)"

interpretation fvo: owner fv_ctor fv_move fv_assign fv_destroy fut_owns
  by unfold_locales
    (auto simp: fv_ctor_def fv_move_def fv_assign_def fv_destroy_def fut_owns_def split: option.splits)

lemmas fv_defs = fv_promise_init_def fv_unhandled_exception_def fv_return_void_def
  fv_final_suspend_def fv_await_ready_def fv_await_suspend_def fv_await_resume_def fv_complete_def

section \<open>Compared with the template\<close>

fun fut_obs :: "aw_op \<Rightarrow> unit fut_promise \<times> exec_ctx \<Rightarrow> aw_obs \<times> unit fut_promise \<times> exec_ctx" where
  "fut_obs (Finish r) s = obs_unit (fut_complete r s)"
| "fut_obs Ask_ready s = (Obs_bool (Inr (fut_await_ready (fst s))), s)"
| "fut_obs (Suspend h) s = obs_unit (fut_await_suspend h s)"
| "fut_obs Resume s = obs_keep (fut_await_resume id) s"

fun fv_obs :: "aw_op \<Rightarrow> fv_promise \<times> exec_ctx \<Rightarrow> aw_obs \<times> fv_promise \<times> exec_ctx" where
  "fv_obs (Finish r) s = obs_unit (fv_complete r s)"
| "fv_obs Ask_ready s = (Obs_bool (Inr (fv_await_ready (fst s))), s)"
| "fv_obs (Suspend h) s = obs_unit (fv_await_suspend h s)"
| "fv_obs Resume s = obs_keep fv_await_resume s"

definition fut_forget :: "unit fut_promise \<Rightarrow> fv_promise" where
  "fut_forget p = \<lparr>fv_ex = fp_ex p, fv_suspended = fp_suspended p, fv_done = fp_done p\<rparr>"

interpretation fvs: specialises fut_obs fv_obs "apfst fut_forget" erase_value
proof unfold_locales
  fix x and s :: "unit fut_promise \<times> exec_ctx"
  obtain p ex where s: "s = (p, ex)" by fastforce
  show "fv_obs x (apfst fut_forget s) = (erase_value x (fst (fut_obs x s)), apfst fut_forget (snd (fut_obs x s)))"
    by (cases x)
      (auto simp: s obs_defs fv_defs fut_defs fut_forget_def split_beta Let_def split: sum.splits option.splits)
qed

end
