(* ===== verification/Spawn.thy ===== *)
theory Spawn imports Future begin

text \<open>
  \<open>spawn\<close> and its join handle (include/crasy/spawn.hpp). The frame of the spawned coroutine
  holds the promise; \<open>None\<close> is a destroyed frame, and every access to it is a use after free.
  Each operation holds the promise's mutex for its whole body, so it is one atomic step.
\<close>

section \<open>The promise\<close>

datatype join_state = J_waiting | J_done | J_detached

record 'v join_promise =
  jp_value :: "'v option"
  jp_ex :: "exn option"
  jp_suspended :: "handle option"
  jp_state :: join_state

type_synonym 'v frame = "'v join_promise option"

definition join_promise_init :: "'v join_promise" where
  "join_promise_init = \<lparr>jp_value = None, jp_ex = None, jp_suspended = None, jp_state = J_waiting\<rparr>"

definition jp_unhandled_exception :: "exn \<Rightarrow> 'v join_promise \<Rightarrow> 'v join_promise" where
  "jp_unhandled_exception e p = p\<lparr>jp_ex := Some e\<rparr>"

definition jp_return_value :: "'v \<Rightarrow> 'v join_promise \<Rightarrow> 'v join_promise" where
  "jp_return_value v p = p\<lparr>jp_value := Some v\<rparr>"

text \<open>\<open>final_suspend\<close>: a detached task destroys its own frame.\<close>

definition jp_final_suspend :: "(unit, 'v frame \<times> exec_ctx) comp" where
  "jp_final_suspend = (\<lambda>(fr, ex).
     case fr of
       None \<Rightarrow> (Inl (Undefined Use_after_free), fr, ex)
     | Some p \<Rightarrow>
         (if jp_state p = J_detached then (Inr (), None, ex)
          else (let p1 = p\<lparr>jp_state := J_done\<rparr>
                in case jp_suspended p1 of
                     Some h \<Rightarrow> (let (r, ex1) = schedule_task h ex
                                in (r, Some (p1\<lparr>jp_suspended := None\<rparr>), ex1))
                   | None \<Rightarrow> (Inr (), Some p1, ex))))"

text \<open>
  After \<open>final_suspend\<close> returned its \<^verbatim>\<open>suspend_always\<close>, the coroutine suspends: that
  the coroutine is at its final suspend point is recorded in its frame.
\<close>

definition frame_suspend :: "(unit, 'v frame \<times> exec_ctx) comp" where
  "frame_suspend = (\<lambda>(fr, ex).
     case fr of None \<Rightarrow> (Inl (Undefined Use_after_free), fr, ex) | Some p \<Rightarrow> (Inr (), fr, ex))"

section \<open>The handle\<close>

type_synonym join_handle = "nat option"

definition jh_await_ready :: "'v frame \<Rightarrow> fault + bool" where
  "jh_await_ready fr =
     (case fr of None \<Rightarrow> Inl (Undefined Use_after_free) | Some p \<Rightarrow> Inr (jp_state p = J_done))"

definition jh_await_suspend :: "handle \<Rightarrow> (unit, 'v frame \<times> exec_ctx) comp" where
  "jh_await_suspend suspended = (\<lambda>(fr, ex).
     case fr of
       None \<Rightarrow> (Inl (Undefined Use_after_free), fr, ex)
     | Some p \<Rightarrow>
         (if jp_state p = J_waiting then (Inr (), Some (p\<lparr>jp_suspended := Some suspended\<rparr>), ex)
          else (let (r, ex1) = schedule_task suspended ex in (r, fr, ex1))))"

definition jh_await_resume :: "('v \<Rightarrow> 'v) \<Rightarrow> ('v, 'v frame) comp" where
  "jh_await_resume moved fr =
     (case fr of
        None \<Rightarrow> (Inl (Undefined Use_after_free), fr)
      | Some p \<Rightarrow>
          (case jp_ex p of
             Some e \<Rightarrow> (Inl (Throw e), Some (p\<lparr>jp_ex := None\<rparr>))
           | None \<Rightarrow> (case jp_value p of
                        Some v \<Rightarrow> (Inr v, Some (p\<lparr>jp_value := Some (moved v)\<rparr>))
                      | None \<Rightarrow> (Inl (Undefined Empty_option_deref), fr))))"

text \<open>\<open>detach\<close> does not reset \<open>handle_\<close>; it takes the handle because a null one has no promise.\<close>

definition jh_detach :: "join_handle \<Rightarrow> (unit, 'v frame) comp" where
  "jh_detach g fr =
     (case g of
        None \<Rightarrow> (Inl (Undefined Null_deref), fr)
      | Some _ \<Rightarrow>
          (case fr of
             None \<Rightarrow> (Inl (Undefined Use_after_free), fr)
           | Some p \<Rightarrow> if jp_state p = J_done then (Inr (), None)
                       else (Inr (), Some (p\<lparr>jp_state := J_detached\<rparr>))))"

definition jh_destroy :: "join_handle \<Rightarrow> (unit, 'v frame) comp" where
  "jh_destroy g fr = (if g \<noteq> None then jh_detach g fr else (Inr (), fr))"

definition jh_ctor :: "nat \<Rightarrow> join_handle" where
  "jh_ctor h = Some h"

definition jh_move :: "join_handle \<Rightarrow> join_handle \<times> join_handle" where
  "jh_move other = (other, None)"

definition jh_assign :: "join_handle \<Rightarrow> join_handle \<Rightarrow> join_handle \<times> join_handle" where
  "jh_assign this rhs = (let tmp = this in (rhs, tmp))"

text \<open>\<open>spawn\<close>: the wrapper coroutine awaits the future, whose outcome is \<open>r\<close>, and returns it.\<close>

definition spawn_body :: "exn + 'v \<Rightarrow> 'v join_promise \<Rightarrow> 'v join_promise" where
  "spawn_body r p = (case r of Inl e \<Rightarrow> jp_unhandled_exception e p | Inr v \<Rightarrow> jp_return_value v p)"

definition spawn_finish :: "exn + 'v \<Rightarrow> (unit, 'v frame \<times> exec_ctx) comp" where
  "spawn_finish r = (\<lambda>(fr, ex). jp_final_suspend (map_option (spawn_body r) fr, ex))"

lemmas join_defs = join_promise_init_def jp_unhandled_exception_def jp_return_value_def
  jp_final_suspend_def jh_await_ready_def jh_await_suspend_def jh_await_resume_def
  spawn_body_def spawn_finish_def

section \<open>Waking the joining task\<close>

definition jh_ready :: "'v frame \<Rightarrow> bool" where
  "jh_ready fr = (jh_await_ready fr = Inr True)"

fun join_rep :: "'v frame \<Rightarrow> event_state \<Rightarrow> bool" where
  "join_rep fr Spent = True"
| "join_rep None _ = False"
| "join_rep (Some p) Idle = (jp_state p = J_waiting \<and> jp_suspended p = None)"
| "join_rep (Some p) (Waits h) = (jp_state p = J_waiting \<and> jp_suspended p = Some h)"
| "join_rep (Some p) Finished = (jp_state p = J_done)"

interpretation jn: one_shot "Some join_promise_init" jh_ready jh_await_suspend "spawn_finish r" join_rep
  for r :: "exn + 'v"
proof unfold_locales
  fix e :: "'v frame" and ex :: exec_ctx and h
  show "join_rep (Some join_promise_init :: 'v frame) Idle" by (simp add: join_defs)
  show "\<not> jh_ready e" if "join_rep e Idle"
    using that by (cases e) (simp_all add: jh_ready_def join_defs)
  show "jh_ready e" if "join_rep e Finished"
    using that by (cases e) (simp_all add: jh_ready_def join_defs)
  show "\<exists>e'. jh_await_suspend h (e, ex) = (Inr (), e', ex) \<and> join_rep e' (Waits h)"
    if "join_rep e Idle" "in_exec ex" using that by (cases e) (simp_all add: join_defs)
  show "\<exists>e'. jh_await_suspend h (e, ex) = (Inr (), e', ex\<lparr>posted := posted ex @ [h]\<rparr>) \<and> join_rep e' Spent"
    if "join_rep e Finished" "in_exec ex" using that by (cases e) (simp_all add: join_defs)
  show "\<exists>e'. spawn_finish r (e, ex) = (Inr (), e', ex) \<and> join_rep e' Finished"
    if "join_rep e Idle" "in_exec ex" using that
    by (cases e; cases r) (simp_all add: join_defs)
  show "\<exists>e'. spawn_finish r (e, ex) = (Inr (), e', ex\<lparr>posted := posted ex @ [h]\<rparr>) \<and> join_rep e' Spent"
    if "join_rep e (Waits h)" "in_exec ex" using that
    by (cases e; cases r) (simp_all add: join_defs)
qed

section \<open>The life of the frame\<close>

text \<open>
  The task finishes (\<open>J_finish\<close>) and parks at its final suspend point (\<open>J_park\<close>), on one
  thread; the owner of the handle may call \<open>detach\<close> (\<open>J_detach\<close>) and drops the handle
  (\<open>J_drop\<close>), on another. \<open>js_destroyed\<close> is a ghost that counts destructions of the frame.
\<close>

datatype task_pc = T_running | T_final | T_parked

record 'v join_sys =
  js_frame :: "'v frame"
  js_exec :: exec_ctx
  js_handle :: "join_handle option"   \<comment> \<open>\<open>None\<close> once the handle variable is gone\<close>
  js_task :: task_pc
  js_destroyed :: nat
  js_fault :: "fault option"

datatype join_label = J_finish | J_park | J_detach | J_drop

definition join_sys_init :: "'v join_sys" where
  "join_sys_init = \<lparr>js_frame = Some join_promise_init, js_exec = \<lparr>in_exec = True, posted = []\<rparr>,
     js_handle = Some (jh_ctor 0), js_task = T_running, js_destroyed = 0, js_fault = None\<rparr>"

definition set_frame :: "(fault + unit) \<Rightarrow> 'v frame \<Rightarrow> 'v join_sys \<Rightarrow> 'v join_sys" where
  "set_frame r fr s = s\<lparr>js_frame := fr, js_fault := wake_fault r,
     js_destroyed := js_destroyed s + (if js_frame s \<noteq> None \<and> fr = None then 1 else 0)\<rparr>"

fun join_step :: "exn + 'v \<Rightarrow> join_label \<Rightarrow> 'v join_sys \<Rightarrow> 'v join_sys option" where
  "join_step out J_finish s =
     (if js_task s = T_running \<and> js_fault s = None
      then (let (r, fr, ex) = spawn_finish out (js_frame s, js_exec s)
            in Some ((set_frame r fr s)\<lparr>js_exec := ex, js_task := T_final\<rparr>))
      else None)"
| "join_step out J_park s =
     (if js_task s = T_final \<and> js_fault s = None
      then (let (r, fr, ex) = frame_suspend (js_frame s, js_exec s)
            in Some ((set_frame r fr s)\<lparr>js_exec := ex, js_task := T_parked\<rparr>))
      else None)"
| "join_step out J_detach s =
     (case js_handle s of
        Some g \<Rightarrow> if js_fault s = None
                  then (let (r, fr) = jh_detach g (js_frame s) in Some (set_frame r fr s))
                  else None
      | None \<Rightarrow> None)"
| "join_step out J_drop s =
     (case js_handle s of
        Some g \<Rightarrow> if js_fault s = None
                  then (let (r, fr) = jh_destroy g (js_frame s)
                        in Some ((set_frame r fr s)\<lparr>js_handle := None\<rparr>))
                  else None
      | None \<Rightarrow> None)"

text \<open>With the handle dropped but never detached by hand.\<close>

fun no_detach :: "exn + 'v \<Rightarrow> join_label \<Rightarrow> 'v join_sys \<Rightarrow> 'v join_sys option" where
  "no_detach out J_detach s = None"
| "no_detach out l s = join_step out l s"

definition join_inv :: "'v join_sys \<Rightarrow> bool" where
  "join_inv s \<longleftrightarrow>
     in_exec (js_exec s) \<and> (js_handle s = Some (Some 0) \<or> js_handle s = None) \<and>
     (case js_frame s of
        None \<Rightarrow> js_handle s = None \<and> js_task s \<noteq> T_running \<and> js_destroyed s = 1
      | Some p \<Rightarrow> js_destroyed s = 0 \<and> jp_suspended p = None \<and>
                  (js_handle s = None \<longrightarrow> js_task s = T_running) \<and>
                  jp_state p = (if js_task s = T_running
                                then if js_handle s = None then J_detached else J_waiting
                                else J_done)) \<and>
     (js_fault s \<noteq> None \<longrightarrow> js_frame s = None \<and> js_task s = T_parked)"

lemma join_inv_init: "join_inv join_sys_init"
  by (simp add: join_inv_def join_sys_init_def join_promise_init_def jh_ctor_def)

lemma join_inv_step:
  assumes inv: "join_inv s" and step: "no_detach out l s = Some t"
  shows "join_inv t"
proof (cases "js_frame s")
  case None
  with inv have h: "js_handle s = None" "js_task s \<noteq> T_running" "js_destroyed s = 1" "in_exec (js_exec s)"
    by (auto simp: join_inv_def)
  with step None have "t = (set_frame (Inl (Undefined Use_after_free)) None s)\<lparr>js_exec := js_exec s, js_task := T_parked\<rparr>"
    by (cases l) (auto simp: frame_suspend_def split: if_splits)
  with h None show ?thesis by (simp add: join_inv_def set_frame_def)
next
  case (Some p)
  with inv have fl: "js_fault s = None" and ex: "in_exec (js_exec s)" and d: "js_destroyed s = 0"
    and susp: "jp_suspended p = None" and hh: "js_handle s = Some (Some 0) \<or> js_handle s = None"
    and run: "js_handle s = None \<longrightarrow> js_task s = T_running"
    and st: "jp_state p = (if js_task s = T_running then if js_handle s = None then J_detached else J_waiting
             else J_done)"
    by (auto simp: join_inv_def)
  show ?thesis
  proof (cases l)
    case J_finish
    with step have run': "js_task s = T_running" by (auto split: if_splits)
    have sb: "jp_state (spawn_body out p) = jp_state p" "jp_suspended (spawn_body out p) = None"
      using susp by (auto simp: spawn_body_def jp_unhandled_exception_def jp_return_value_def split: sum.splits)
    let ?fr = "if js_handle s = None then None else Some ((spawn_body out p)\<lparr>jp_state := J_done\<rparr>)"
    have "spawn_finish out (js_frame s, js_exec s) = (Inr (), ?fr, js_exec s)"
      using Some sb st run' by (auto simp: spawn_finish_def jp_final_suspend_def)
    with step J_finish run' fl
    have "t = (set_frame (Inr ()) ?fr s)\<lparr>js_exec := js_exec s, js_task := T_final\<rparr>" by simp
    with Some d ex hh sb show ?thesis by (auto simp: join_inv_def set_frame_def wake_fault_def)
  next
    case J_park
    with step have fin: "js_task s = T_final" by (auto split: if_splits)
    with step J_park fl Some
    have "t = (set_frame (Inr ()) (Some p) s)\<lparr>js_exec := js_exec s, js_task := T_parked\<rparr>"
      by (simp add: frame_suspend_def)
    with fin Some d ex hh susp run st show ?thesis by (auto simp: join_inv_def set_frame_def wake_fault_def)
  next
    case J_detach
    with step show ?thesis by simp
  next
    case J_drop
    with step hh have h: "js_handle s = Some (Some 0)" by auto
    let ?fr = "if jp_state p = J_done then None else Some (p\<lparr>jp_state := J_detached\<rparr>)"
    have "jh_destroy (Some 0) (js_frame s) = (Inr (), ?fr)"
      using Some by (simp add: jh_destroy_def jh_detach_def)
    with step J_drop h fl have "t = (set_frame (Inr ()) ?fr s)\<lparr>js_handle := None\<rparr>" by simp
    with Some d ex susp st h show ?thesis by (auto simp: join_inv_def set_frame_def wake_fault_def)
  qed
qed

section \<open>Properties\<close>

lemma jh_await_suspend_keeps:
  "\<exists>r p' ex'. jh_await_suspend h (Some p, ex) = (r, Some p', ex') \<and> jp_state p' = jp_state p \<and>
     jp_ex p' = jp_ex p \<and> jp_value p' = jp_value p"
  by (cases "schedule_task h ex") (simp add: jh_await_suspend_def)

lemma spawn_finish_stores:
  assumes "jp_state p \<noteq> J_detached" and "jp_ex p = None"
  shows "\<exists>r p' ex'. spawn_finish out (Some p, ex) = (r, Some p', ex') \<and> jp_state p' = J_done \<and>
     jp_ex p' = (case out of Inl e \<Rightarrow> Some e | Inr _ \<Rightarrow> None) \<and> (\<forall>v. out = Inr v \<longrightarrow> jp_value p' = Some v)"
proof -
  have "\<exists>r ex'. schedule_task h ex = (r, ex')" for h by (cases "schedule_task h ex") simp
  with assms show ?thesis
    by (cases out; cases "jp_suspended p") (auto simp: join_defs Let_def split: prod.splits)
qed

text \<open>What the frame holds of the task's end, once it has ended.\<close>

definition outcome_stored :: "exn + 'v \<Rightarrow> 'v frame wake_sys \<Rightarrow> bool" where
  "outcome_stored out s \<longleftrightarrow>
     (\<exists>p. ws_event s = Some p \<and> jp_state p \<noteq> J_detached \<and>
        (if ws_finished s
         then jp_ex p = (case out of Inl e \<Rightarrow> Some e | Inr _ \<Rightarrow> None) \<and> (\<forall>v. out = Inr v \<longrightarrow> jp_value p = Some v)
         else jp_ex p = None))"

lemma outcome_stored_step:
  assumes inv: "outcome_stored out s" and step: "wake_step h jh_ready jh_await_suspend (spawn_finish out) l s = Some t"
  shows "outcome_stored out t"
proof -
  from inv obtain p where p: "ws_event s = Some p" "jp_state p \<noteq> J_detached" by (auto simp: outcome_stored_def)
  show ?thesis
  proof (cases l)
    case E_ready
    with step inv show ?thesis by (auto simp: outcome_stored_def split: if_splits)
  next
    case E_suspend
    from jh_await_suspend_keeps [of h p "ws_exec s"] obtain r p' ex' where
      e: "jh_await_suspend h (ws_event s, ws_exec s) = (r, Some p', ex')"
      and k: "jp_state p' = jp_state p" "jp_ex p' = jp_ex p" "jp_value p' = jp_value p" using p by auto
    with step E_suspend inv p show ?thesis by (auto simp: outcome_stored_def split: if_splits)
  next
    case E_finish
    with step have nf: "\<not> ws_finished s" by (simp split: if_splits)
    with inv p have "jp_ex p = None" by (simp add: outcome_stored_def)
    from spawn_finish_stores [OF p(2) this, of out "ws_exec s"] obtain r p' ex' where
      e: "spawn_finish out (ws_event s, ws_exec s) = (r, Some p', ex')" and "jp_state p' = J_done"
      "jp_ex p' = (case out of Inl e \<Rightarrow> Some e | Inr _ \<Rightarrow> None)" "\<forall>v. out = Inr v \<longrightarrow> jp_value p' = Some v"
      using p by auto
    with step E_finish show ?thesis by (auto simp: outcome_stored_def split: if_splits)
  qed
qed

lemma outcome_is_stored:
  assumes "reach (wake_init (Some join_promise_init)) (wake_step h jh_ready jh_await_suspend (spawn_finish out)) s"
  shows "outcome_stored out s"
  using assms
proof (rule reach_invariant)
  show "outcome_stored out (wake_init (Some join_promise_init))"
    by (simp add: outcome_stored_def wake_init_def join_promise_init_def)
qed (rule outcome_stored_step)

text \<open>
  C12: joining a spawned task: the joining task is scheduled exactly once, not before the
  spawned task has finished, however the two interleave; and it then gets the value the task
  returned or the exception that escaped from it.
\<close>

theorem join_wakes_once_and_delivers:
  assumes "reach (wake_init (Some join_promise_init)) (wake_step h jh_ready jh_await_suspend (spawn_finish out)) s"
  shows "posted (ws_exec s) = (if ws_pc s = W_suspended \<and> ws_finished s then [h] else []) \<and>
         ws_fault s = None \<and> (ws_pc s = W_through \<longrightarrow> ws_finished s) \<and>
         (ws_finished s \<longrightarrow> fst (jh_await_resume moved (ws_event s)) =
            (case out of Inl e \<Rightarrow> Inl (Throw e) | Inr v \<Rightarrow> Inr v))"
  using jn.wakes_once [OF assms] outcome_is_stored [OF assms]
  by (auto simp: woken_so_far_def outcome_stored_def jh_await_resume_def split: sum.splits)

theorem join_wakes_once_and_delivers_witness:
  "\<exists>s. reach (wake_init (Some join_promise_init)) (wake_step 5 jh_ready jh_await_suspend (spawn_finish (Inr (8::nat)))) s \<and>
       posted (ws_exec s) = [5] \<and> fst (jh_await_resume (\<lambda>_. 0) (ws_event s)) = Inr 8"
proof -
  let ?step = "wake_step 5 jh_ready jh_await_suspend (spawn_finish (Inr (8::nat)))"
  have "run_sat ?step [E_ready, E_finish, E_suspend] (wake_init (Some join_promise_init))
      (\<lambda>s. ws_pc s = W_suspended \<and> ws_finished s)" by code_simp
  then obtain s where r: "reach (wake_init (Some join_promise_init)) ?step s"
    and "ws_pc s = W_suspended \<and> ws_finished s" by (rule run_satE)
  with join_wakes_once_and_delivers [OF r, of "\<lambda>_. 0"] show ?thesis by auto
qed

text \<open>
  When the handle of a spawned task is only dropped, never detached by hand, the frame is
  destroyed exactly once, whichever comes first: it is gone exactly when the handle was
  dropped and the task has finished, and no operation of the handle touches it afterwards.
  The only fault is that of a task finishing after its handle was dropped.
\<close>

theorem join_frame_freed_once:
  assumes "reach join_sys_init (no_detach out) s"
  shows "(js_frame s = None \<longleftrightarrow> js_handle s = None \<and> js_task s \<noteq> T_running) \<and>
         js_destroyed s = (if js_frame s = None then 1 else 0) \<and>
         (js_fault s \<noteq> None \<longrightarrow> js_handle s = None \<and> js_task s = T_parked)"
proof -
  have "join_inv s"
    using assms by (rule reach_invariant) (auto intro: join_inv_init join_inv_step)
  then show ?thesis by (auto simp: join_inv_def split: option.splits)
qed

theorem join_frame_freed_once_witness:
  "\<exists>s. reach (join_sys_init :: nat join_sys) (no_detach (Inr 8)) s \<and> js_frame s = None \<and> js_destroyed s = 1"
proof -
  have "run_sat (no_detach (Inr 8)) [J_finish, J_park, J_drop] (join_sys_init :: nat join_sys)
      (\<lambda>s. js_handle s = None \<and> js_task s = T_parked)" by code_simp
  then obtain s where r: "reach (join_sys_init :: nat join_sys) (no_detach (Inr 8)) s"
    and "js_handle s = None \<and> js_task s = T_parked" by (rule run_satE)
  with join_frame_freed_once [OF r] show ?thesis by auto
qed

text \<open>
  Two uses of a join handle end in a use after free. A task whose handle is dropped first
  destroys its own frame inside \<open>final_suspend\<close> and then suspends in the destroyed frame; and
  \<open>detach\<close> leaves the handle set, so after detaching a finished task the destructor of the
  handle detaches again, on the destroyed frame.
\<close>

theorem join_detach_use_after_free:
  "(\<exists>s. run (no_detach out) [J_drop, J_finish, J_park] join_sys_init = Some s \<and>
        js_fault s = Some (Undefined Use_after_free)) \<and>
   (\<exists>s. run (join_step out) [J_finish, J_park, J_detach, J_drop] join_sys_init = Some s \<and>
        js_fault s = Some (Undefined Use_after_free))"
  by (cases out)
    (simp_all add: join_sys_init_def set_frame_def wake_fault_def frame_suspend_def jh_ctor_def
      jh_destroy_def jh_detach_def join_defs)

end
