(* ===== verification/Spawn_Void.thy ===== *)
theory Spawn_Void imports Spawn Specialisation begin

text \<open>
  \<open>join_handle_impl<void>\<close> (include/crasy/spawn.hpp, the explicit specialisation), compared
  with the template at the unit type; the \<open>join_handle\<close> that wraps either; and \<open>spawn\<close>
  of a callable.
\<close>

section \<open>The promise\<close>

record jv_promise =
  jv_ex :: "exn option"
  jv_suspended :: "handle option"
  jv_state :: join_state

type_synonym jv_frame = "jv_promise option"

definition jv_promise_init :: jv_promise where
  "jv_promise_init = \<lparr>jv_ex = None, jv_suspended = None, jv_state = J_waiting\<rparr>"

definition jv_unhandled_exception :: "exn \<Rightarrow> jv_promise \<Rightarrow> jv_promise" where
  "jv_unhandled_exception e p = p\<lparr>jv_ex := Some e\<rparr>"

definition jv_return_void :: "jv_promise \<Rightarrow> jv_promise" where
  "jv_return_void p = p"

definition jv_final_suspend :: "(unit, jv_frame \<times> exec_ctx) comp" where
  "jv_final_suspend = (\<lambda>(fr, ex).
     case fr of
       None \<Rightarrow> (Inl (Undefined Use_after_free), fr, ex)
     | Some p \<Rightarrow>
         (if jv_state p = J_detached then (Inr (), None, ex)
          else (let p1 = p\<lparr>jv_state := J_done\<rparr>
                in case jv_suspended p1 of
                     Some h \<Rightarrow> (let (r, ex1) = schedule_task h ex
                                in (r, Some (p1\<lparr>jv_suspended := None\<rparr>), ex1))
                   | None \<Rightarrow> (Inr (), Some p1, ex))))"

section \<open>The handle\<close>

definition jv_await_ready :: "jv_frame \<Rightarrow> fault + bool" where
  "jv_await_ready fr =
     (case fr of None \<Rightarrow> Inl (Undefined Use_after_free) | Some p \<Rightarrow> Inr (jv_state p = J_done))"

definition jv_await_suspend :: "handle \<Rightarrow> (unit, jv_frame \<times> exec_ctx) comp" where
  "jv_await_suspend suspended = (\<lambda>(fr, ex).
     case fr of
       None \<Rightarrow> (Inl (Undefined Use_after_free), fr, ex)
     | Some p \<Rightarrow>
         (if jv_state p = J_waiting then (Inr (), Some (p\<lparr>jv_suspended := Some suspended\<rparr>), ex)
          else (let (r, ex1) = schedule_task suspended ex in (r, fr, ex1))))"

definition jv_await_resume :: "(unit, jv_frame) comp" where
  "jv_await_resume fr =
     (case fr of
        None \<Rightarrow> (Inl (Undefined Use_after_free), fr)
      | Some p \<Rightarrow>
          (case jv_ex p of
             Some e \<Rightarrow> (Inl (Throw e), Some (p\<lparr>jv_ex := None\<rparr>))
           | None \<Rightarrow> (Inr (), fr)))"

definition jv_detach :: "join_handle \<Rightarrow> (unit, jv_frame) comp" where
  "jv_detach g fr =
     (case g of
        None \<Rightarrow> (Inl (Undefined Null_deref), fr)
      | Some _ \<Rightarrow>
          (case fr of
             None \<Rightarrow> (Inl (Undefined Use_after_free), fr)
           | Some p \<Rightarrow> if jv_state p = J_done then (Inr (), None)
                       else (Inr (), Some (p\<lparr>jv_state := J_detached\<rparr>))))"

definition jv_destroy :: "join_handle \<Rightarrow> (unit, jv_frame) comp" where
  "jv_destroy g fr = (if g \<noteq> None then jv_detach g fr else (Inr (), fr))"

definition jv_ctor :: "nat \<Rightarrow> join_handle" where
  "jv_ctor h = Some h"

definition jv_move :: "join_handle \<Rightarrow> join_handle \<times> join_handle" where
  "jv_move other = (other, None)"

definition jv_assign :: "join_handle \<Rightarrow> join_handle \<Rightarrow> join_handle \<times> join_handle" where
  "jv_assign this rhs = (let tmp = this in (rhs, tmp))"

definition jv_body :: "exn + unit \<Rightarrow> jv_promise \<Rightarrow> jv_promise" where
  "jv_body r p = (case r of Inl e \<Rightarrow> jv_unhandled_exception e p | Inr _ \<Rightarrow> jv_return_void p)"

definition jv_finish :: "exn + unit \<Rightarrow> (unit, jv_frame \<times> exec_ctx) comp" where
  "jv_finish r = (\<lambda>(fr, ex). jv_final_suspend (map_option (jv_body r) fr, ex))"

lemmas jv_defs = jv_promise_init_def jv_unhandled_exception_def jv_return_void_def
  jv_final_suspend_def jv_await_ready_def jv_await_suspend_def jv_await_resume_def
  jv_detach_def jv_body_def jv_finish_def

section \<open>Compared with the template\<close>

fun jh_obs :: "handle_op \<Rightarrow> unit frame \<times> exec_ctx \<Rightarrow> aw_obs \<times> unit frame \<times> exec_ctx" where
  "jh_obs (Await (Finish r)) s = obs_unit (spawn_finish r s)"
| "jh_obs (Await Ask_ready) s = (Obs_bool (jh_await_ready (fst s)), s)"
| "jh_obs (Await (Suspend h)) s = obs_unit (jh_await_suspend h s)"
| "jh_obs (Await Resume) s = obs_keep (jh_await_resume id) s"
| "jh_obs Detach s = obs_keep (jh_detach (Some 0)) s"

fun jv_obs :: "handle_op \<Rightarrow> jv_frame \<times> exec_ctx \<Rightarrow> aw_obs \<times> jv_frame \<times> exec_ctx" where
  "jv_obs (Await (Finish r)) s = obs_unit (jv_finish r s)"
| "jv_obs (Await Ask_ready) s = (Obs_bool (jv_await_ready (fst s)), s)"
| "jv_obs (Await (Suspend h)) s = obs_unit (jv_await_suspend h s)"
| "jv_obs (Await Resume) s = obs_keep jv_await_resume s"
| "jv_obs Detach s = obs_keep (jv_detach (Some 0)) s"

definition jh_forget :: "unit frame \<Rightarrow> jv_frame" where
  "jh_forget = map_option (\<lambda>p. \<lparr>jv_ex = jp_ex p, jv_suspended = jp_suspended p, jv_state = jp_state p\<rparr>)"

interpretation jvs: specialises jh_obs jv_obs "apfst jh_forget" erase_await
proof unfold_locales
  fix x and s :: "unit frame \<times> exec_ctx"
  obtain fr ex where s: "s = (fr, ex)" by fastforce
  show "jv_obs x (apfst jh_forget s) = (erase_await x (fst (jh_obs x s)), apfst jh_forget (snd (jh_obs x s)))"
  proof (cases fr)
    case None
    show ?thesis
    proof (cases x)
      case (Await y)
      then show ?thesis
        by (cases y) (auto simp: s None obs_defs jv_defs join_defs jh_forget_def)
    qed (auto simp: s None obs_defs jv_defs jh_detach_def jh_forget_def)
  next
    case (Some p)
    show ?thesis
    proof (cases x)
      case (Await y)
      then show ?thesis
        by (cases y) (auto simp: s Some obs_defs jv_defs join_defs jh_forget_def split_beta Let_def
            split: sum.splits option.splits)
    qed (auto simp: s Some obs_defs jv_defs jh_detach_def jh_forget_def)
  qed
qed

section \<open>Waking the joining task\<close>

definition jv_ready :: "jv_frame \<Rightarrow> bool" where
  "jv_ready fr = (jv_await_ready fr = Inr True)"

fun jv_rep :: "jv_frame \<Rightarrow> event_state \<Rightarrow> bool" where
  "jv_rep fr Spent = True"
| "jv_rep None _ = False"
| "jv_rep (Some p) Idle = (jv_state p = J_waiting \<and> jv_suspended p = None)"
| "jv_rep (Some p) (Waits h) = (jv_state p = J_waiting \<and> jv_suspended p = Some h)"
| "jv_rep (Some p) Finished = (jv_state p = J_done)"

interpretation jvn: one_shot "Some jv_promise_init" jv_ready jv_await_suspend "jv_finish r" jv_rep for r
proof unfold_locales
  fix e :: jv_frame and ex :: exec_ctx and h
  show "jv_rep (Some jv_promise_init) Idle" by (simp add: jv_defs)
  show "\<not> jv_ready e" if "jv_rep e Idle" using that by (cases e) (simp_all add: jv_ready_def jv_defs)
  show "jv_ready e" if "jv_rep e Finished" using that by (cases e) (simp_all add: jv_ready_def jv_defs)
  show "\<exists>e'. jv_await_suspend h (e, ex) = (Inr (), e', ex) \<and> jv_rep e' (Waits h)"
    if "jv_rep e Idle" "in_exec ex" using that by (cases e) (simp_all add: jv_defs)
  show "\<exists>e'. jv_await_suspend h (e, ex) = (Inr (), e', ex\<lparr>posted := posted ex @ [h]\<rparr>) \<and> jv_rep e' Spent"
    if "jv_rep e Finished" "in_exec ex" using that by (cases e) (simp_all add: jv_defs)
  show "\<exists>e'. jv_finish r (e, ex) = (Inr (), e', ex) \<and> jv_rep e' Finished"
    if "jv_rep e Idle" "in_exec ex" using that by (cases e; cases r) (simp_all add: jv_defs)
  show "\<exists>e'. jv_finish r (e, ex) = (Inr (), e', ex\<lparr>posted := posted ex @ [h]\<rparr>) \<and> jv_rep e' Spent"
    if "jv_rep e (Waits h)" "in_exec ex" using that by (cases e; cases r) (simp_all add: jv_defs)
qed

section \<open>Spawning a callable\<close>

text \<open>
  What \<open>spawn\<close> is given: a function that returns an awaitable, whose call may throw before it
  returns one; or a plain function, which \<open>spawn\<close> runs inside a coroutine of its own. No
  coroutine here suspends initially, so everything runs in the caller until it first waits.
\<close>

datatype 'v callable = Async "exn + 'v fut_promise" | Plain "exn + 'v"

text \<open>
  The coroutine of \<open>spawn(future<T>)\<close> awaits the future and returns what it gets. \<open>w\<close> is
  its own handle, with which it suspends when the future is not done.
\<close>

definition spawn_continue :: "('v \<Rightarrow> 'v) \<Rightarrow> (unit, 'v fut_promise \<times> 'v frame \<times> exec_ctx) comp" where
  "spawn_continue moved = (\<lambda>(p, fr, ex).
     let (got, p1) = fut_await_resume moved p
     in case got of
          Inl (Undefined u) \<Rightarrow> (Inl (Undefined u), p1, fr, ex)
        | Inl (Throw e) \<Rightarrow> (let (r, s) = spawn_finish (Inl e) (fr, ex) in (r, p1, s))
        | Inr v \<Rightarrow> (let (r, s) = spawn_finish (Inr v) (fr, ex) in (r, p1, s)))"

definition spawn_future :: "('v \<Rightarrow> 'v) \<Rightarrow> handle \<Rightarrow> (unit, 'v fut_promise \<times> 'v frame \<times> exec_ctx) comp" where
  "spawn_future moved w = (\<lambda>(p, fr, ex).
     if fut_await_ready p then spawn_continue moved (p, fr, ex)
     else (let (r, p1, ex1) = fut_await_suspend w (p, ex) in (r, p1, fr, ex1)))"

definition spawn_callable ::
    "('v \<Rightarrow> 'v) \<Rightarrow> handle \<Rightarrow> 'v callable \<Rightarrow> exec_ctx
      \<Rightarrow> exn + ((fault + unit) \<times> 'v fut_promise \<times> 'v frame \<times> exec_ctx)" where
  "spawn_callable moved w c ex =
     (case c of
        Async (Inl e) \<Rightarrow> Inl e
      | Async (Inr p) \<Rightarrow> Inr (spawn_future moved w (p, Some join_promise_init, ex))
      | Plain r \<Rightarrow>
          (let (_, p, ex1) = fut_complete r (fut_promise_init, ex)
           in Inr (spawn_future moved w (p, Some join_promise_init, ex1))))"

definition given :: "exn + 'v \<Rightarrow> fault + 'v" where
  "given r = (case r of Inl e \<Rightarrow> Inl (Throw e) | Inr v \<Rightarrow> Inr v)"

lemma spawn_plain:
  assumes "in_exec ex"
  shows "\<exists>p fr. spawn_callable moved w (Plain r) ex = Inr (Inr (), p, fr, ex) \<and>
    jh_await_ready fr = Inr True \<and> fst (jh_await_resume moved fr) = given r"
  using assms by (cases r) (simp_all add: spawn_callable_def spawn_future_def spawn_continue_def fut_defs join_defs given_def)

lemma spawn_done:
  assumes "in_exec ex" and "fut_complete r (fut_promise_init, ex) = (x, p, ex')"
  shows "\<exists>q fr. spawn_callable moved w (Async (Inr p)) ex = Inr (Inr (), q, fr, ex) \<and>
    jh_await_ready fr = Inr True \<and> fst (jh_await_resume moved fr) = given r"
  using assms by (cases r) (auto simp: spawn_callable_def spawn_future_def spawn_continue_def fut_defs join_defs given_def)

lemma spawn_waits:
  assumes "in_exec ex"
  shows "\<exists>p q1 q2 fr fr2. spawn_callable moved w (Async (Inr fut_promise_init)) ex = Inr (Inr (), p, fr, ex) \<and>
    jh_await_ready fr = Inr False \<and>
    fut_complete r (p, ex) = (Inr (), q1, ex\<lparr>posted := posted ex @ [w]\<rparr>) \<and>
    spawn_continue moved (q1, fr, ex\<lparr>posted := posted ex @ [w]\<rparr>) = (Inr (), q2, fr2, ex\<lparr>posted := posted ex @ [w]\<rparr>) \<and>
    jh_await_ready fr2 = Inr True \<and> fst (jh_await_resume moved fr2) = given r"
  using assms by (cases r) (simp_all add: spawn_callable_def spawn_future_def spawn_continue_def fut_defs join_defs given_def)

text \<open>
  C33: spawning ends in the join handle delivering what the task ended with. A plain function has
  run, and its frame is done, when \<open>spawn\<close> returns, and so has a future that was done; a future
  that was not done makes the task wait with its own handle, which is scheduled when the future
  completes, and the resumed task then finishes. Only an exception of the call that should have
  returned the future leaves \<open>spawn\<close> itself.
\<close>

theorem spawn_delivers:
  assumes "in_exec ex" and "fut_complete r (fut_promise_init, ex) = (x, done, ex')"
  shows "(\<exists>p fr. spawn_callable moved w (Plain r) ex = Inr (Inr (), p, fr, ex) \<and>
           jh_await_ready fr = Inr True \<and> fst (jh_await_resume moved fr) = given r) \<and>
    (\<exists>q fr. spawn_callable moved w (Async (Inr done)) ex = Inr (Inr (), q, fr, ex) \<and>
           jh_await_ready fr = Inr True \<and> fst (jh_await_resume moved fr) = given r) \<and>
    (\<exists>p q1 q2 fr fr2. spawn_callable moved w (Async (Inr fut_promise_init)) ex = Inr (Inr (), p, fr, ex) \<and>
           jh_await_ready fr = Inr False \<and>
           fut_complete r (p, ex) = (Inr (), q1, ex\<lparr>posted := posted ex @ [w]\<rparr>) \<and>
           spawn_continue moved (q1, fr, ex\<lparr>posted := posted ex @ [w]\<rparr>) =
             (Inr (), q2, fr2, ex\<lparr>posted := posted ex @ [w]\<rparr>) \<and>
           jh_await_ready fr2 = Inr True \<and> fst (jh_await_resume moved fr2) = given r) \<and>
    spawn_callable moved w (Async (Inl e)) ex = Inl e"
  using spawn_plain [OF assms(1)] spawn_done [OF assms] spawn_waits [OF assms(1)]
  by (intro conjI) (simp_all add: spawn_callable_def)

theorem spawn_delivers_witness:
  "\<exists>p fr. spawn_callable (\<lambda>_. 0) 4 (Plain (Inr (9::nat))) \<lparr>in_exec = True, posted = []\<rparr> =
            Inr (Inr (), p, fr, \<lparr>in_exec = True, posted = []\<rparr>) \<and>
          fst (jh_await_resume (\<lambda>_. 0) fr) = Inr 9"
proof -
  obtain x d ex' where "fut_complete (Inr (9::nat)) (fut_promise_init, \<lparr>in_exec = True, posted = []\<rparr>) = (x, d, ex')"
    by (metis prod_cases3)
  from spawn_delivers [OF _ this, where moved = "\<lambda>_. 0" and w = 4 and e = "User_exn 0"] show ?thesis
    by (auto simp: given_def)
qed

end
