(* ===== verification/Spawn_Blocking.thy ===== *)
theory Spawn_Blocking imports Wake_Interface Ownership begin

text \<open>
  \<open>spawn_blocking\<close> and \<open>blocking_join_handle\<close> (include/crasy/spawn_blocking.hpp). The handle
  and the worker thread share a heap block, deleted by whichever lets go last; \<open>None\<close> is a
  deleted block. The member \<open>state\<close> is 0 while the call runs, 1 once it has finished, and -1
  when the handle let go first. Sections under the block's mutex are atomic steps; what
  \<open>call\<close> does after its section is separate.
\<close>

section \<open>The shared block\<close>

record 'v bstate =
  bs_ret :: "'v option"
  bs_ex :: "exn option"
  bs_suspended :: "handle option"
  bs_state :: int

type_synonym 'v block = "'v bstate option"

type_synonym blocking_handle = "nat option"

definition bstate_init :: "'v bstate" where
  "bstate_init = \<lparr>bs_ret = None, bs_ex = None, bs_suspended = None, bs_state = 0\<rparr>"

section \<open>The worker: \<open>call\<close>\<close>

text \<open>
  The section under the mutex, after \<open>func\<close> returned or threw; the result are the locals
  \<open>susp\<close> and \<open>st\<close>.
\<close>

definition call_section :: "exn + 'v \<Rightarrow> (handle option \<times> int, 'v block) comp" where
  "call_section out b =
     (case b of
        None \<Rightarrow> (Inl (Undefined Use_after_free), b)
      | Some p \<Rightarrow>
          (let p1 = (case out of Inr v \<Rightarrow> p\<lparr>bs_ret := Some v\<rparr> | Inl e \<Rightarrow> p\<lparr>bs_ex := Some e\<rparr>)
           in (Inr (bs_suspended p1, bs_state p1),
               Some (p1\<lparr>bs_suspended := None, bs_state := 1\<rparr>))))"

definition call_schedule :: "handle option \<Rightarrow> (unit, exec_ctx) comp" where
  "call_schedule susp ex = (case susp of Some h \<Rightarrow> schedule_task h ex | None \<Rightarrow> (Inr (), ex))"

definition delete_block :: "(unit, 'v block) comp" where
  "delete_block b = (case b of None \<Rightarrow> (Inl (Undefined Use_after_free), b) | Some _ \<Rightarrow> (Inr (), None))"

definition call_delete :: "int \<Rightarrow> (unit, 'v block) comp" where
  "call_delete st b = (if st = -1 then delete_block b else (Inr (), b))"

definition blocking_call :: "exn + 'v \<Rightarrow> (unit, 'v block \<times> exec_ctx) comp" where
  "blocking_call out = (\<lambda>(b, ex).
     case call_section out b of
       (Inl f, b1) \<Rightarrow> (Inl f, b1, ex)
     | (Inr (susp, st), b1) \<Rightarrow>
         (case call_schedule susp ex of
            (Inl f, ex1) \<Rightarrow> (Inl f, b1, ex1)
          | (Inr _, ex1) \<Rightarrow> (let (r, b2) = call_delete st b1 in (r, b2, ex1))))"

section \<open>The handle\<close>

definition bj_await_ready :: "'v block \<Rightarrow> fault + bool" where
  "bj_await_ready b =
     (case b of None \<Rightarrow> Inl (Undefined Use_after_free) | Some p \<Rightarrow> Inr (bs_state p = 1))"

definition bj_await_suspend :: "handle \<Rightarrow> (unit, 'v block \<times> exec_ctx) comp" where
  "bj_await_suspend suspended = (\<lambda>(b, ex).
     case b of
       None \<Rightarrow> (Inl (Undefined Use_after_free), b, ex)
     | Some p \<Rightarrow>
         (if bs_state p = 1 then (let (r, ex1) = schedule_task suspended ex in (r, b, ex1))
          else (Inr (), Some (p\<lparr>bs_suspended := Some suspended\<rparr>), ex)))"

definition bj_await_resume :: "('v \<Rightarrow> 'v) \<Rightarrow> ('v, 'v block) comp" where
  "bj_await_resume moved b =
     (case b of
        None \<Rightarrow> (Inl (Undefined Use_after_free), b)
      | Some p \<Rightarrow> (case bs_ret p of
                     Some v \<Rightarrow> (Inr v, Some (p\<lparr>bs_ret := Some (moved v)\<rparr>))
                   | None \<Rightarrow> (Inl (Undefined Empty_option_deref), b)))"

text \<open>\<open>detach\<close> gives back the handle it leaves, which is null.\<close>

definition bj_detach :: "blocking_handle \<Rightarrow> (blocking_handle, 'v block) comp" where
  "bj_detach g b =
     (case g of
        None \<Rightarrow> (Inl (Undefined Null_deref), b)
      | Some _ \<Rightarrow>
          (case b of
             None \<Rightarrow> (Inl (Undefined Use_after_free), b)
           | Some p \<Rightarrow> if bs_state p = 1 then (Inr None, snd (delete_block b))
                       else (Inr None, Some (p\<lparr>bs_state := -1\<rparr>))))"

definition bj_destroy :: "blocking_handle \<Rightarrow> (blocking_handle, 'v block) comp" where
  "bj_destroy g b = (if g \<noteq> None then bj_detach g b else (Inr g, b))"

definition bj_ctor :: "nat \<Rightarrow> blocking_handle" where "bj_ctor s = Some s"

definition bj_move :: "blocking_handle \<Rightarrow> blocking_handle \<times> blocking_handle" where
  "bj_move other = (other, None)"

definition bj_assign :: "blocking_handle \<Rightarrow> blocking_handle \<Rightarrow> blocking_handle \<times> blocking_handle" where
  "bj_assign this rhs = (rhs, this)"

text \<open>
  \<open>spawn_blocking\<close>: allocate the block and hand it to the executor, which throws when the
  caller has none; the result is the handle and the blocks left in memory. \<open>n\<close> is the new
  block's address.
\<close>

definition spawn_blocking :: "nat \<Rightarrow> exec_ctx \<Rightarrow> (fault + blocking_handle) \<times> nat list" where
  "spawn_blocking n ex =
     (if in_exec ex then (Inr (bj_ctor n), [n])
      else (Inl (Throw (Runtime_error ''attempt to spawn blocking task outside of executor context'')), [n]))"

definition bj_release :: "blocking_handle \<Rightarrow> nat list" where
  "bj_release g = (case g of Some s \<Rightarrow> [s] | None \<Rightarrow> [])"

definition bj_owns :: "blocking_handle \<Rightarrow> nat multiset" where
  "bj_owns g = (case g of Some s \<Rightarrow> {#s#} | None \<Rightarrow> {#})"

interpretation bo: owner bj_ctor bj_move bj_assign bj_release bj_owns
  by unfold_locales
    (auto simp: bj_ctor_def bj_move_def bj_assign_def bj_release_def bj_owns_def split: option.splits)

lemmas block_defs = bstate_init_def call_section_def call_schedule_def delete_block_def call_delete_def
  blocking_call_def bj_await_ready_def bj_await_suspend_def bj_await_resume_def

section \<open>Waking the joining task\<close>

definition bj_ready :: "'v block \<Rightarrow> bool" where
  "bj_ready b = (bj_await_ready b = Inr True)"

fun block_rep :: "'v block \<Rightarrow> event_state \<Rightarrow> bool" where
  "block_rep b Spent = True"
| "block_rep None _ = False"
| "block_rep (Some p) Idle = (bs_state p = 0 \<and> bs_suspended p = None)"
| "block_rep (Some p) (Waits h) = (bs_state p = 0 \<and> bs_suspended p = Some h)"
| "block_rep (Some p) Finished = (bs_state p = 1)"

interpretation bl: one_shot "Some bstate_init" bj_ready bj_await_suspend "blocking_call out" block_rep
  for out :: "exn + 'v"
proof unfold_locales
  fix e :: "'v block" and ex :: exec_ctx and h
  show "block_rep (Some bstate_init :: 'v block) Idle" by (simp add: block_defs)
  show "\<not> bj_ready e" if "block_rep e Idle"
    using that by (cases e) (simp_all add: bj_ready_def block_defs)
  show "bj_ready e" if "block_rep e Finished"
    using that by (cases e) (simp_all add: bj_ready_def block_defs)
  show "\<exists>e'. bj_await_suspend h (e, ex) = (Inr (), e', ex) \<and> block_rep e' (Waits h)"
    if "block_rep e Idle" "in_exec ex" using that by (cases e) (simp_all add: block_defs)
  show "\<exists>e'. bj_await_suspend h (e, ex) = (Inr (), e', ex\<lparr>posted := posted ex @ [h]\<rparr>) \<and> block_rep e' Spent"
    if "block_rep e Finished" "in_exec ex" using that by (cases e) (simp_all add: block_defs)
  show "\<exists>e'. blocking_call out (e, ex) = (Inr (), e', ex) \<and> block_rep e' Finished"
    if "block_rep e Idle" "in_exec ex" using that
    by (cases e; cases out) (simp_all add: block_defs)
  show "\<exists>e'. blocking_call out (e, ex) = (Inr (), e', ex\<lparr>posted := posted ex @ [h]\<rparr>) \<and> block_rep e' Spent"
    if "block_rep e (Waits h)" "in_exec ex" using that
    by (cases e; cases out) (simp_all add: block_defs)
qed

section \<open>The life of the block\<close>

datatype call_pc = C_running | C_section "handle option" int | C_scheduled int | C_returned

record 'v block_sys =
  kb_block :: "'v block"
  kb_exec :: exec_ctx
  kb_handle :: "blocking_handle option"  \<comment> \<open>\<open>None\<close> once the handle variable is gone\<close>
  kb_call :: call_pc
  kb_deleted :: nat
  kb_fault :: "fault option"

datatype block_label = K_section | K_schedule | K_delete | K_detach | K_drop

definition block_sys_init :: "'v block_sys" where
  "block_sys_init = \<lparr>kb_block = Some bstate_init, kb_exec = \<lparr>in_exec = True, posted = []\<rparr>,
     kb_handle = Some (bj_ctor 0), kb_call = C_running, kb_deleted = 0, kb_fault = None\<rparr>"

definition failed :: "fault + 'a \<Rightarrow> fault option" where
  "failed r = (case r of Inl f \<Rightarrow> Some f | Inr _ \<Rightarrow> None)"

definition set_block :: "fault + 'a \<Rightarrow> 'v block \<Rightarrow> 'v block_sys \<Rightarrow> 'v block_sys" where
  "set_block r b s = s\<lparr>kb_block := b, kb_fault := failed r,
     kb_deleted := kb_deleted s + (if kb_block s \<noteq> None \<and> b = None then 1 else 0)\<rparr>"

fun block_step :: "exn + 'v \<Rightarrow> block_label \<Rightarrow> 'v block_sys \<Rightarrow> 'v block_sys option" where
  "block_step out K_section s =
     (if kb_call s = C_running \<and> kb_fault s = None
      then (case call_section out (kb_block s) of
              (Inl f, b) \<Rightarrow> Some (set_block (Inl f :: fault + unit) b s)
            | (Inr (susp, st), b) \<Rightarrow> Some ((set_block (Inr ()) b s)\<lparr>kb_call := C_section susp st\<rparr>))
      else None)"
| "block_step out K_schedule s =
     (case kb_call s of
        C_section susp st \<Rightarrow>
          (if kb_fault s = None
           then (let (r, ex) = call_schedule susp (kb_exec s)
                 in Some (s\<lparr>kb_exec := ex, kb_call := C_scheduled st, kb_fault := failed r\<rparr>))
           else None)
      | _ \<Rightarrow> None)"
| "block_step out K_delete s =
     (case kb_call s of
        C_scheduled st \<Rightarrow>
          (if kb_fault s = None
           then (let (r, b) = call_delete st (kb_block s) in Some ((set_block r b s)\<lparr>kb_call := C_returned\<rparr>))
           else None)
      | _ \<Rightarrow> None)"
| "block_step out K_detach s =
     (case kb_handle s of
        Some (Some g) \<Rightarrow>
          (if kb_fault s = None
           then (let (r, b) = bj_detach (Some g) (kb_block s)
                 in Some ((set_block r b s)\<lparr>kb_handle := Some (case r of Inr g1 \<Rightarrow> g1 | Inl _ \<Rightarrow> Some g)\<rparr>))
           else None)
      | _ \<Rightarrow> None)"
| "block_step out K_drop s =
     (case kb_handle s of
        Some g \<Rightarrow>
          (if kb_fault s = None
           then (let (r, b) = bj_destroy g (kb_block s) in Some ((set_block r b s)\<lparr>kb_handle := None\<rparr>))
           else None)
      | None \<Rightarrow> None)"

definition let_go :: "'v block_sys \<Rightarrow> bool" where
  "let_go s \<longleftrightarrow> kb_handle s \<noteq> Some (Some 0)"

definition block_inv :: "'v block_sys \<Rightarrow> bool" where
  "block_inv s \<longleftrightarrow>
     in_exec (kb_exec s) \<and> kb_handle s \<in> {None, Some None, Some (Some 0)} \<and> kb_fault s = None \<and>
     (case kb_block s of
        None \<Rightarrow> kb_deleted s = 1 \<and> let_go s \<and>
          (case kb_call s of C_running \<Rightarrow> False | C_section _ st \<Rightarrow> st = 0 | C_scheduled st \<Rightarrow> st = 0
             | C_returned \<Rightarrow> True)
      | Some p \<Rightarrow> kb_deleted s = 0 \<and>
          (case kb_call s of
             C_running \<Rightarrow> bs_state p = (if let_go s then -1 else 0)
           | C_section _ st \<Rightarrow> bs_state p = 1 \<and> st = (if let_go s then -1 else 0)
           | C_scheduled st \<Rightarrow> bs_state p = 1 \<and> st = (if let_go s then -1 else 0)
           | C_returned \<Rightarrow> bs_state p = 1 \<and> \<not> let_go s))"

text \<open>The invariant holds after each of the three parts of the call, and after the handle let go.\<close>

lemma section_inv:
  assumes inv: "block_inv s" and run: "kb_call s = C_running"
  obtains p q where "kb_block s = Some p" and "call_section out (kb_block s) = (Inr (bs_suspended p, bs_state p), Some q)"
    and "block_inv ((set_block (Inr () :: fault + unit) (Some q) s)\<lparr>kb_call := C_section (bs_suspended p) (bs_state p)\<rparr>)"
proof -
  from inv run obtain p where p: "kb_block s = Some p" "bs_state p = (if let_go s then -1 else 0)"
    by (cases "kb_block s") (auto simp: block_inv_def)
  have "\<exists>q. call_section out (Some p) = (Inr (bs_suspended p, bs_state p), Some q) \<and> bs_state q = 1"
    by (cases out) (simp_all add: call_section_def Let_def)
  then obtain q where q: "call_section out (Some p) = (Inr (bs_suspended p, bs_state p), Some q)" "bs_state q = 1" by blast
  show thesis
    using inv run p q(2)
    by (intro that [OF p(1) q(1) [folded p(1)]]) (simp add: block_inv_def set_block_def failed_def let_go_def)
qed

lemma scheduled_inv:
  assumes inv: "block_inv s" and c: "kb_call s = C_section susp st" and e: "call_schedule susp (kb_exec s) = (r, ex)"
  shows "block_inv (s\<lparr>kb_exec := ex, kb_call := C_scheduled st, kb_fault := failed r\<rparr>)"
proof -
  have "r = Inr () \<and> in_exec ex"
    using inv e by (cases susp) (auto simp: call_schedule_def block_inv_def)
  with inv c show ?thesis by (simp add: block_inv_def let_go_def failed_def split: option.splits)
qed

lemma deleted_inv:
  assumes inv: "block_inv s" and c: "kb_call s = C_scheduled st" and d: "call_delete st (kb_block s) = (r, b)"
  shows "block_inv ((set_block r b s)\<lparr>kb_call := C_returned\<rparr>)"
proof (cases "st = -1")
  case True
  with inv c have "kb_block s \<noteq> None" and "let_go s" by (auto simp: block_inv_def split: option.splits if_splits)
  with inv d True show ?thesis
    by (auto simp: block_inv_def let_go_def set_block_def failed_def call_delete_def delete_block_def)
next
  case False
  with inv c d show ?thesis
    by (auto simp: block_inv_def let_go_def set_block_def failed_def call_delete_def split: option.splits if_splits)
qed

lemma detached_inv:
  assumes inv: "block_inv s" and h: "kb_handle s = Some (Some 0)" and d: "bj_detach (Some 0) (kb_block s) = (r, b)"
    and g: "g = None \<or> g = Some None"
  shows "r = Inr None" and "block_inv ((set_block r b s)\<lparr>kb_handle := g\<rparr>)"
proof -
  from inv h obtain p where p: "kb_block s = Some p" by (auto simp: block_inv_def let_go_def split: option.splits)
  with d have r: "r = Inr None" and b: "b = (if bs_state p = 1 then None else Some (p\<lparr>bs_state := -1\<rparr>))"
    by (auto simp: bj_detach_def delete_block_def split: if_splits)
  then show "r = Inr None" by simp
  have "\<not> let_go s" and "let_go ((set_block r b s)\<lparr>kb_handle := g\<rparr>)" using h g by (auto simp: let_go_def)
  with inv p g show "block_inv ((set_block r b s)\<lparr>kb_handle := g\<rparr>)"
    by (auto simp: block_inv_def set_block_def failed_def r b split: call_pc.splits)
qed

lemma dropped_inv:
  assumes inv: "block_inv s" and h: "kb_handle s = Some g" and d: "bj_destroy g (kb_block s) = (r, b)"
  shows "block_inv ((set_block r b s)\<lparr>kb_handle := None\<rparr>)"
proof (cases g)
  case None
  with inv h d show ?thesis
    by (auto simp: block_inv_def let_go_def set_block_def failed_def bj_destroy_def split: option.splits call_pc.splits)
next
  case (Some n)
  with inv h have "n = 0" by (auto simp: block_inv_def)
  with Some h d show ?thesis by (intro detached_inv(2) [OF inv]) (auto simp: bj_destroy_def)
qed

lemma block_inv_step:
  assumes inv: "block_inv s" and step: "block_step out l s = Some t"
  shows "block_inv t"
proof (cases l)
  case K_section
  with step have run: "kb_call s = C_running" and ok: "kb_fault s = None" by (simp_all split: if_splits)
  obtain p q where "kb_block s = Some p"
    and "call_section out (kb_block s) = (Inr (bs_suspended p, bs_state p), Some q)"
    and "block_inv ((set_block (Inr () :: fault + unit) (Some q) s)\<lparr>kb_call := C_section (bs_suspended p) (bs_state p)\<rparr>)"
    by (rule section_inv [OF inv run])
  with step K_section run ok show ?thesis by simp
next
  case K_schedule
  with step show ?thesis by (auto split: call_pc.splits if_splits prod.splits intro: scheduled_inv [OF inv])
next
  case K_delete
  with step show ?thesis by (auto split: call_pc.splits if_splits prod.splits intro: deleted_inv [OF inv])
next
  case K_detach
  with step inv have h: "kb_handle s = Some (Some 0)"
    by (auto simp: block_inv_def split: option.splits if_splits)
  obtain r b where d: "bj_detach (Some 0) (kb_block s) = (r, b)" by fastforce
  have "kb_fault s = None" using inv by (simp add: block_inv_def)
  with detached_inv [OF inv h d, of "Some None"] d h step K_detach show ?thesis by simp
next
  case K_drop
  with step show ?thesis by (auto split: option.splits if_splits prod.splits intro: dropped_inv [OF inv])
qed

lemma block_inv_init: "block_inv block_sys_init"
  by (simp add: block_inv_def block_sys_init_def bstate_init_def bj_ctor_def let_go_def)

section \<open>Properties\<close>

text \<open>
  The block shared by a blocking task and its handle is deleted exactly once: in every
  interleaving of the worker's \<open>call\<close> with detaching and dropping the handle nothing touches
  the block after it was deleted, and once the call has returned and the handle has let go
  the block is gone.
\<close>

theorem blocking_block_deleted_once:
  assumes "reach block_sys_init (block_step out) s"
  shows "kb_fault s = None \<and> kb_deleted s = (if kb_block s = None then 1 else 0) \<and>
         (kb_block s = None \<longrightarrow> kb_handle s \<noteq> Some (Some 0) \<and> kb_call s \<noteq> C_running) \<and>
         (kb_call s = C_returned \<longrightarrow> (kb_block s = None \<longleftrightarrow> kb_handle s \<noteq> Some (Some 0)))"
proof -
  have "block_inv s"
    using assms by (rule reach_invariant) (auto intro: block_inv_init block_inv_step)
  then show ?thesis by (auto simp: block_inv_def let_go_def split: option.splits call_pc.splits)
qed

theorem blocking_block_deleted_once_witness:
  "\<exists>s. reach (block_sys_init :: nat block_sys) (block_step (Inr 8)) s \<and> kb_call s = C_returned \<and>
       kb_block s = None \<and> kb_deleted s = 1"
proof -
  have "run_sat (block_step (Inr 8)) [K_section, K_detach, K_schedule, K_delete, K_drop]
      (block_sys_init :: nat block_sys) (\<lambda>s. kb_handle s = None \<and> kb_call s = C_returned)" by code_simp
  then obtain s where r: "reach (block_sys_init :: nat block_sys) (block_step (Inr 8)) s"
    and "kb_handle s = None \<and> kb_call s = C_returned" by (rule run_satE)
  with blocking_block_deleted_once [OF r] show ?thesis by auto
qed

text \<open>
  Joining a blocking task: the joining task is scheduled exactly once and not before the
  call has finished, however the two interleave.
\<close>

theorem blocking_wakes_once:
  assumes "reach (wake_init (Some bstate_init)) (wake_step h bj_ready bj_await_suspend (blocking_call out)) s"
  shows "posted (ws_exec s) = (if ws_pc s = W_suspended \<and> ws_finished s then [h] else []) \<and>
         ws_fault s = None \<and> (ws_pc s = W_through \<longrightarrow> ws_finished s)"
  using bl.wakes_once [OF assms] by (simp add: woken_so_far_def)

theorem blocking_wakes_once_witness:
  "\<exists>s. reach (wake_init (Some bstate_init)) (wake_step 5 bj_ready bj_await_suspend (blocking_call (Inr (8::nat)))) s \<and>
       posted (ws_exec s) = [5]"
proof -
  let ?step = "wake_step 5 bj_ready bj_await_suspend (blocking_call (Inr (8::nat)))"
  have "run_sat ?step [E_ready, E_suspend, E_finish] (wake_init (Some bstate_init))
      (\<lambda>s. ws_pc s = W_suspended \<and> ws_finished s)" by code_simp
  then obtain s where r: "reach (wake_init (Some bstate_init)) ?step s"
    and "ws_pc s = W_suspended \<and> ws_finished s" by (rule run_satE)
  with blocking_wakes_once [OF r] show ?thesis by auto
qed

text \<open>
  C30: what a joined blocking task delivers: the value its function returned; but when the
  function threw, the stored exception is never looked at: \<open>await_resume\<close> dereferences an
  empty option.
\<close>

theorem blocking_delivers:
  assumes "in_exec ex" and "w = None \<or> w = Some h"
  shows "\<exists>p. blocking_call out (Some (bstate_init\<lparr>bs_suspended := w\<rparr>), ex) =
            (Inr (), Some p, ex\<lparr>posted := posted ex @ (if w = None then [] else [h])\<rparr>) \<and>
          fst (bj_await_resume moved (Some p)) =
            (case out of Inl e \<Rightarrow> Inl (Undefined Empty_option_deref) | Inr v \<Rightarrow> Inr v) \<and>
          bs_ex p = (case out of Inl e \<Rightarrow> Some e | Inr v \<Rightarrow> None)"
  using assms by (cases out) (auto simp: block_defs)

theorem blocking_delivers_witness:
  "\<exists>p. blocking_call (Inl (User_exn 3)) (Some (bstate_init :: nat bstate), \<lparr>in_exec = True, posted = []\<rparr>) =
         (Inr (), Some p, \<lparr>in_exec = True, posted = []\<rparr>) \<and>
       fst (bj_await_resume (\<lambda>_. 0) (Some p)) = Inl (Undefined Empty_option_deref)"
  using blocking_delivers [of "\<lparr>in_exec = True, posted = []\<rparr>" None 0 "Inl (User_exn 3) :: exn + nat" "\<lambda>_. 0"]
  by (auto simp: bstate_init_def)

end
