(* ===== verification/Spawn_Blocking_Void.thy ===== *)
theory Spawn_Blocking_Void imports Spawn_Blocking Specialisation begin

text \<open>
  \<open>blocking_join_handle<void>\<close> (include/crasy/spawn_blocking.hpp, the explicit specialisation),
  compared with the template at the unit type. Its \<open>await_resume\<close> does nothing at all.
\<close>

section \<open>The shared block\<close>

record bvstate =
  bv_ex :: "exn option"
  bv_suspended :: "handle option"
  bv_state :: int

type_synonym bv_block = "bvstate option"

definition bvstate_init :: bvstate where
  "bvstate_init = \<lparr>bv_ex = None, bv_suspended = None, bv_state = 0\<rparr>"

definition bv_call_section :: "exn + unit \<Rightarrow> (handle option \<times> int, bv_block) comp" where
  "bv_call_section out b =
     (case b of
        None \<Rightarrow> (Inl (Undefined Use_after_free), b)
      | Some p \<Rightarrow>
          (let p1 = (case out of Inr v \<Rightarrow> p | Inl e \<Rightarrow> p\<lparr>bv_ex := Some e\<rparr>)
           in (Inr (bv_suspended p1, bv_state p1),
               Some (p1\<lparr>bv_suspended := None, bv_state := 1\<rparr>))))"

definition bv_delete :: "(unit, bv_block) comp" where
  "bv_delete b = (case b of None \<Rightarrow> (Inl (Undefined Use_after_free), b) | Some _ \<Rightarrow> (Inr (), None))"

definition bv_call :: "exn + unit \<Rightarrow> (unit, bv_block \<times> exec_ctx) comp" where
  "bv_call out = (\<lambda>(b, ex).
     case bv_call_section out b of
       (Inl f, b1) \<Rightarrow> (Inl f, b1, ex)
     | (Inr (susp, st), b1) \<Rightarrow>
         (case call_schedule susp ex of
            (Inl f, ex1) \<Rightarrow> (Inl f, b1, ex1)
          | (Inr _, ex1) \<Rightarrow>
              (let (r, b2) = (if st = -1 then bv_delete b1 else (Inr (), b1)) in (r, b2, ex1))))"

section \<open>The handle\<close>

definition bv_await_ready :: "bv_block \<Rightarrow> fault + bool" where
  "bv_await_ready b =
     (case b of None \<Rightarrow> Inl (Undefined Use_after_free) | Some p \<Rightarrow> Inr (bv_state p = 1))"

definition bv_await_suspend :: "handle \<Rightarrow> (unit, bv_block \<times> exec_ctx) comp" where
  "bv_await_suspend suspended = (\<lambda>(b, ex).
     case b of
       None \<Rightarrow> (Inl (Undefined Use_after_free), b, ex)
     | Some p \<Rightarrow>
         (if bv_state p = 1 then (let (r, ex1) = schedule_task suspended ex in (r, b, ex1))
          else (Inr (), Some (p\<lparr>bv_suspended := Some suspended\<rparr>), ex)))"

definition bv_await_resume :: "(unit, bv_block) comp" where
  "bv_await_resume b = (Inr (), b)"

definition bv_detach :: "blocking_handle \<Rightarrow> (blocking_handle, bv_block) comp" where
  "bv_detach g b =
     (case g of
        None \<Rightarrow> (Inl (Undefined Null_deref), b)
      | Some _ \<Rightarrow>
          (case b of
             None \<Rightarrow> (Inl (Undefined Use_after_free), b)
           | Some p \<Rightarrow> if bv_state p = 1 then (Inr None, snd (bv_delete b))
                       else (Inr None, Some (p\<lparr>bv_state := -1\<rparr>))))"

definition bv_destroy :: "blocking_handle \<Rightarrow> (blocking_handle, bv_block) comp" where
  "bv_destroy g b = (if g \<noteq> None then bv_detach g b else (Inr g, b))"

definition bv_ctor :: "nat \<Rightarrow> blocking_handle" where "bv_ctor s = Some s"

definition bv_move :: "blocking_handle \<Rightarrow> blocking_handle \<times> blocking_handle" where
  "bv_move other = (other, None)"

definition bv_assign :: "blocking_handle \<Rightarrow> blocking_handle \<Rightarrow> blocking_handle \<times> blocking_handle" where
  "bv_assign this rhs = (rhs, this)"

lemmas bv_defs = bvstate_init_def bv_call_section_def bv_delete_def bv_call_def bv_await_ready_def
  bv_await_suspend_def bv_await_resume_def bv_detach_def

section \<open>Compared with the template\<close>

definition obs_handle :: "(fault + 'g) \<times> 's \<Rightarrow> (fault + unit) \<times> 's" where
  "obs_handle z = (map_sum id (\<lambda>_. ()) (fst z), snd z)"

fun bj_obs :: "handle_op \<Rightarrow> unit block \<times> exec_ctx \<Rightarrow> aw_obs \<times> unit block \<times> exec_ctx" where
  "bj_obs (Await (Finish r)) s = obs_unit (blocking_call r s)"
| "bj_obs (Await Ask_ready) s = (Obs_bool (bj_await_ready (fst s)), s)"
| "bj_obs (Await (Suspend h)) s = obs_unit (bj_await_suspend h s)"
| "bj_obs (Await Resume) s = obs_keep (bj_await_resume id) s"
| "bj_obs Detach s = obs_keep (\<lambda>b. obs_handle (bj_detach (Some 0) b)) s"

fun bv_obs :: "handle_op \<Rightarrow> bv_block \<times> exec_ctx \<Rightarrow> aw_obs \<times> bv_block \<times> exec_ctx" where
  "bv_obs (Await (Finish r)) s = obs_unit (bv_call r s)"
| "bv_obs (Await Ask_ready) s = (Obs_bool (bv_await_ready (fst s)), s)"
| "bv_obs (Await (Suspend h)) s = obs_unit (bv_await_suspend h s)"
| "bv_obs (Await Resume) s = obs_keep bv_await_resume s"
| "bv_obs Detach s = obs_keep (\<lambda>b. obs_handle (bv_detach (Some 0) b)) s"

definition bj_forget :: "unit block \<Rightarrow> bv_block" where
  "bj_forget = map_option (\<lambda>p. \<lparr>bv_ex = bs_ex p, bv_suspended = bs_suspended p, bv_state = bs_state p\<rparr>)"

text \<open>\<open>await_resume\<close> hides every result: no value, no exception, and no use after free either.\<close>

fun erase_resume :: "handle_op \<Rightarrow> aw_obs \<Rightarrow> aw_obs" where
  "erase_resume (Await Resume) r = Obs_unit (Inr ())"
| "erase_resume x r = r"

interpretation bvs: specialises bj_obs bv_obs "apfst bj_forget" erase_resume
proof unfold_locales
  fix x and s :: "unit block \<times> exec_ctx"
  obtain b ex where s: "s = (b, ex)" by fastforce
  show "bv_obs x (apfst bj_forget s) = (erase_resume x (fst (bj_obs x s)), apfst bj_forget (snd (bj_obs x s)))"
  proof (cases b)
    case None
    show ?thesis
    proof (cases x)
      case (Await y)
      then show ?thesis
        by (cases y) (auto simp: s None obs_defs bv_defs block_defs bj_forget_def)
    qed (auto simp: s None obs_defs obs_handle_def bv_defs bj_detach_def bj_forget_def)
  next
    case (Some p)
    show ?thesis
    proof (cases x)
      case (Await y)
      then show ?thesis
        by (cases y) (auto simp: s Some obs_defs bv_defs block_defs bj_forget_def split_beta Let_def
            split: sum.splits option.splits)
    qed (auto simp: s Some obs_defs obs_handle_def bv_defs bj_detach_def delete_block_def bj_forget_def)
  qed
qed

end
