(* ===== verification/Stream.thy ===== *)
theory Stream imports Future begin

text \<open>
  \<open>stream\<close> (include/crasy/stream.hpp): the promise of a generating coroutine, its awaiter, the
  loop of \<open>for_each\<close>, and ownership. The loop reads the name \<open>f\<close>, meant is the parameter
  \<open>func\<close>.
\<close>

record 'v stream_promise =
  sp_value :: "'v option"
  sp_ex :: "exn option"
  sp_suspended :: "handle option"
  sp_done :: bool

definition stream_promise_init :: "'v stream_promise" where
  "stream_promise_init = \<lparr>sp_value = None, sp_ex = None, sp_suspended = None, sp_done = False\<rparr>"

definition stream_unhandled_exception :: "exn \<Rightarrow> 'v stream_promise \<Rightarrow> 'v stream_promise" where
  "stream_unhandled_exception e p = p\<lparr>sp_ex := Some e\<rparr>"

definition stream_wake :: "(unit, 'v stream_promise \<times> exec_ctx) comp" where
  "stream_wake = (\<lambda>(p, ex).
     case sp_suspended p of
       Some h \<Rightarrow> (let (r, ex1) = schedule_task h ex in (r, p\<lparr>sp_suspended := None\<rparr>, ex1))
     | None \<Rightarrow> (Inr (), p, ex))"

definition stream_final_suspend :: "(unit, 'v stream_promise \<times> exec_ctx) comp" where
  "stream_final_suspend = (\<lambda>(p, ex). stream_wake (p\<lparr>sp_done := True\<rparr>, ex))"

definition stream_yield_value :: "'v \<Rightarrow> (unit, 'v stream_promise \<times> exec_ctx) comp" where
  "stream_yield_value v = (\<lambda>(p, ex). stream_wake (p\<lparr>sp_value := Some v\<rparr>, ex))"

definition stream_await_ready :: "'v stream_promise \<Rightarrow> bool" where
  "stream_await_ready p \<longleftrightarrow> sp_done p \<or> sp_value p \<noteq> None \<or> sp_ex p \<noteq> None"

definition stream_await_suspend :: "handle \<Rightarrow> (unit, 'v stream_promise \<times> exec_ctx) comp" where
  "stream_await_suspend suspended = (\<lambda>(p, ex). (Inr (), p\<lparr>sp_suspended := Some suspended\<rparr>, ex))"

text \<open>
  \<^verbatim>\<open>return std::move(promise.value_)\<close> moves the option out; the option moved from stays
  engaged when it was, holding what the move left of the value.
\<close>

definition stream_await_resume :: "('v \<Rightarrow> 'v) \<Rightarrow> ('v option, 'v stream_promise) comp" where
  "stream_await_resume moved p =
     (case sp_ex p of
        Some e \<Rightarrow> (Inl (Throw e), p\<lparr>sp_ex := None\<rparr>)
      | None \<Rightarrow> (Inr (sp_value p), p\<lparr>sp_value := map_option moved (sp_value p)\<rparr>))"

text \<open>
  \<open>for_each\<close> on a stream that is ready: await the stream, pass the value to \<open>func\<close>, and stop at
  an empty option. \<open>None\<close> is a loop that does not end or waits for a stream that is not ready.
\<close>

partial_function (option) stream_for_each :: "('v \<Rightarrow> 'v) \<Rightarrow> ('v \<Rightarrow> 'w \<Rightarrow> (fault + unit) \<times> 'w)
    \<Rightarrow> 'v stream_promise \<Rightarrow> 'w \<Rightarrow> ((fault + unit) \<times> 'w) option" where
  "stream_for_each moved func p w =
     (if \<not> stream_await_ready p then None
      else case stream_await_resume moved p of
        (r, p1) \<Rightarrow>
          (case r of
             Inl f \<Rightarrow> Some (Inl f, w)
           | Inr val \<Rightarrow>
               (case val of
                  Some v \<Rightarrow>
                    (case func v w of
                       (q, w1) \<Rightarrow> (case q of
                          Inl f \<Rightarrow> Some (Inl f, w1)
                        | Inr u \<Rightarrow> stream_for_each moved func p1 w1))
                | None \<Rightarrow> Some (Inr (), w))))"

definition stream_ctor :: "nat \<Rightarrow> fut_handle" where "stream_ctor h = Some h"

definition stream_move :: "fut_handle \<Rightarrow> fut_handle \<times> fut_handle" where
  "stream_move other = (other, None)"

definition stream_assign :: "fut_handle \<Rightarrow> fut_handle \<Rightarrow> fut_handle \<times> fut_handle" where
  "stream_assign this rhs = (let tmp = this in (rhs, tmp))"

definition stream_destroy :: "fut_handle \<Rightarrow> nat list" where
  "stream_destroy g = (case g of Some h \<Rightarrow> [h] | None \<Rightarrow> [])"

definition stream_into_handle :: "fut_handle \<Rightarrow> fut_handle \<times> fut_handle" where
  "stream_into_handle this = (let ret = this in (ret, None))"

interpretation so: owner stream_ctor stream_move stream_assign stream_destroy fut_owns
  by unfold_locales
    (auto simp: stream_ctor_def stream_move_def stream_assign_def stream_destroy_def fut_owns_def
      split: option.splits)

lemmas stream_defs = stream_promise_init_def stream_wake_def stream_final_suspend_def
  stream_yield_value_def stream_await_ready_def stream_await_resume_def

text \<open>
  Several calls of \<open>yield_value\<close>, one after the other. It returns \<^verbatim>\<open>void\<close>, which \<^verbatim>\<open>co_yield\<close> cannot
  await, so no generator can be written with it as it stands; what follows is about the promise and its awaiter.
\<close>

fun stream_yields :: "'v list \<Rightarrow> 'v stream_promise \<times> exec_ctx \<Rightarrow> 'v stream_promise \<times> exec_ctx" where
  "stream_yields [] s = s"
| "stream_yields (v # vs) s = stream_yields vs (snd (stream_yield_value v s))"

lemma stream_yields_value:
  "\<exists>ex'. stream_yields vs (p, ex) = (p\<lparr>sp_value := (if vs = [] then sp_value p else Some (last vs)),
           sp_suspended := (if vs = [] then sp_suspended p else None)\<rparr>, ex')"
proof (induction vs arbitrary: p ex)
  case (Cons v vs)
  obtain r ex1 where "stream_yield_value v (p, ex) = (r, p\<lparr>sp_value := Some v, sp_suspended := None\<rparr>, ex1)"
    by (cases "sp_suspended p"; cases p; cases "schedule_task (the (sp_suspended p)) ex")
      (auto simp: stream_yield_value_def stream_wake_def)
  with Cons.IH [of "p\<lparr>sp_value := Some v, sp_suspended := None\<rparr>" ex1] show ?case by (auto split: if_splits)
qed simp

text \<open>A consumer that is suspended is scheduled by the first of several values, and by it only.\<close>

lemma stream_yields_posts:
  "in_exec ex \<Longrightarrow> stream_yields vs (p, ex) =
     (p\<lparr>sp_value := (if vs = [] then sp_value p else Some (last vs)),
        sp_suspended := (if vs = [] then sp_suspended p else None)\<rparr>,
      ex\<lparr>posted := posted ex @ (if vs = [] then [] else case sp_suspended p of None \<Rightarrow> [] | Some h \<Rightarrow> [h])\<rparr>)"
proof (induction vs arbitrary: p ex)
  case (Cons v vs)
  then show ?case
    by (cases "sp_suspended p") (simp_all add: stream_yield_value_def stream_wake_def)
qed simp

section \<open>Properties\<close>

text \<open>
  A promise holds one value and never gives up the option: of values passed to \<open>yield_value\<close> one after the other and before the
  end, only the last is delivered; and every later await is ready at once and delivers what the
  moves before it left of that value, never the empty option, so the end is never seen.
\<close>

theorem stream_delivers_last_for_ever:
  assumes "vs \<noteq> []" and "snd (stream_final_suspend (stream_yields vs (stream_promise_init, ex))) = (p, ex')"
  shows "sp_done p \<and> stream_await_ready p \<and> fst (stream_await_resume moved p) = Inr (Some (last vs)) \<and>
         (let q = ((\<lambda>p. snd (stream_await_resume moved p)) ^^ Suc n) p
          in stream_await_ready q \<and> fst (stream_await_resume moved q) = Inr (Some ((moved ^^ Suc n) (last vs))))"
proof -
  from stream_yields_value [of vs stream_promise_init ex] assms(1) obtain ex1 where
    "stream_yields vs (stream_promise_init, ex) =
       (stream_promise_init\<lparr>sp_value := Some (last vs), sp_suspended := None\<rparr>, ex1)" by auto
  with assms(2) have p: "sp_done p" "sp_value p = Some (last vs)" "sp_ex p = None"
    by (auto simp: stream_defs)
  have "sp_done (((\<lambda>p. snd (stream_await_resume moved p)) ^^ k) p) \<and>
        sp_value (((\<lambda>p. snd (stream_await_resume moved p)) ^^ k) p) = Some ((moved ^^ k) (last vs)) \<and>
        sp_ex (((\<lambda>p. snd (stream_await_resume moved p)) ^^ k) p) = None" for k
    by (induction k) (simp_all add: p stream_await_resume_def)
  from this [of "Suc n"] p show ?thesis
    by (simp add: stream_await_ready_def stream_await_resume_def [of moved p] Let_def)
      (simp add: stream_await_resume_def)
qed

theorem stream_delivers_last_for_ever_witness:
  "\<exists>p ex'. snd (stream_final_suspend (stream_yields [1, 2] (stream_promise_init, \<lparr>in_exec = True, posted = []\<rparr>))) = (p, ex') \<and>
     fst (stream_await_resume (\<lambda>_. 0) p) = Inr (Some (2::nat)) \<and>
     fst (stream_await_resume (\<lambda>_. 0) (snd (stream_await_resume (\<lambda>_. 0) p))) = Inr (Some 0)"
proof -
  obtain p ex' where e: "snd (stream_final_suspend (stream_yields [1, 2::nat] (stream_promise_init,
      \<lparr>in_exec = True, posted = []\<rparr>))) = (p, ex')" by (rule prod.exhaust)
  from stream_delivers_last_for_ever [OF _ e, of "\<lambda>_. 0" 0]
  have "fst (stream_await_resume (\<lambda>_. 0) p) = Inr (Some 2)"
    and "fst (stream_await_resume (\<lambda>_. 0) (snd (stream_await_resume (\<lambda>_. 0) p))) = Inr (Some 0)"
    by (simp_all add: Let_def)
  with e show ?thesis by blast
qed

text \<open>
  A consumer that awaits a stream before anything was yielded is scheduled exactly once, by the
  first value or by the end of a stream without values, and then receives the last value
  yielded, or the empty option that says the stream has ended.
\<close>

theorem stream_wakes_consumer:
  assumes "in_exec ex" and "snd (stream_await_suspend h (stream_promise_init, ex)) = (p1, ex1)"
    and "stream_yields vs (p1, ex1) = (p2, ex2)" and "snd (stream_final_suspend (p2, ex2)) = (p3, ex3)"
  shows "posted ex3 = posted ex @ [h] \<and> (vs \<noteq> [] \<longrightarrow> posted ex2 = posted ex @ [h]) \<and>
         sp_suspended p3 = None \<and>
         fst (stream_await_resume moved p3) = Inr (if vs = [] then None else Some (last vs))"
  using assms stream_yields_posts [of ex1 vs p1]
  by (cases "vs = []") (auto simp: stream_await_suspend_def stream_final_suspend_def stream_wake_def
    stream_promise_init_def stream_await_resume_def)

theorem stream_wakes_consumer_witness:
  "\<exists>p3 ex3. snd (stream_final_suspend (stream_yields [4, 5] (snd (stream_await_suspend 9
       (stream_promise_init, \<lparr>in_exec = True, posted = []\<rparr>))))) = (p3, ex3) \<and>
     posted ex3 = [9] \<and> fst (stream_await_resume id p3) = Inr (Some (5::nat))"
proof -
  obtain p1 ex1 where a: "snd (stream_await_suspend 9 (stream_promise_init :: nat stream_promise,
      \<lparr>in_exec = True, posted = []\<rparr>)) = (p1, ex1)" by (rule prod.exhaust)
  obtain p2 ex2 where b: "stream_yields [4, 5] (p1, ex1) = (p2, ex2)" by (rule prod.exhaust)
  obtain p3 ex3 where c: "snd (stream_final_suspend (p2, ex2)) = (p3, ex3)" by (rule prod.exhaust)
  from stream_wakes_consumer [OF _ a b c, of id] a b c show ?thesis by simp
qed

text \<open>
  \<open>for_each\<close> over a stream that has yielded a value never returns, unless the function it
  calls fails: the stream delivers for ever.
\<close>

theorem stream_for_each_never_ends:
  assumes "sp_value p = Some v" and "sp_ex p = None" and "\<And>x u. isl (fst (func x u)) = False"
  shows "stream_for_each moved func p w = None"
proof (rule ccontr)
  assume "stream_for_each moved func p w \<noteq> None"
  then obtain y where y: "stream_for_each moved func p w = Some y" by blast
  have "func' = func \<and> sp_value p \<noteq> None \<and> sp_ex p = None \<longrightarrow> False"
    if "stream_for_each mv func' p w = Some y" for mv func' p and w :: 'b and y
  proof (rule stream_for_each.raw_induct [OF _ that], intro impI, elim conjE)
    fix loop mv func' and p :: "'a stream_promise" and w :: 'b and y
    assume IH: "\<And>mv func' p (w :: 'b) y. loop mv func' p w = Some y \<Longrightarrow>
        func' = func \<and> sp_value p \<noteq> None \<and> sp_ex p = None \<longrightarrow> False"
      and body: "(if \<not> stream_await_ready p then None
        else case stream_await_resume mv p of (r, p1) \<Rightarrow>
          (case r of Inl f \<Rightarrow> Some (Inl f, w)
           | Inr val \<Rightarrow> (case val of
                Some v \<Rightarrow> (case func' v w of (q, w1) \<Rightarrow>
                   (case q of Inl f \<Rightarrow> Some (Inl f, w1) | Inr u \<Rightarrow> loop mv func' p1 w1))
              | None \<Rightarrow> Some (Inr (), w)))) = Some y"
      and f: "func' = func" and "sp_value p \<noteq> None" and ex: "sp_ex p = None"
    then obtain x where x: "sp_value p = Some x" by blast
    obtain u w1 where fx: "func x w = (Inr u, w1)"
      using assms(3) [of x w] by (cases "func x w"; cases "fst (func x w)") auto
    let ?p1 = "p\<lparr>sp_value := Some (mv x)\<rparr>"
    from body f x ex fx have "loop mv func ?p1 w1 = Some y"
      by (simp add: stream_await_ready_def stream_await_resume_def)
    from IH [OF this] ex show False by simp
  qed
  from this [OF y] assms(1,2) show False by simp
qed

theorem stream_for_each_never_ends_witness:
  "stream_for_each id (\<lambda>x l. (Inr (), x # l)) \<lparr>sp_value = Some (7::nat), sp_ex = None, sp_suspended = None, sp_done = True\<rparr> []
     = (None :: ((fault + unit) \<times> nat list) option)"
  by (rule stream_for_each_never_ends [where v = 7]) simp_all

end
