(* ===== verification/Coroutine_Calls.thy ===== *)
theory Coroutine_Calls imports Future_Void Spawn_Void Spawn_Blocking_Void Stream begin

text \<open>
  How a call of a coroutine starts: \<open>get_return_object\<close> and \<open>initial_suspend\<close> of the promise types of
  future.hpp, spawn.hpp and stream.hpp, and the language's rule that puts them together: a frame with a new
  promise, the object that is returned, and the body, which runs in the caller as far as its
  first suspension unless the coroutine suspends initially. Also what a handle answers when it is tested.
\<close>

section \<open>The promise types\<close>

datatype suspension = Suspend_never | Suspend_always

definition fut_get_return_object :: "nat \<Rightarrow> fut_handle" where
  "fut_get_return_object this = future_ctor this"

definition fut_initial_suspend :: suspension where "fut_initial_suspend = Suspend_never"

definition fv_get_return_object :: "nat \<Rightarrow> fut_handle" where
  "fv_get_return_object this = fv_ctor this"

definition fv_initial_suspend :: suspension where "fv_initial_suspend = Suspend_never"

definition jp_get_return_object :: "nat \<Rightarrow> join_handle" where
  "jp_get_return_object this = jh_ctor this"

definition jp_initial_suspend :: suspension where "jp_initial_suspend = Suspend_never"

definition jv_get_return_object :: "nat \<Rightarrow> join_handle" where
  "jv_get_return_object this = jv_ctor this"

definition jv_initial_suspend :: suspension where "jv_initial_suspend = Suspend_never"

definition stream_get_return_object :: "nat \<Rightarrow> fut_handle" where
  "stream_get_return_object this = stream_ctor this"

definition stream_initial_suspend :: suspension where "stream_initial_suspend = Suspend_never"

definition stream_return_void :: "'v stream_promise \<Rightarrow> 'v stream_promise" where
  "stream_return_void p = p"

definition stream_complete :: "exn + unit \<Rightarrow> (unit, 'v stream_promise \<times> exec_ctx) comp" where
  "stream_complete r = (\<lambda>(p, ex). stream_final_suspend
     (case r of Inl e \<Rightarrow> stream_unhandled_exception e p | Inr _ \<Rightarrow> stream_return_void p, ex))"

section \<open>Handles under test\<close>

definition jh_default :: join_handle where "jh_default = None"
definition jh_bool :: "join_handle \<Rightarrow> bool" where "jh_bool g \<longleftrightarrow> g \<noteq> None"
definition jv_default :: join_handle where "jv_default = None"
definition jv_bool :: "join_handle \<Rightarrow> bool" where "jv_bool g \<longleftrightarrow> g \<noteq> None"
definition bj_default :: blocking_handle where "bj_default = None"
definition bj_bool :: "blocking_handle \<Rightarrow> bool" where "bj_bool g \<longleftrightarrow> g \<noteq> None"
definition bv_default :: blocking_handle where "bv_default = None"
definition bv_bool :: "blocking_handle \<Rightarrow> bool" where "bv_bool g \<longleftrightarrow> g \<noteq> None"

section \<open>A call\<close>

text \<open>
  \<open>body\<close> is what the body does before it first suspends: it ends with \<open>Some r\<close>, or suspends.
  \<open>complete\<close> is the promise's part in its end. The frame is at the address \<open>a\<close>.
\<close>

definition call_coroutine :: "'f \<Rightarrow> (nat \<Rightarrow> 'g) \<Rightarrow> suspension \<Rightarrow> ('r \<Rightarrow> (unit, 'f \<times> exec_ctx) comp)
    \<Rightarrow> 'r option \<Rightarrow> nat \<Rightarrow> exec_ctx \<Rightarrow> (fault + unit) \<times> 'g \<times> 'f \<times> exec_ctx" where
  "call_coroutine promise get_return_object initial complete body a ex =
     (let obj = get_return_object a
      in case (initial, body) of
           (Suspend_never, Some r) \<Rightarrow> (let (x, p, ex1) = complete r (promise, ex) in (x, obj, p, ex1))
         | _ \<Rightarrow> (Inr (), obj, promise, ex))"

abbreviation "call_future \<equiv> call_coroutine fut_promise_init fut_get_return_object fut_initial_suspend fut_complete"
abbreviation "call_future_void \<equiv> call_coroutine fv_promise_init fv_get_return_object fv_initial_suspend fv_complete"
abbreviation "call_task \<equiv> call_coroutine (Some join_promise_init) jp_get_return_object jp_initial_suspend spawn_finish"
abbreviation "call_task_void \<equiv> call_coroutine (Some jv_promise_init) jv_get_return_object jv_initial_suspend jv_finish"
abbreviation "call_stream \<equiv>
  call_coroutine stream_promise_init stream_get_return_object stream_initial_suspend stream_complete"

lemmas call_defs = call_coroutine_def fut_get_return_object_def fut_initial_suspend_def fv_get_return_object_def
  fv_initial_suspend_def jp_get_return_object_def jp_initial_suspend_def jv_get_return_object_def jv_initial_suspend_def
  stream_get_return_object_def stream_initial_suspend_def future_ctor_def fv_ctor_def jh_ctor_def jv_ctor_def stream_ctor_def

section \<open>Properties\<close>

text \<open>
  Coroutines are eager: one that does not have to wait is done when its call returns, its value or exception is
  there, and nothing was scheduled; one that waits is not ready. In both cases the returned object owns the frame, and no
  other does.
\<close>

theorem calls_are_eager:
  "(case call_future body a ex of (x, g, p, ex1) \<Rightarrow>
      x = Inr () \<and> ex1 = ex \<and> fut_owns g = {#a#} \<and> fut_await_ready p = (body \<noteq> None) \<and>
      (\<forall>r. body = Some r \<longrightarrow> fst (fut_await_resume moved p) = given r)) \<and>
   (case call_future_void vbody a ex of (x, g, p, ex1) \<Rightarrow>
      x = Inr () \<and> ex1 = ex \<and> fut_owns g = {#a#} \<and> fv_await_ready p = (vbody \<noteq> None) \<and>
      (\<forall>r. vbody = Some r \<longrightarrow> fst (fv_await_resume p) = given r)) \<and>
   (case call_task body a ex of (x, g, fr, ex1) \<Rightarrow>
      x = Inr () \<and> ex1 = ex \<and> g = Some a \<and> jh_await_ready fr = Inr (body \<noteq> None) \<and>
      (\<forall>r. body = Some r \<longrightarrow> fst (jh_await_resume moved fr) = given r)) \<and>
   (case call_task_void vbody a ex of (x, g, fr, ex1) \<Rightarrow>
      x = Inr () \<and> ex1 = ex \<and> g = Some a \<and> jv_await_ready fr = Inr (vbody \<noteq> None) \<and>
      (\<forall>r. vbody = Some r \<longrightarrow> fst (jv_await_resume fr) = given r)) \<and>
   (case call_stream vbody a ex of (x, g, p, ex1) \<Rightarrow>
      x = Inr () \<and> ex1 = ex \<and> fut_owns g = {#a#} \<and> stream_await_ready p = (vbody \<noteq> None) \<and>
      (\<forall>r. vbody = Some r \<longrightarrow> fst (stream_await_resume moved2 p) = (case r of Inl e \<Rightarrow> Inl (Throw e) | Inr _ \<Rightarrow> Inr None)))"
proof (intro conjI)
  show "case call_future body a ex of (x, g, p, ex1) \<Rightarrow>
      x = Inr () \<and> ex1 = ex \<and> fut_owns g = {#a#} \<and> fut_await_ready p = (body \<noteq> None) \<and>
      (\<forall>r. body = Some r \<longrightarrow> fst (fut_await_resume moved p) = given r)"
    by (cases body) (auto simp: call_defs fut_defs fut_owns_def future_destroy_def given_def split: sum.splits)
  show "case call_future_void vbody a ex of (x, g, p, ex1) \<Rightarrow>
      x = Inr () \<and> ex1 = ex \<and> fut_owns g = {#a#} \<and> fv_await_ready p = (vbody \<noteq> None) \<and>
      (\<forall>r. vbody = Some r \<longrightarrow> fst (fv_await_resume p) = given r)"
    by (cases vbody) (auto simp: call_defs fv_defs fut_owns_def future_destroy_def given_def split: sum.splits)
  show "case call_task body a ex of (x, g, fr, ex1) \<Rightarrow>
      x = Inr () \<and> ex1 = ex \<and> g = Some a \<and> jh_await_ready fr = Inr (body \<noteq> None) \<and>
      (\<forall>r. body = Some r \<longrightarrow> fst (jh_await_resume moved fr) = given r)"
    by (cases body) (auto simp: call_defs join_defs given_def split: sum.splits)
  show "case call_task_void vbody a ex of (x, g, fr, ex1) \<Rightarrow>
      x = Inr () \<and> ex1 = ex \<and> g = Some a \<and> jv_await_ready fr = Inr (vbody \<noteq> None) \<and>
      (\<forall>r. vbody = Some r \<longrightarrow> fst (jv_await_resume fr) = given r)"
    by (cases vbody) (auto simp: call_defs jv_defs given_def split: sum.splits)
  show "case call_stream vbody a ex of (x, g, p, ex1) \<Rightarrow>
      x = Inr () \<and> ex1 = ex \<and> fut_owns g = {#a#} \<and> stream_await_ready p = (vbody \<noteq> None) \<and>
      (\<forall>r. vbody = Some r \<longrightarrow> fst (stream_await_resume moved2 p) = (case r of Inl e \<Rightarrow> Inl (Throw e) | Inr _ \<Rightarrow> Inr None))"
    by (cases vbody) (auto simp: call_defs stream_defs stream_complete_def stream_return_void_def stream_unhandled_exception_def fut_owns_def
        future_destroy_def split: sum.splits)
qed

text \<open>A handle tests true exactly if it owns something: constructed on a frame, and not moved from.\<close>

theorem handles_test_ownership:
  "\<not> jh_bool jh_default \<and> jh_bool (jh_ctor a) \<and> (case jh_move g of (new, old) \<Rightarrow> jh_bool new = jh_bool g \<and> \<not> jh_bool old) \<and>
   \<not> jv_bool jv_default \<and> jv_bool (jv_ctor a) \<and> (case jv_move g of (new, old) \<Rightarrow> jv_bool new = jv_bool g \<and> \<not> jv_bool old) \<and>
   \<not> bj_bool bj_default \<and> bj_bool (bj_ctor b) \<and> (case bj_move c of (new, old) \<Rightarrow> bj_bool new = bj_bool c \<and> \<not> bj_bool old) \<and>
   \<not> bv_bool bv_default \<and> bv_bool (bv_ctor b) \<and> (case bv_move c of (new, old) \<Rightarrow> bv_bool new = bv_bool c \<and> \<not> bv_bool old)"
  by (simp add: jh_default_def jh_bool_def jh_ctor_def jh_move_def jv_default_def jv_bool_def jv_ctor_def jv_move_def
      bj_default_def bj_bool_def bj_ctor_def bj_move_def bv_default_def bv_bool_def bv_ctor_def bv_move_def)

end
