(* ===== verification/Join_Handle.thy ===== *)
theory Join_Handle imports Spawn begin

text \<open>
  \<open>join_handle<T>\<close> (include/crasy/spawn.hpp), the class that \<open>spawn\<close> returns: one member of type
  \<open>join_handle_impl<T>\<close>, to which every operation is passed on and from which the moves are defaulted;
  and programs with any number of tasks and handles. \<open>Spawn\<close> has one task and its handle.
\<close>

section \<open>The class\<close>

record task_handle =
  th_impl :: join_handle

definition th_default :: task_handle where
  "th_default = \<lparr>th_impl = None\<rparr>"

definition th_of_impl :: "join_handle \<Rightarrow> task_handle" where
  "th_of_impl handle = \<lparr>th_impl = fst (jh_move handle)\<rparr>"

definition th_move :: "task_handle \<Rightarrow> task_handle \<times> task_handle" where
  "th_move other = (let (new, old) = jh_move (th_impl other) in (\<lparr>th_impl = new\<rparr>, \<lparr>th_impl = old\<rparr>))"

definition th_assign :: "task_handle \<Rightarrow> task_handle \<Rightarrow> task_handle \<times> task_handle" where
  "th_assign this rhs =
     (let (new, old) = jh_assign (th_impl this) (th_impl rhs) in (\<lparr>th_impl = new\<rparr>, \<lparr>th_impl = old\<rparr>))"

text \<open>The promise of the frame, which a null handle does not have.\<close>

definition th_promise :: "task_handle \<Rightarrow> ('a, 's) comp \<Rightarrow> ('a, 's) comp" where
  "th_promise h f = (if th_impl h = None then fail (Undefined Null_deref) else f)"

definition th_await_ready :: "task_handle \<Rightarrow> (bool, 'v frame) comp" where
  "th_await_ready h = th_promise h (\<lambda>fr. (jh_await_ready fr, fr))"

definition th_await_suspend :: "task_handle \<Rightarrow> handle \<Rightarrow> (unit, 'v frame \<times> exec_ctx) comp" where
  "th_await_suspend h suspended = th_promise h (jh_await_suspend suspended)"

definition th_await_resume :: "task_handle \<Rightarrow> ('v \<Rightarrow> 'v) \<Rightarrow> ('v, 'v frame) comp" where
  "th_await_resume h moved = th_promise h (jh_await_resume moved)"

definition th_detach :: "task_handle \<Rightarrow> (unit, 'v frame) comp" where
  "th_detach h = jh_detach (th_impl h)"

definition th_bool :: "task_handle \<Rightarrow> bool" where
  "th_bool h = (th_impl h \<noteq> None)"

definition th_destroy :: "task_handle \<Rightarrow> (unit, 'v frame) comp" where
  "th_destroy h = jh_destroy (th_impl h)"

text \<open>The frame the destructor detaches from.\<close>

definition th_release :: "task_handle \<Rightarrow> nat list" where
  "th_release h = (case th_impl h of None \<Rightarrow> [] | Some n \<Rightarrow> [n])"

definition th_spawn :: "nat \<Rightarrow> task_handle" where
  "th_spawn n = th_of_impl (jh_ctor n)"

lemmas th_defs = th_default_def th_of_impl_def th_move_def th_assign_def th_release_def th_spawn_def
  jh_move_def jh_assign_def jh_ctor_def

interpretation tho: owner th_spawn th_move th_assign th_release "\<lambda>h. mset (th_release h)"
  by unfold_locales (auto simp: th_defs split: option.splits)

section \<open>Tasks and handles\<close>

text \<open>
  The variables of type \<open>join_handle\<close> with their programs (\<open>Ownership\<close>), the frame of each task
  spawned so far and whether its body still runs; how often a frame was destroyed is a ghost.
  Task \<open>n\<close> ends with \<open>out n\<close>. The coroutine's own suspension after \<open>final_suspend\<close>, which
  \<open>join_detach_use_after_free\<close> is about, and the member \<open>detach\<close> are left out.
\<close>

record 'v handle_sys =
  hs_vars :: "task_handle own_vars"
  hs_frames :: "nat \<Rightarrow> 'v frame"
  hs_next :: nat
  hs_running :: "nat \<Rightarrow> bool"
  hs_destroyed :: "nat \<Rightarrow> nat"
  hs_exec :: exec_ctx
  hs_fault :: "fault option"

datatype handle_label = H_own own_op | H_default | H_finish nat

definition handle_sys_init :: "'v handle_sys" where
  "handle_sys_init = \<lparr>hs_vars = no_vars, hs_frames = (\<lambda>_. None), hs_next = 0, hs_running = (\<lambda>_. False),
     hs_destroyed = (\<lambda>_. 0), hs_exec = \<lparr>in_exec = True, posted = []\<rparr>, hs_fault = None\<rparr>"

definition put_frame :: "nat \<Rightarrow> 'v frame \<Rightarrow> fault + unit \<Rightarrow> 'v handle_sys \<Rightarrow> 'v handle_sys" where
  "put_frame n fr r s = s\<lparr>hs_frames := (hs_frames s)(n := fr), hs_fault := wake_fault r,
     hs_destroyed := (hs_destroyed s)(n := hs_destroyed s n + (if hs_frames s n \<noteq> None \<and> fr = None then 1 else 0))\<rparr>"

text \<open>What an operation on the variables does to the frames.\<close>

fun own_effect :: "own_op \<Rightarrow> 'v handle_sys \<Rightarrow> 'v handle_sys" where
  "own_effect (O_new n) s = s\<lparr>hs_frames := (hs_frames s)(n := Some join_promise_init),
     hs_running := (hs_running s)(n := True), hs_next := hs_next s + 1\<rparr>"
| "own_effect (O_destroy k) s =
     (case slot_at k (hs_vars s) of
        None \<Rightarrow> s
      | Some h \<Rightarrow> (case th_impl h of
                     None \<Rightarrow> s\<lparr>hs_fault := wake_fault (fst (th_destroy h (None :: 'v frame)))\<rparr>
                   | Some n \<Rightarrow> (let (r, fr) = th_destroy h (hs_frames s n) in put_frame n fr r s)))"
| "own_effect op s = s"

fun spawns_next :: "own_op \<Rightarrow> 'v handle_sys \<Rightarrow> bool" where
  "spawns_next (O_new n) s = (n = hs_next s)"
| "spawns_next op s = True"

fun handle_step :: "(nat \<Rightarrow> exn + 'v) \<Rightarrow> handle_label \<Rightarrow> 'v handle_sys \<Rightarrow> 'v handle_sys option" where
  "handle_step out (H_own op) s =
     (if hs_fault s = None \<and> spawns_next op s
      then map_option (\<lambda>v. (own_effect op s)\<lparr>hs_vars := v\<rparr>)
             (own_step th_spawn th_move th_assign th_release op (hs_vars s))
      else None)"
| "handle_step out H_default s =
     (if hs_fault s = None
      then Some (s\<lparr>hs_vars := (hs_vars s)\<lparr>ov_slots := ov_slots (hs_vars s) @ [Some th_default]\<rparr>\<rparr>) else None)"
| "handle_step out (H_finish n) s =
     (if hs_fault s = None \<and> hs_running s n
      then (let (r, fr, ex) = spawn_finish (out n) (hs_frames s n, hs_exec s)
            in Some ((put_frame n fr r s)\<lparr>hs_exec := ex, hs_running := (hs_running s)(n := False)\<rparr>))
      else None)"

abbreviation "th_owned s \<equiv> owned (\<lambda>h. mset (th_release h)) (ov_slots (hs_vars s))"

text \<open>A task: who holds its handle, whether it runs, and the state of its frame.\<close>

definition frame_ok :: "nat \<Rightarrow> bool \<Rightarrow> nat \<Rightarrow> 'v frame \<Rightarrow> bool" where
  "frame_ok holders running destroyed fr \<longleftrightarrow>
     (case fr of
        None \<Rightarrow> holders = 0 \<and> \<not> running \<and> destroyed = 1
      | Some p \<Rightarrow> destroyed = 0 \<and> jp_suspended p = None \<and>
          (holders = 1 \<and> jp_state p = (if running then J_waiting else J_done) \<or>
           holders = 0 \<and> running \<and> jp_state p = J_detached))"

definition handle_inv :: "'v handle_sys \<Rightarrow> bool" where
  "handle_inv s \<longleftrightarrow> hs_fault s = None \<and> in_exec (hs_exec s) \<and>
     (\<forall>n. if n < hs_next s then frame_ok (count (th_owned s) n) (hs_running s n) (hs_destroyed s n) (hs_frames s n)
          else count (th_owned s) n = 0 \<and> \<not> hs_running s n \<and> hs_destroyed s n = 0 \<and> hs_frames s n = None)"

lemma handle_invD:
  assumes "handle_inv s"
  shows "hs_fault s = None" and "in_exec (hs_exec s)"
    and "n < hs_next s \<Longrightarrow> frame_ok (count (th_owned s) n) (hs_running s n) (hs_destroyed s n) (hs_frames s n)"
    and "\<not> n < hs_next s \<Longrightarrow> count (th_owned s) n = 0 \<and> \<not> hs_running s n \<and> hs_destroyed s n = 0 \<and> hs_frames s n = None"
  using assms unfolding handle_inv_def by (metis, metis, metis, metis)

lemma own_effect_vars [simp]: "hs_vars (own_effect op s) = hs_vars s"
  by (cases op) (auto simp: put_frame_def Let_def split: option.splits prod.splits)

text \<open>The handle of a task that is dropped: the frame goes if the task has ended, else it is detached.\<close>

lemma drop_frame:
  assumes ok: "frame_ok holders running d (fr :: 'v frame)" and holders: "holders = Suc k" and h: "th_impl h = Some n"
  shows "\<exists>fr'. th_destroy h fr = (Inr (), fr') \<and>
           frame_ok k running (d + (if fr \<noteq> None \<and> fr' = None then 1 else 0)) fr'"
proof -
  from ok holders obtain p where p: "fr = Some p" "k = 0" "d = 0" "jp_suspended p = None"
    and st: "jp_state p = (if running then J_waiting else J_done)"
    by (cases fr) (auto simp: frame_ok_def)
  then show ?thesis using h
    by (cases running) (auto simp: th_destroy_def jh_destroy_def jh_detach_def frame_ok_def)
qed

text \<open>The end of a task: its frame goes if it was detached, else it waits to be joined or dropped.\<close>

lemma finish_frame:
  assumes ok: "frame_ok holders True d (fr :: 'v frame)" and ex: "in_exec ex"
  shows "\<exists>fr'. spawn_finish out (fr, ex) = (Inr (), fr', ex) \<and>
           frame_ok holders False (d + (if fr \<noteq> None \<and> fr' = None then 1 else 0)) fr'"
proof -
  from ok obtain p where p: "fr = Some p" "d = 0" "jp_suspended p = None"
    and st: "holders = 1 \<and> jp_state p = J_waiting \<or> holders = 0 \<and> jp_state p = J_detached"
    by (cases fr) (auto simp: frame_ok_def)
  have sb: "jp_state (spawn_body out p) = jp_state p" "jp_suspended (spawn_body out p) = None"
    using p by (auto simp: spawn_body_def jp_unhandled_exception_def jp_return_value_def split: sum.splits)
  from st show ?thesis
  proof
    assume "holders = 1 \<and> jp_state p = J_waiting"
    with p sb show ?thesis by (auto simp: spawn_finish_def jp_final_suspend_def frame_ok_def)
  next
    assume "holders = 0 \<and> jp_state p = J_detached"
    with p sb show ?thesis by (auto simp: spawn_finish_def jp_final_suspend_def frame_ok_def)
  qed
qed

lemma handle_inv_own:
  assumes inv: "handle_inv s" and nxt: "spawns_next op s"
    and step: "own_step th_spawn th_move th_assign th_release op (hs_vars s) = Some v"
  shows "handle_inv ((own_effect op s)\<lparr>hs_vars := v\<rparr>)"
proof -
  note bal = tho.step_balance [OF step]
  let ?own = "\<lambda>v. owned (\<lambda>h. mset (th_release h)) (ov_slots v)"
  show ?thesis
  proof (cases op)
    case (O_new r)
    with step have "ov_log v = ov_log (hs_vars s)" by auto
    with bal O_new nxt have own: "?own v = add_mset (hs_next s) (th_owned s)" by simp
    have "frame_ok (Suc 0) True 0 (Some join_promise_init :: 'a frame)"
      by (simp add: frame_ok_def join_promise_init_def)
    with inv own O_new nxt show ?thesis by (simp add: handle_inv_def less_Suc_eq)
  next
    case (O_move k)
    with step have "ov_log v = ov_log (hs_vars s)" by (auto split: option.splits prod.splits)
    with bal O_move have "?own v = th_owned s" by simp
    with inv O_move show ?thesis by (simp add: handle_inv_def)
  next
    case (O_assign j k)
    with step have "ov_log v = ov_log (hs_vars s)" by (auto split: option.splits prod.splits if_splits)
    with bal O_assign have "?own v = th_owned s" by simp
    with inv O_assign show ?thesis by (simp add: handle_inv_def)
  next
    case (O_destroy k)
    with step obtain h where h: "slot_at k (hs_vars s) = Some h"
      and v: "ov_log v = ov_log (hs_vars s) @ th_release h" by (auto split: option.splits)
    from bal O_destroy v have own: "?own v + mset (th_release h) = th_owned s" by (simp add: ac_simps)
    show ?thesis
    proof (cases "th_impl h")
      case None
      with own have "?own v = th_owned s" by (simp add: th_release_def)
      with inv O_destroy h None show ?thesis
        by (simp add: handle_inv_def th_destroy_def jh_destroy_def wake_fault_def)
    next
      case (Some n)
      with own have own: "th_owned s = add_mset n (?own v)" by (simp add: th_release_def)
      then have n: "n < hs_next s" using handle_invD(4) [OF inv, of n] by (cases "n < hs_next s") auto
      from drop_frame [OF handle_invD(3) [OF inv n] _ Some, of "count (?own v) n"] own obtain fr where
        fr: "th_destroy h (hs_frames s n) = (Inr (), fr)"
        and ok: "frame_ok (count (?own v) n) (hs_running s n)
                   (hs_destroyed s n + (if hs_frames s n \<noteq> None \<and> fr = None then 1 else 0)) fr" by auto
      have e: "own_effect op s = put_frame n fr (Inr ()) s" using O_destroy h Some fr by simp
      have c: "count (?own v) m = count (th_owned s) m" if "m \<noteq> n" for m using own that by simp
      show ?thesis
        using handle_invD [OF inv] n ok c
        unfolding handle_inv_def e put_frame_def wake_fault_def
        by (cases "hs_frames s n"; cases fr) simp_all
    qed
  qed
qed

lemma handle_inv_step:
  assumes inv: "handle_inv s" and step: "handle_step out l s = Some t"
  shows "handle_inv t"
proof (cases l)
  case (H_own op)
  with step obtain v where "spawns_next op s" "own_step th_spawn th_move th_assign th_release op (hs_vars s) = Some v"
    and t: "t = (own_effect op s)\<lparr>hs_vars := v\<rparr>" by (auto split: if_splits)
  with handle_inv_own [OF inv] show ?thesis by simp
next
  case H_default
  with step have t: "t = s\<lparr>hs_vars := (hs_vars s)\<lparr>ov_slots := ov_slots (hs_vars s) @ [Some th_default]\<rparr>\<rparr>"
    by (simp split: if_splits)
  then have "th_owned t = th_owned s" by (simp add: slot_owns_def th_release_def th_default_def)
  with inv t show ?thesis by (simp add: handle_inv_def)
next
  case (H_finish n)
  with step have run: "hs_running s n" by (simp split: if_splits)
  then have n: "n < hs_next s" using handle_invD(4) [OF inv, of n] by auto
  from handle_invD(3) [OF inv n] run finish_frame [OF _ handle_invD(2) [OF inv]] obtain fr where
    fr: "spawn_finish (out n) (hs_frames s n, hs_exec s) = (Inr (), fr, hs_exec s)"
    and ok: "frame_ok (count (th_owned s) n) False
               (hs_destroyed s n + (if hs_frames s n \<noteq> None \<and> fr = None then 1 else 0)) fr" by fastforce
  from step H_finish fr have "t = (put_frame n fr (Inr ()) s)\<lparr>hs_exec := hs_exec s, hs_running := (hs_running s)(n := False)\<rparr>"
    by (simp split: if_splits)
  then show ?thesis
    using handle_invD [OF inv] n ok unfolding handle_inv_def put_frame_def wake_fault_def
    by (cases "hs_frames s n"; cases fr) simp_all
qed

lemma handle_reach_inv: "reach handle_sys_init (handle_step out) s \<Longrightarrow> handle_inv s"
proof (erule reach_invariant)
  show "handle_inv handle_sys_init" by (simp add: handle_inv_def handle_sys_init_def no_vars_def)
qed (rule handle_inv_step)

text \<open>
  C13: spawned tasks and their handles, in every program that spawns tasks, default-constructs,
  moves, move-assigns and drops handles while the tasks end at any moment: no operation on a
  handle touches a destroyed frame; every task's frame has at most one handle, and is
  destroyed once its handle has been dropped and its body has ended, at that moment and
  exactly once; so when all handles are gone and all bodies have ended, no frame is left.
\<close>

theorem tasks_and_handles:
  assumes "reach handle_sys_init (handle_step out) s"
  shows "hs_fault s = None \<and>
         (\<forall>n. count (th_owned s) n \<le> 1 \<and>
              (hs_frames s n = None \<and> n < hs_next s \<longleftrightarrow>
                 n < hs_next s \<and> count (th_owned s) n = 0 \<and> \<not> hs_running s n) \<and>
              hs_destroyed s n = (if n < hs_next s \<and> hs_frames s n = None then 1 else 0)) \<and>
         (set (ov_slots (hs_vars s)) \<subseteq> {None} \<and> (\<forall>n. \<not> hs_running s n) \<longrightarrow>
            (\<forall>n < hs_next s. hs_frames s n = None \<and> hs_destroyed s n = 1))"
proof -
  from handle_reach_inv [OF assms] have inv: "handle_inv s" .
  have each: "count (th_owned s) n \<le> 1 \<and>
      (hs_frames s n = None \<and> n < hs_next s \<longleftrightarrow> n < hs_next s \<and> count (th_owned s) n = 0 \<and> \<not> hs_running s n) \<and>
      hs_destroyed s n = (if n < hs_next s \<and> hs_frames s n = None then 1 else 0)" for n
    using handle_invD(3,4) [OF inv, of n]
    by (cases "n < hs_next s"; cases "hs_frames s n") (auto simp: frame_ok_def intro: count_inI)
  moreover have "\<forall>n < hs_next s. hs_frames s n = None \<and> hs_destroyed s n = 1"
    if "set (ov_slots (hs_vars s)) \<subseteq> {None}" "\<forall>n. \<not> hs_running s n"
    using that owned_dead [OF that(1), of "\<lambda>h. mset (th_release h)"] each by fastforce
  ultimately show ?thesis using handle_invD(1) [OF inv] by blast
qed

theorem tasks_and_handles_witness:
  "\<exists>s. reach (handle_sys_init :: nat handle_sys) (handle_step (\<lambda>n. Inr n)) s \<and> hs_next s = 1 \<and> hs_destroyed s 0 = 1"
proof -
  let ?ls = "[H_own (O_new 0), H_own (O_move 0), H_own (O_destroy 1), H_finish 0, H_own (O_destroy 0)]"
  have "run_sat (handle_step (\<lambda>n. Inr n)) ?ls (handle_sys_init :: nat handle_sys)
      (\<lambda>s. ov_slots (hs_vars s) = [None, None] \<and> hs_next s = 1 \<and> \<not> hs_running s 0)" by code_simp
  then obtain s where r: "reach (handle_sys_init :: nat handle_sys) (handle_step (\<lambda>n. Inr n)) s"
    and s: "ov_slots (hs_vars s) = [None, None]" "hs_next s = 1" "\<not> hs_running s 0"
    by (elim run_satE) simp
  from s(1) have "th_owned s = {#}" by (simp add: owned_def slot_owns_def)
  with tasks_and_handles [OF r, THEN conjunct2, THEN conjunct1, THEN spec, of 0] s
  have "hs_destroyed s 0 = 1" by simp
  with r s show ?thesis by blast
qed

end
