(* ===== verification/Blocking_Service.thy ===== *)
theory Blocking_Service imports Pool_Accesses Spawn_Blocking begin

text \<open>
  \<open>spawn_blocking\<close> on the executor: the blocking workers of \<open>Pool_Accesses\<close> run the calls of the state
  blocks of \<open>Spawn_Blocking\<close>, while callers push new ones, access by access, and the tasks that hold the handles
  detach or drop them. A blocking task of the pool is the number of its block; a block's number is not used again, also
  after the block was deleted.
\<close>

section \<open>The system\<close>

record 'v service =
  sv_threads :: pool_threads
  sv_blocks :: "nat \<Rightarrow> 'v block_sys option"

abbreviation sv_pool :: "'v service \<Rightarrow> pool" where
  "sv_pool s \<equiv> pa_pool (sv_threads s)"

abbreviation sv_queue :: "'v service \<Rightarrow> task lfq_sys" where
  "sv_queue s \<equiv> pa_q (sv_threads s)"

datatype service_label =
    Sv_spawn nat nat | Sv_pool pool_thread_label | Sv_call nat block_label | Sv_finish nat | Sv_handle nat block_label

definition service_init :: "'v service" where
  "service_init = \<lparr>sv_threads = pool_threads_init, sv_blocks = (\<lambda>_. None)\<rparr>"

fun of_call :: "block_label \<Rightarrow> bool" where
  "of_call K_section = True"
| "of_call K_schedule = True"
| "of_call K_delete = True"
| "of_call _ = False"

fun of_pool :: "pool_thread_label \<Rightarrow> bool" where
  "of_pool (Q_call c k) = False"
| "of_pool (Q_pool (W_run i)) = False"
| "of_pool _ = True"

text \<open>
  \<open>out k\<close> is what the function of block \<open>k\<close> returns or throws. A caller makes the block and begins the push of its task; a
  worker that holds a task runs the sections of its call one by one, and goes on with its loop when the call has returned.
\<close>

fun service_step :: "nat \<Rightarrow> nat \<Rightarrow> (nat \<Rightarrow> exn + 'v) \<Rightarrow> service_label \<Rightarrow> 'v service \<Rightarrow> 'v service option" where
  "service_step N n out (Sv_spawn c k) s =
     (if sv_blocks s k = None
      then map_option (\<lambda>p. \<lparr>sv_threads = p, sv_blocks = (sv_blocks s)(k \<mapsto> block_sys_init)\<rparr>)
             (pa_step N n (Q_call c k) (sv_threads s))
      else None)"
| "service_step N n out (Sv_pool l) s =
     (if of_pool l then map_option (\<lambda>p. s\<lparr>sv_threads := p\<rparr>) (pa_step N n l (sv_threads s)) else None)"
| "service_step N n out (Sv_call i l) s =
     (case po_pc (sv_pool s) i of
        B_run k \<Rightarrow>
          (case sv_blocks s k of
             Some b \<Rightarrow> if i < N \<and> of_call l
                       then map_option (\<lambda>b1. s\<lparr>sv_blocks := (sv_blocks s)(k \<mapsto> b1)\<rparr>) (block_step (out k) l b)
                       else None
           | None \<Rightarrow> None)
      | _ \<Rightarrow> None)"
| "service_step N n out (Sv_finish i) s =
     (case po_pc (sv_pool s) i of
        B_run k \<Rightarrow>
          (case sv_blocks s k of
             Some b \<Rightarrow> if kb_call b = C_returned
                       then map_option (\<lambda>p. s\<lparr>sv_threads := p\<rparr>) (pa_step N n (Q_pool (W_run i)) (sv_threads s))
                       else None
           | None \<Rightarrow> None)
      | _ \<Rightarrow> None)"
| "service_step N n out (Sv_handle k l) s =
     (case sv_blocks s k of
        Some b \<Rightarrow> if \<not> of_call l
                  then map_option (\<lambda>b1. s\<lparr>sv_blocks := (sv_blocks s)(k \<mapsto> b1)\<rparr>) (block_step (out k) l b)
                  else None
      | None \<Rightarrow> None)"

text \<open>The steps, by what they change.\<close>

lemma service_stepE:
  assumes "service_step N n out l s = Some t"
  obtains (spawn) c k p where "sv_blocks s k = None" and "pa_step N n (Q_call c k) (sv_threads s) = Some p"
      and "t = \<lparr>sv_threads = p, sv_blocks = (sv_blocks s)(k \<mapsto> block_sys_init)\<rparr>"
    | (pool) ql p where "of_pool ql" and "pa_step N n ql (sv_threads s) = Some p" and "t = s\<lparr>sv_threads := p\<rparr>"
    | (finish) i k b p where "po_pc (sv_pool s) i = B_run k" and "sv_blocks s k = Some b" and "kb_call b = C_returned"
      and "pa_step N n (Q_pool (W_run i)) (sv_threads s) = Some p" and "t = s\<lparr>sv_threads := p\<rparr>"
    | (block) k bl b c where "sv_blocks s k = Some b" and "block_step (out k) bl b = Some c"
      and "of_call bl \<Longrightarrow> \<exists>i < N. po_pc (sv_pool s) i = B_run k" and "t = s\<lparr>sv_blocks := (sv_blocks s)(k \<mapsto> c)\<rparr>"
proof (cases l)
  case (Sv_spawn c k)
  with assms spawn show thesis by (auto simp del: pa_step.simps split: if_splits)
next
  case (Sv_pool ql)
  with assms pool show thesis by (auto simp del: pa_step.simps split: if_splits)
next
  case (Sv_call i bl)
  with assms obtain k b c where "po_pc (sv_pool s) i = B_run k" "i < N" "sv_blocks s k = Some b"
    "block_step (out k) bl b = Some c" "t = s\<lparr>sv_blocks := (sv_blocks s)(k \<mapsto> c)\<rparr>"
    by (auto split: bw_pc.splits option.splits if_splits)
  with block show thesis by blast
next
  case (Sv_finish i)
  with assms finish show thesis by (auto simp del: pa_step.simps split: bw_pc.splits option.splits if_splits)
next
  case (Sv_handle k bl)
  with assms obtain b c where "sv_blocks s k = Some b" "block_step (out k) bl b = Some c" "\<not> of_call bl"
    "t = s\<lparr>sv_blocks := (sv_blocks s)(k \<mapsto> c)\<rparr>"
    by (auto split: option.splits if_splits)
  with block show thesis by blast
qed

text \<open>The service is a client of the queue, as the pool is.\<close>

lemma service_by_access:
  assumes "service_step N n out l s = Some t"
  shows "(sv_queue t = sv_queue s \<and> po_taken (sv_pool t) = po_taken (sv_pool s) \<and> po_pushed (sv_pool t) = po_pushed (sv_pool s)) \<or>
      (\<exists>ql. thread_of ql < n \<and> lfq_step By_value ql (sv_queue s) = Some (sv_queue t) \<and>
            po_taken (sv_pool t) = po_taken (sv_pool s) @ handed ql (sv_queue s) \<and>
            po_pushed (sv_pool t) = po_pushed (sv_pool s) @ offered ql)"
  using assms
proof (cases rule: service_stepE)
  case (spawn c k p)
  with pa_by_access [OF spawn(2)] show ?thesis by simp
next
  case (pool ql p)
  with pa_by_access [OF pool(2)] show ?thesis by simp
next
  case (finish i k b p)
  with pa_by_access [OF finish(4)] show ?thesis by simp
qed simp

interpretation svu: queue_user service_init "service_step N n out" sv_queue By_value
    "\<lambda>s. po_taken (sv_pool s)" "\<lambda>s. po_pushed (sv_pool s)" n for N n out
  by unfold_locales (simp add: service_init_def pool_threads_init_def pool_init_def, rule service_by_access)

section \<open>The invariant\<close>

text \<open>That no more was taken than was given is the queue's part.\<close>

definition service_inv :: "nat \<Rightarrow> nat \<Rightarrow> 'v service \<Rightarrow> bool" where
  "service_inv N n s \<longleftrightarrow>
     pa_inv N n (sv_threads s) \<and> mset (po_taken (sv_pool s)) \<subseteq># mset (po_pushed (sv_pool s)) \<and>
     distinct (po_pushed (sv_pool s)) \<and> set (po_pushed (sv_pool s)) = dom (sv_blocks s) \<and>
     (\<forall>k b. sv_blocks s k = Some b \<longrightarrow> block_inv b \<and>
        (kb_call b \<noteq> C_running \<longrightarrow> k \<in> set (po_ran (sv_pool s)) \<or> (\<exists>i < N. po_pc (sv_pool s) i = B_run k)) \<and>
        (k \<in> set (po_ran (sv_pool s)) \<longrightarrow> kb_call b = C_returned))"

text \<open>What the pool's own steps leave alone, and what the parts of a block's life do to its call.\<close>

lemma pool_step_frame:
  assumes "pool_step N l s = Some t" and "\<not> on_queue l" and "\<And>i. l \<noteq> W_run i"
  shows "po_pushed t = po_pushed s" and "po_ran t = po_ran s"
    and "po_pc s i = B_run k \<Longrightarrow> po_pc t i = B_run k"
  using assms
  by (cases l; auto simp: run_blocking_count_def run_blocking_notify_def wake_def worker_sub_def
      worker_test_def blocking_shutdown_def blocking_notify_all_def split: if_splits bw_pc.splits prod.splits
      option.splits)+

lemma pa_step_frame:
  assumes "pa_step N n l s = Some t" and "of_pool l"
  shows "po_pushed (pa_pool t) = po_pushed (pa_pool s) \<and> po_ran (pa_pool t) = po_ran (pa_pool s) \<and>
    (\<forall>i k. po_pc (pa_pool s) i = B_run k \<longrightarrow> po_pc (pa_pool t) i = B_run k)"
  using assms(1)
proof (cases rule: pa_stepE)
  case (call c x q)
  with assms(2) show ?thesis by simp
next
  case (popped i r q)
  then show ?thesis by (auto simp: worker_got_def split: option.splits)
next
  case (other k p)
  with assms(2) have "\<And>i. k \<noteq> W_run i" by auto
  from pool_step_frame [OF other(3,2) this] other(4) show ?thesis by auto
qed (simp_all add: push_returned_def)

lemma block_step_handle:
  assumes "block_step out l b = Some c" and "\<not> of_call l"
  shows "kb_call c = kb_call b"
  using assms by (cases l) (auto simp: set_block_def split: option.splits if_splits prod.splits)

lemma block_step_returned:
  assumes "block_step out l b = Some c" and "kb_call b = C_returned"
  shows "kb_call c = C_returned"
  using assms by (cases l) (auto simp: set_block_def split: option.splits if_splits prod.splits)

lemma service_invI:
  assumes "pa_inv N n (sv_threads t)" and "mset (po_taken (sv_pool t)) \<subseteq># mset (po_pushed (sv_pool t))"
    and "distinct (po_pushed (sv_pool t))" and "set (po_pushed (sv_pool t)) = dom (sv_blocks t)"
    and "\<And>k b. sv_blocks t k = Some b \<Longrightarrow> block_inv b"
    and "\<And>k b. sv_blocks t k = Some b \<Longrightarrow> kb_call b \<noteq> C_running \<Longrightarrow>
           k \<in> set (po_ran (sv_pool t)) \<or> (\<exists>i < N. po_pc (sv_pool t) i = B_run k)"
    and "\<And>k b. sv_blocks t k = Some b \<Longrightarrow> k \<in> set (po_ran (sv_pool t)) \<Longrightarrow> kb_call b = C_returned"
  shows "service_inv N n t"
  using assms unfolding service_inv_def by blast

lemma service_invD:
  assumes "service_inv N n s"
  shows "pa_inv N n (sv_threads s)" and "mset (po_taken (sv_pool s)) \<subseteq># mset (po_pushed (sv_pool s))"
    and "distinct (po_pushed (sv_pool s))" and "set (po_pushed (sv_pool s)) = dom (sv_blocks s)"
    and "sv_blocks s k = Some b \<Longrightarrow> block_inv b"
    and "sv_blocks s k = Some b \<Longrightarrow> kb_call b \<noteq> C_running \<Longrightarrow>
           k \<in> set (po_ran (sv_pool s)) \<or> (\<exists>i < N. po_pc (sv_pool s) i = B_run k)"
    and "sv_blocks s k = Some b \<Longrightarrow> k \<in> set (po_ran (sv_pool s)) \<Longrightarrow> kb_call b = C_returned"
  using assms unfolding service_inv_def by blast+

lemma ran_was_pushed:
  assumes "service_inv N n s" shows "set (po_ran (sv_pool s)) \<subseteq> set (po_pushed (sv_pool s))"
proof -
  note d = service_invD [OF assms]
  have "mset (po_ran (sv_pool s)) \<subseteq># mset (po_taken (sv_pool s))" using d(1) by (simp add: pa_inv_def hands_def)
  with d(2) have "mset (po_ran (sv_pool s)) \<subseteq># mset (po_pushed (sv_pool s))" by (rule subset_mset.order_trans [rotated])
  from set_mset_mono [OF this] show ?thesis by simp
qed

lemma service_inv_spawn:
  assumes inv: "service_inv N n s" and new: "sv_blocks s k = None" and p: "pa_step N n (Q_call c k) (sv_threads s) = Some p"
  shows "service_inv N n \<lparr>sv_threads = p, sv_blocks = (sv_blocks s)(k \<mapsto> block_sys_init)\<rparr>"
proof -
  note d = service_invD [OF inv]
  from p have pp: "pa_pool p = push_called k (sv_pool s)" by (auto simp: pa_queue_def split: if_splits)
  have "k \<notin> set (po_pushed (sv_pool s))" using d(4) new by auto
  moreover from this ran_was_pushed [OF inv] have "k \<notin> set (po_ran (sv_pool s))" by blast
  moreover have "mset (po_taken (sv_pool s)) \<subseteq># add_mset k (mset (po_pushed (sv_pool s)))"
    by (rule subset_mset.order_trans [OF d(2)]) simp
  ultimately show ?thesis
    using pa_inv_step [OF d(1) p] d block_inv_init
    by (intro service_invI) (auto simp: pp push_called_def block_sys_init_def split: if_splits)
qed

lemma service_inv_pool:
  assumes inv: "service_inv N n s" and p: "pa_step N n l (sv_threads s) = Some p" and l: "of_pool l"
    and paid: "mset (po_taken (pa_pool p)) \<subseteq># mset (po_pushed (pa_pool p))"
  shows "service_inv N n (s\<lparr>sv_threads := p\<rparr>)"
  using service_invD [OF inv] pa_inv_step [OF _ p] pa_step_frame [OF p l] paid
  by (intro service_invI) (simp_all, metis)

lemma service_inv_finish:
  assumes inv: "service_inv N n s" and p: "pa_step N n (Q_pool (W_run i)) (sv_threads s) = Some p"
    and k: "po_pc (sv_pool s) i = B_run k" "sv_blocks s k = Some b" "kb_call b = C_returned"
  shows "service_inv N n (s\<lparr>sv_threads := p\<rparr>)"
proof -
  note d = service_invD [OF inv]
  from p k have pp: "pa_pool p = worker_run i k (sv_pool s)" by (auto split: if_splits)
  have ran: "po_ran (pa_pool p) = po_ran (sv_pool s) @ [k]" "po_pushed (pa_pool p) = po_pushed (sv_pool s)"
    "po_taken (pa_pool p) = po_taken (sv_pool s)"
    "\<And>m j. po_pc (sv_pool s) j = B_run m \<Longrightarrow> m \<noteq> k \<Longrightarrow> po_pc (pa_pool p) j = B_run m"
    using k by (auto simp: pp worker_run_def)
  show ?thesis
  proof (rule service_invI)
    fix m c assume "sv_blocks (s\<lparr>sv_threads := p\<rparr>) m = Some c" "kb_call c \<noteq> C_running"
    with d(6) [of m c] ran show "m \<in> set (po_ran (sv_pool (s\<lparr>sv_threads := p\<rparr>))) \<or>
        (\<exists>i < N. po_pc (sv_pool (s\<lparr>sv_threads := p\<rparr>)) i = B_run m)"
      by (cases "m = k") auto
  next
    fix m c assume "sv_blocks (s\<lparr>sv_threads := p\<rparr>) m = Some c" "m \<in> set (po_ran (sv_pool (s\<lparr>sv_threads := p\<rparr>)))"
    with d(7) [of m c] ran k show "kb_call c = C_returned" by auto
  qed (use d pa_inv_step [OF d(1) p] ran in auto)
qed

lemma service_inv_block:
  assumes inv: "service_inv N n s" and b: "sv_blocks s k = Some b" and c: "block_step out l b = Some c"
    and held: "of_call l \<Longrightarrow> \<exists>i < N. po_pc (sv_pool s) i = B_run k"
  shows "service_inv N n (s\<lparr>sv_blocks := (sv_blocks s)(k \<mapsto> c)\<rparr>)"
proof -
  note d = service_invD [OF inv]
  have "kb_call c \<noteq> C_running \<Longrightarrow> k \<in> set (po_ran (sv_pool s)) \<or> (\<exists>i < N. po_pc (sv_pool s) i = B_run k)"
    using held block_step_handle [OF c] d(6) [OF b] by (cases "of_call l") auto
  moreover have "k \<in> set (po_ran (sv_pool s)) \<Longrightarrow> kb_call c = C_returned"
    using block_step_returned [OF c] d(7) [OF b] by blast
  moreover have "block_inv c" using block_inv_step [OF d(5) [OF b] c] .
  ultimately show ?thesis
    using d b by (intro service_invI) (auto split: if_splits)
qed

lemma service_inv_step:
  assumes inv: "service_inv N n s" and step: "service_step N n out l s = Some t"
    and paid: "mset (po_taken (sv_pool t)) \<subseteq># mset (po_pushed (sv_pool t))"
  shows "service_inv N n t"
  using step
proof (cases rule: service_stepE)
  case (spawn c k p)
  with service_inv_spawn [OF inv] show ?thesis by blast
next
  case (pool ql p)
  with service_inv_pool [OF inv pool(2,1)] paid show ?thesis by simp
next
  case (finish i k b p)
  with service_inv_finish [OF inv] show ?thesis by blast
next
  case (block k bl b c)
  with service_inv_block [OF inv] show ?thesis by blast
qed

lemma service_reach_inv:
  assumes "reach service_init (in_order n sv_queue (service_step N n out)) s" shows "service_inv N n s"
  using assms
proof (induction rule: reach.induct)
  case reach_init
  show ?case
    by (intro service_invI) (simp_all add: service_init_def pa_inv_init, simp_all add: pool_threads_init_def pool_init_def)
next
  case (reach_step s l t)
  from svu.popped_part [OF reach.reach_step [OF reach_step.hyps]] in_orderD [OF reach_step.hyps(2)] reach_step.IH
  show ?case by (blast intro: service_inv_step)
qed

section \<open>Each task has one worker\<close>

lemma pool_holders:
  assumes inv: "service_inv N n s"
  shows "count (mset (po_ran (sv_pool s))) k + (\<Sum>i<N. count (in_hand (po_pc (sv_pool s) i)) k) \<le> 1"
proof -
  note d = service_invD [OF inv]
  from d(1) have taken: "mset (po_taken (sv_pool s)) = mset (po_ran (sv_pool s)) + (\<Sum>i<N. in_hand (po_pc (sv_pool s) i))"
    by (simp add: pa_inv_def hands_def)
  have "count (mset (po_pushed (sv_pool s))) k \<le> 1" using d(3) unfolding distinct_count_atmost_1 by simp
  with mset_subset_eq_count [OF d(2), of k] have "count (mset (po_taken (sv_pool s))) k \<le> 1" by simp
  then show ?thesis by (simp add: taken count_sum)
qed

lemma pool_holder_unique:
  assumes inv: "service_inv N n s" and i: "i < N" "po_pc (sv_pool s) i = B_run k"
  shows "k \<notin> set (po_ran (sv_pool s))" and "j < N \<Longrightarrow> po_pc (sv_pool s) j = B_run k \<Longrightarrow> j = i"
proof -
  note h = pool_holders [OF inv, of k]
  let ?c = "\<lambda>i. count (in_hand (po_pc (sv_pool s) i)) k"
  have "?c i + (\<Sum>j \<in> {..<N} - {i}. ?c j) = (\<Sum>j<N. ?c j)"
    using i(1) by (subst sum.remove [of "{..<N}" i]) auto
  moreover have "?c i = 1" using i by simp
  ultimately have rest: "count (mset (po_ran (sv_pool s))) k = 0" "(\<Sum>j \<in> {..<N} - {i}. ?c j) = 0"
    using h by linarith+
  from rest(1) show "k \<notin> set (po_ran (sv_pool s))" by (simp add: count_eq_zero_iff)
  assume j: "j < N" "po_pc (sv_pool s) j = B_run k"
  show "j = i"
  proof (rule ccontr)
    assume "j \<noteq> i"
    with rest(2) j(1) have "?c j = 0" by auto
    with j(2) show False by simp
  qed
qed

section \<open>Properties\<close>

text \<open>
  C14: \<open>spawn_blocking\<close> end to end, with the single accesses of the queue of blocking tasks: however callers, blocking
  workers, handles and shutdown interleave, as long as no two callers are in the queue's push at once and no two workers
  in its pop, a block is never used after it was deleted and deleted at most once; while its call
  is under way exactly one worker is executing it; the pool runs each spawned task at most once;
  and once it has run, its call has returned, no worker holds it, and its block is gone exactly
  if the handle has let go.
\<close>

theorem blocking_service_safe:
  assumes "reach service_init (in_order n sv_queue (service_step N n out)) s" and "sv_blocks s k = Some b"
  shows "kb_fault b = None \<and> kb_deleted b = (if kb_block b = None then 1 else 0) \<and>
    (kb_call b \<noteq> C_running \<and> kb_call b \<noteq> C_returned \<longrightarrow> (\<exists>!i. i < N \<and> po_pc (sv_pool s) i = B_run k)) \<and>
    count (mset (po_ran (sv_pool s))) k \<le> 1 \<and>
    (k \<in> set (po_ran (sv_pool s)) \<longrightarrow> kb_call b = C_returned \<and> (\<forall>i < N. po_pc (sv_pool s) i \<noteq> B_run k) \<and>
       (kb_block b = None \<longleftrightarrow> kb_handle b \<noteq> Some (Some 0)))"
proof -
  note inv = service_reach_inv [OF assms(1)]
  note d = service_invD [OF inv] and one = pool_holder_unique [OF inv]
  from d(5) [OF assms(2)] have "kb_fault b = None \<and> kb_deleted b = (if kb_block b = None then 1 else 0) \<and>
      (kb_call b = C_returned \<longrightarrow> (kb_block b = None \<longleftrightarrow> kb_handle b \<noteq> Some (Some 0)))"
    by (auto simp: block_inv_def let_go_def split: option.splits call_pc.splits)
  moreover have "\<exists>!i. i < N \<and> po_pc (sv_pool s) i = B_run k"
    if "kb_call b \<noteq> C_running" "kb_call b \<noteq> C_returned"
  proof -
    from d(6) [OF assms(2) that(1)] d(7) [OF assms(2)] that(2)
    obtain i where "i < N" "po_pc (sv_pool s) i = B_run k" by blast
    with one show ?thesis by blast
  qed
  moreover from pool_holders [OF inv, of k] have "count (mset (po_ran (sv_pool s))) k \<le> 1" by linarith
  ultimately show ?thesis using d(7) [OF assms(2)] one(1) by blast
qed

theorem blocking_service_safe_witness:
  "\<exists>s b. reach service_init (in_order 3 sv_queue (service_step 2 3 (\<lambda>_. Inr (8 :: nat)))) s \<and> sv_blocks s 7 = Some b \<and>
     po_ran (sv_pool s) = [7] \<and> kb_call b = C_returned \<and> kb_block b = None"
proof -
  let ?ls = "[Sv_spawn 2 7] @ replicate 6 (Sv_pool (Q_access 2)) @ [Sv_pool (Q_pushed 2), Sv_pool (Q_pool P_count), Sv_pool (Q_pop 1)] @
    replicate 6 (Sv_pool (Q_access 1)) @ [Sv_pool (Q_popped 1), Sv_pool (Q_pool (W_sub 1)), Sv_call 1 K_section,
    Sv_handle 7 K_detach, Sv_call 1 K_schedule, Sv_call 1 K_delete, Sv_finish 1]"
  have "run_sat (in_order 3 sv_queue (service_step 2 3 (\<lambda>_. Inr (8 :: nat)))) ?ls service_init
      (\<lambda>s. po_ran (sv_pool s) = [7] \<and> (case sv_blocks s 7 of None \<Rightarrow> False | Some b \<Rightarrow> kb_handle b = Some None))"
    by code_simp
  then obtain s where r: "reach service_init (in_order 3 sv_queue (service_step 2 3 (\<lambda>_. Inr (8 :: nat)))) s"
    and s: "po_ran (sv_pool s) = [7]"
      "case sv_blocks s 7 of None \<Rightarrow> False | Some b \<Rightarrow> kb_handle b = Some None" by (rule run_satE) auto
  then obtain b where b: "sv_blocks s 7 = Some b" "kb_handle b = Some None" by (auto split: option.splits)
  from blocking_service_safe [OF r b(1)] b r s show ?thesis by auto
qed

end
