(* ===== verification/Block_On.thy ===== *)
theory Block_On imports Prelude Progress_Interface begin

text \<open>
  \<open>executor::block_on_impl\<close> (src/executor.cpp) access by access. Three parties share the
  local variables \<open>mut\<close>, \<open>cv\<close>, \<open>done\<close> and \<open>handle\<close> of the call: the thread that
  called it; the posted lambda, on the core worker that runs it; and the coroutine the
  lambda creates, which runs inside the lambda until it first suspends and afterwards on
  whichever core worker resumes it. The work guard of the call keeps asio's \<open>run\<close> from
  returning meanwhile and is not part of the state.
\<close>

section \<open>State\<close>

datatype caller_pc =
    Ca_post | Ca_tell | Ca_lock | Ca_test | Ca_tested | Ca_blocked
  | Ca_unlock | Ca_guard | Ca_scope | Ca_returned

datatype lambda_pc = La_unposted | La_posted | La_inside | La_assign | La_finished

datatype wrap_pc =
    Wr_none | Wr_awaits | Wr_suspended | Wr_resumed | Wr_lock | Wr_set | Wr_unlock | Wr_notify | Wr_final

datatype party = Caller | Wrapper

record block_call =
  bo_caller :: caller_pc
  bo_lambda :: lambda_pc
  bo_wrap :: wrap_pc
  bo_told :: bool              \<comment> \<open>\<open>core_work_pending_\<close> was set\<close>
  bo_mut :: "party option"     \<comment> \<open>the holder of \<open>mut\<close>\<close>
  bo_done :: bool
  bo_handle :: bool            \<comment> \<open>\<open>handle\<close> is not null\<close>
  bo_alive :: bool             \<comment> \<open>the local variables of the call exist\<close>
  bo_frame :: bool             \<comment> \<open>the coroutine's frame exists\<close>
  bo_outcome :: "bool option"  \<comment> \<open>history: did the awaited future return or throw\<close>
  bo_fault :: "ub option"

datatype call_label =
    C_post | C_tell | C_lock | C_test | C_block | C_spurious | C_unlock | C_guard | C_scope
  | L_start | L_assign
  | W_suspend | W_resume | W_outcome bool | W_lock | W_set | W_unlock | W_notify

definition block_call_init :: block_call where
  "block_call_init = \<lparr>bo_caller = Ca_post, bo_lambda = La_unposted, bo_wrap = Wr_none, bo_told = False,
     bo_mut = None, bo_done = False, bo_handle = False, bo_alive = True, bo_frame = False,
     bo_outcome = None, bo_fault = None\<rparr>"

section \<open>The coroutine\<close>

text \<open>Control goes back to the lambda when the coroutine suspends for the first time.\<close>

definition leave_lambda :: "block_call \<Rightarrow> block_call" where
  "leave_lambda s = (if bo_lambda s = La_inside then s\<lparr>bo_lambda := La_assign\<rparr> else s)"

text \<open>Every access to a local variable of the call, or to the frame that holds the references.\<close>

definition touching :: "(block_call \<Rightarrow> block_call) \<Rightarrow> block_call \<Rightarrow> block_call" where
  "touching f s = (if bo_alive s \<and> bo_frame s then f s else s\<lparr>bo_fault := Some Use_after_free\<rparr>)"

definition wrap_suspend :: "block_call \<Rightarrow> block_call" where
  "wrap_suspend s = leave_lambda (s\<lparr>bo_wrap := Wr_suspended\<rparr>)"

text \<open>\<open>await_resume\<close> returns, or rethrows; then the coroutine ends without setting \<open>done\<close>.\<close>

definition wrap_outcome :: "bool \<Rightarrow> block_call \<Rightarrow> block_call" where
  "wrap_outcome ok s =
     (let s1 = s\<lparr>bo_outcome := Some ok\<rparr>
      in if ok then s1\<lparr>bo_wrap := Wr_lock\<rparr> else leave_lambda (s1\<lparr>bo_wrap := Wr_final\<rparr>))"

definition wrap_set :: "block_call \<Rightarrow> block_call" where
  "wrap_set = touching (\<lambda>s. s\<lparr>bo_done := True, bo_wrap := Wr_unlock\<rparr>)"

definition wrap_notify :: "block_call \<Rightarrow> block_call" where
  "wrap_notify = touching (\<lambda>s. leave_lambda
     (s\<lparr>bo_caller := (if bo_caller s = Ca_blocked then Ca_lock else bo_caller s), bo_wrap := Wr_final\<rparr>))"

section \<open>The caller and the lambda\<close>

definition lambda_start :: "block_call \<Rightarrow> block_call" where
  "lambda_start s = s\<lparr>bo_lambda := La_inside, bo_wrap := Wr_awaits, bo_frame := True\<rparr>"

definition lambda_assign :: "block_call \<Rightarrow> block_call" where
  "lambda_assign s =
     (if bo_alive s then s\<lparr>bo_handle := True, bo_lambda := La_finished\<rparr>
      else s\<lparr>bo_fault := Some Use_after_free\<rparr>)"

definition caller_test :: "block_call \<Rightarrow> block_call" where
  "caller_test s = s\<lparr>bo_caller := (if bo_done s then Ca_unlock else Ca_tested)\<rparr>"

text \<open>
  The destructor of \<open>guard\<close>: destroys the coroutine if \<open>handle\<close> is set, which is undefined
  unless the coroutine is suspended.
\<close>

definition caller_guard :: "block_call \<Rightarrow> block_call" where
  "caller_guard s =
     (if \<not> bo_handle s then s\<lparr>bo_caller := Ca_scope\<rparr>
      else if bo_wrap s \<in> {Wr_suspended, Wr_final} then s\<lparr>bo_caller := Ca_scope, bo_frame := False\<rparr>
      else s\<lparr>bo_fault := Some Destroy_running\<rparr>)"

definition caller_scope :: "block_call \<Rightarrow> block_call" where
  "caller_scope s = s\<lparr>bo_alive := False, bo_caller := Ca_returned\<rparr>"

section \<open>The steps\<close>

definition enabled :: "call_label \<Rightarrow> block_call \<Rightarrow> bool" where
  "enabled l s \<longleftrightarrow> bo_fault s = None \<and> (case l of
       C_post \<Rightarrow> bo_caller s = Ca_post
     | C_tell \<Rightarrow> bo_caller s = Ca_tell
     | C_lock \<Rightarrow> bo_caller s = Ca_lock \<and> bo_mut s = None
     | C_test \<Rightarrow> bo_caller s = Ca_test
     | C_block \<Rightarrow> bo_caller s = Ca_tested
     | C_spurious \<Rightarrow> bo_caller s = Ca_blocked
     | C_unlock \<Rightarrow> bo_caller s = Ca_unlock
     | C_guard \<Rightarrow> bo_caller s = Ca_guard
     | C_scope \<Rightarrow> bo_caller s = Ca_scope
     | L_start \<Rightarrow> bo_lambda s = La_posted
     | L_assign \<Rightarrow> bo_lambda s = La_assign
     | W_suspend \<Rightarrow> bo_wrap s = Wr_awaits
     | W_resume \<Rightarrow> bo_wrap s = Wr_suspended
     | W_outcome ok \<Rightarrow> bo_wrap s = Wr_awaits \<or> bo_wrap s = Wr_resumed
     | W_lock \<Rightarrow> bo_wrap s = Wr_lock \<and> bo_mut s = None
     | W_set \<Rightarrow> bo_wrap s = Wr_set
     | W_unlock \<Rightarrow> bo_wrap s = Wr_unlock
     | W_notify \<Rightarrow> bo_wrap s = Wr_notify)"

fun call_effect :: "call_label \<Rightarrow> block_call \<Rightarrow> block_call" where
  "call_effect C_post s = s\<lparr>bo_lambda := La_posted, bo_caller := Ca_tell\<rparr>"
| "call_effect C_tell s = s\<lparr>bo_told := True, bo_caller := Ca_lock\<rparr>"
| "call_effect C_lock s = s\<lparr>bo_mut := Some Caller, bo_caller := Ca_test\<rparr>"
| "call_effect C_test s = caller_test s"
| "call_effect C_block s = s\<lparr>bo_mut := None, bo_caller := Ca_blocked\<rparr>"
| "call_effect C_spurious s = s\<lparr>bo_caller := Ca_lock\<rparr>"
| "call_effect C_unlock s = s\<lparr>bo_mut := None, bo_caller := Ca_guard\<rparr>"
| "call_effect C_guard s = caller_guard s"
| "call_effect C_scope s = caller_scope s"
| "call_effect L_start s = lambda_start s"
| "call_effect L_assign s = lambda_assign s"
| "call_effect W_suspend s = wrap_suspend s"
| "call_effect W_resume s = s\<lparr>bo_wrap := Wr_resumed\<rparr>"
| "call_effect (W_outcome ok) s = wrap_outcome ok s"
| "call_effect W_lock s = touching (\<lambda>s. s\<lparr>bo_mut := Some Wrapper, bo_wrap := Wr_set\<rparr>) s"
| "call_effect W_set s = wrap_set s"
| "call_effect W_unlock s = touching (\<lambda>s. s\<lparr>bo_mut := None, bo_wrap := Wr_notify\<rparr>) s"
| "call_effect W_notify s = wrap_notify s"

definition call_step :: "call_label \<Rightarrow> block_call \<Rightarrow> block_call option" where
  "call_step l s = (if enabled l s then Some (call_effect l s) else None)"

abbreviation call_reach :: "block_call \<Rightarrow> bool" where
  "call_reach \<equiv> reach block_call_init call_step"

section \<open>The invariant\<close>

definition past_wait :: "caller_pc \<Rightarrow> bool" where
  "past_wait p \<longleftrightarrow> p \<in> {Ca_unlock, Ca_guard, Ca_scope, Ca_returned}"

fun caller_holds :: "caller_pc \<Rightarrow> bool" where
  "caller_holds Ca_test = True"
| "caller_holds Ca_tested = True"
| "caller_holds Ca_unlock = True"
| "caller_holds _ = False"

fun wrap_holds :: "wrap_pc \<Rightarrow> bool" where
  "wrap_holds Wr_set = True"
| "wrap_holds Wr_unlock = True"
| "wrap_holds _ = False"

text \<open>What the coroutine's position says of \<open>done\<close>, of the outcome and of the lambda.\<close>

fun wrap_ok :: "wrap_pc \<Rightarrow> lambda_pc \<Rightarrow> bool \<Rightarrow> bool option \<Rightarrow> bool" where
  "wrap_ok Wr_none la d out \<longleftrightarrow> la \<in> {La_unposted, La_posted} \<and> \<not> d \<and> out = None"
| "wrap_ok Wr_awaits la d out \<longleftrightarrow> la = La_inside \<and> \<not> d \<and> out = None"
| "wrap_ok Wr_suspended la d out \<longleftrightarrow> la \<in> {La_assign, La_finished} \<and> \<not> d \<and> out = None"
| "wrap_ok Wr_resumed la d out \<longleftrightarrow> la \<in> {La_assign, La_finished} \<and> \<not> d \<and> out = None"
| "wrap_ok Wr_lock la d out \<longleftrightarrow> la \<in> {La_inside, La_assign, La_finished} \<and> \<not> d \<and> out = Some True"
| "wrap_ok Wr_set la d out \<longleftrightarrow> la \<in> {La_inside, La_assign, La_finished} \<and> \<not> d \<and> out = Some True"
| "wrap_ok Wr_unlock la d out \<longleftrightarrow> la \<in> {La_inside, La_assign, La_finished} \<and> d \<and> out = Some True"
| "wrap_ok Wr_notify la d out \<longleftrightarrow> la \<in> {La_inside, La_assign, La_finished} \<and> d \<and> out = Some True"
| "wrap_ok Wr_final la d out \<longleftrightarrow> la \<in> {La_assign, La_finished} \<and> out = Some d"

text \<open>What the caller's position says of the coroutine's, and whether the lambda has been posted.\<close>

fun caller_ok :: "caller_pc \<Rightarrow> wrap_pc \<Rightarrow> lambda_pc \<Rightarrow> bool \<Rightarrow> bool" where
  "caller_ok Ca_post w la d \<longleftrightarrow> la = La_unposted"
| "caller_ok Ca_tested w la d \<longleftrightarrow> la \<noteq> La_unposted \<and> \<not> d"
| "caller_ok Ca_blocked w la d \<longleftrightarrow> la \<noteq> La_unposted \<and> (d \<longrightarrow> w \<in> {Wr_unlock, Wr_notify})"
| "caller_ok Ca_unlock w la d \<longleftrightarrow> la \<noteq> La_unposted \<and> d \<and> w \<in> {Wr_notify, Wr_final}"
| "caller_ok Ca_guard w la d \<longleftrightarrow> la \<noteq> La_unposted \<and> d \<and> w \<in> {Wr_notify, Wr_final}"
| "caller_ok Ca_scope w la d \<longleftrightarrow> la \<noteq> La_unposted \<and> d \<and> w \<in> {Wr_notify, Wr_final}"
| "caller_ok Ca_returned w la d \<longleftrightarrow> la \<noteq> La_unposted \<and> d \<and> w \<in> {Wr_notify, Wr_final}"
| "caller_ok _ w la d \<longleftrightarrow> la \<noteq> La_unposted"

definition call_inv :: "block_call \<Rightarrow> bool" where
  "call_inv s \<longleftrightarrow>
     wrap_ok (bo_wrap s) (bo_lambda s) (bo_done s) (bo_outcome s) \<and>
     caller_ok (bo_caller s) (bo_wrap s) (bo_lambda s) (bo_done s) \<and>
     \<not> (caller_holds (bo_caller s) \<and> wrap_holds (bo_wrap s)) \<and>
     bo_mut s = (if caller_holds (bo_caller s) then Some Caller
                 else if wrap_holds (bo_wrap s) then Some Wrapper else None)"

text \<open>What exists, and the two ways to go wrong.\<close>

definition scope_inv :: "block_call \<Rightarrow> bool" where
  "scope_inv s \<longleftrightarrow>
     (bo_alive s \<longleftrightarrow> bo_caller s \<noteq> Ca_returned) \<and>
     (bo_handle s \<longleftrightarrow> bo_lambda s = La_finished) \<and>
     (bo_frame s \<or> bo_wrap s = Wr_none \<or> bo_wrap s = Wr_final \<and> bo_lambda s = La_finished) \<and>
     (bo_fault s = None \<or> past_wait (bo_caller s) \<and> (bo_wrap s = Wr_notify \<or> bo_lambda s = La_assign))"

lemma call_inv_init: "call_inv block_call_init \<and> scope_inv block_call_init"
  by (simp add: call_inv_def scope_inv_def block_call_init_def)

lemma wrap_ok_done:
  "wrap_ok w la True out \<Longrightarrow> \<not> wrap_holds w \<Longrightarrow> w \<in> {Wr_notify, Wr_final}"
  by (cases w) auto

lemma wrap_ok_posted: "wrap_ok w La_unposted d out \<Longrightarrow> wrap_ok w La_posted d out"
  by (cases w) auto

definition all_inv :: "block_call \<Rightarrow> bool" where
  "all_inv s \<longleftrightarrow> call_inv s \<and> scope_inv s"

lemma inv_C_post: "all_inv s \<Longrightarrow> enabled C_post s \<Longrightarrow> all_inv (call_effect C_post s)"
  by (auto simp: all_inv_def call_inv_def scope_inv_def enabled_def wrap_ok_posted)

lemma inv_C_tell: "all_inv s \<Longrightarrow> enabled C_tell s \<Longrightarrow> all_inv (call_effect C_tell s)"
  by (auto simp: all_inv_def call_inv_def scope_inv_def enabled_def)

lemma inv_C_lock: "all_inv s \<Longrightarrow> enabled C_lock s \<Longrightarrow> all_inv (call_effect C_lock s)"
  by (auto simp: all_inv_def call_inv_def scope_inv_def enabled_def split: if_splits)

lemma inv_C_test: "all_inv s \<Longrightarrow> enabled C_test s \<Longrightarrow> all_inv (call_effect C_test s)"
  using wrap_ok_done [of "bo_wrap s" "bo_lambda s" "bo_outcome s"]
  by (cases "bo_done s") (simp_all add: all_inv_def call_inv_def scope_inv_def enabled_def caller_test_def past_wait_def)

lemma inv_C_block: "all_inv s \<Longrightarrow> enabled C_block s \<Longrightarrow> all_inv (call_effect C_block s)"
  by (auto simp: all_inv_def call_inv_def scope_inv_def enabled_def past_wait_def)

lemma inv_C_spurious: "all_inv s \<Longrightarrow> enabled C_spurious s \<Longrightarrow> all_inv (call_effect C_spurious s)"
  by (auto simp: all_inv_def call_inv_def scope_inv_def enabled_def past_wait_def)

lemma inv_C_unlock: "all_inv s \<Longrightarrow> enabled C_unlock s \<Longrightarrow> all_inv (call_effect C_unlock s)"
  by (auto simp: all_inv_def call_inv_def scope_inv_def enabled_def past_wait_def)

lemma inv_C_guard: "all_inv s \<Longrightarrow> enabled C_guard s \<Longrightarrow> all_inv (call_effect C_guard s)"
  by (cases "bo_handle s"; cases "bo_wrap s = Wr_final")
    (auto simp: all_inv_def call_inv_def scope_inv_def enabled_def past_wait_def caller_guard_def)

lemma inv_C_scope: "all_inv s \<Longrightarrow> enabled C_scope s \<Longrightarrow> all_inv (call_effect C_scope s)"
  by (auto simp: all_inv_def call_inv_def scope_inv_def enabled_def past_wait_def caller_scope_def)


text \<open>A coroutine that has not set \<open>done\<close> may move without the caller noticing.\<close>

lemma caller_ok_not_done: "caller_ok c w la False \<Longrightarrow> la \<noteq> La_unposted \<Longrightarrow> la' \<noteq> La_unposted \<Longrightarrow> caller_ok c w' la' False"
  by (cases c) auto

lemma inv_L_start: "all_inv s \<Longrightarrow> enabled L_start s \<Longrightarrow> all_inv (call_effect L_start s)"
  by (cases "bo_wrap s")
    (auto simp: all_inv_def call_inv_def scope_inv_def enabled_def lambda_start_def
      elim: caller_ok_not_done)

lemma inv_L_assign: "all_inv s \<Longrightarrow> enabled L_assign s \<Longrightarrow> all_inv (call_effect L_assign s)"
  by (cases "bo_caller s"; cases "bo_wrap s")
    (auto simp: all_inv_def call_inv_def scope_inv_def enabled_def lambda_assign_def past_wait_def)

lemma inv_W_suspend: "all_inv s \<Longrightarrow> enabled W_suspend s \<Longrightarrow> all_inv (call_effect W_suspend s)"
  by (auto simp: all_inv_def call_inv_def scope_inv_def enabled_def wrap_suspend_def leave_lambda_def
      elim: caller_ok_not_done)

lemma inv_W_resume: "all_inv s \<Longrightarrow> enabled W_resume s \<Longrightarrow> all_inv (call_effect W_resume s)"
  by (auto simp: all_inv_def call_inv_def scope_inv_def enabled_def elim: caller_ok_not_done)

lemma inv_W_outcome: "all_inv s \<Longrightarrow> enabled (W_outcome ok) s \<Longrightarrow> all_inv (call_effect (W_outcome ok) s)"
  by (cases ok; cases "bo_wrap s")
    (auto simp: all_inv_def call_inv_def scope_inv_def enabled_def wrap_outcome_def leave_lambda_def
      elim: caller_ok_not_done)

lemma inv_W_lock: "all_inv s \<Longrightarrow> enabled W_lock s \<Longrightarrow> all_inv (call_effect W_lock s)"
  by (cases "bo_caller s")
    (auto simp: all_inv_def call_inv_def scope_inv_def enabled_def touching_def past_wait_def)

lemma inv_W_set: "all_inv s \<Longrightarrow> enabled W_set s \<Longrightarrow> all_inv (call_effect W_set s)"
  by (cases "bo_caller s")
    (auto simp: all_inv_def call_inv_def scope_inv_def enabled_def wrap_set_def touching_def past_wait_def)

lemma inv_W_unlock: "all_inv s \<Longrightarrow> enabled W_unlock s \<Longrightarrow> all_inv (call_effect W_unlock s)"
  by (cases "bo_caller s")
    (auto simp: all_inv_def call_inv_def scope_inv_def enabled_def touching_def past_wait_def)

lemma inv_W_notify: "all_inv s \<Longrightarrow> enabled W_notify s \<Longrightarrow> all_inv (call_effect W_notify s)"
  by (cases "bo_caller s")
    (auto simp: all_inv_def call_inv_def scope_inv_def enabled_def wrap_notify_def touching_def
      leave_lambda_def past_wait_def)

lemmas inv_effects = inv_C_post inv_C_tell inv_C_lock inv_C_test inv_C_block inv_C_spurious
  inv_C_unlock inv_C_guard inv_C_scope inv_L_start inv_L_assign inv_W_suspend inv_W_resume
  inv_W_outcome inv_W_lock inv_W_set inv_W_unlock inv_W_notify

lemma all_inv_step: "all_inv s \<Longrightarrow> call_step l s = Some t \<Longrightarrow> all_inv t"
  by (cases l) (auto simp: call_step_def inv_effects simp del: call_effect.simps split: if_splits)

lemma call_reach_inv: "call_reach s \<Longrightarrow> all_inv s"
  by (erule reach_invariant) (use all_inv_step in \<open>blast | simp add: all_inv_def call_inv_init\<close>)+

section \<open>Once the coroutine has finished\<close>

text \<open>The caller's own steps; a spurious wake-up is not one it can count on.\<close>

definition caller_labels :: "call_label set" where
  "caller_labels = {C_post, C_tell, C_lock, C_test, C_block, C_unlock, C_guard, C_scope}"

definition call_finishing :: "block_call \<Rightarrow> bool" where
  "call_finishing s \<longleftrightarrow> all_inv s \<and> bo_fault s = None \<and> bo_wrap s = Wr_final \<and> bo_done s"

fun caller_rank :: "caller_pc \<Rightarrow> nat" where
  "caller_rank Ca_post = 9"
| "caller_rank Ca_tell = 8"
| "caller_rank Ca_tested = 7"
| "caller_rank Ca_blocked = 6"
| "caller_rank Ca_lock = 5"
| "caller_rank Ca_test = 4"
| "caller_rank Ca_unlock = 3"
| "caller_rank Ca_guard = 2"
| "caller_rank Ca_scope = 1"
| "caller_rank Ca_returned = 0"

lemma caller_effect_keeps:
  assumes "l \<in> caller_labels"
  shows "bo_wrap (call_effect l s) = bo_wrap s" and "bo_done (call_effect l s) = bo_done s"
    and "bo_wrap s = Wr_final \<Longrightarrow> bo_fault (call_effect l s) = bo_fault s"
  using assms unfolding caller_labels_def
  by (auto simp: caller_test_def caller_guard_def caller_scope_def split: if_splits)

lemma caller_effect_ranks:
  assumes "enabled l s" and "l \<in> caller_labels" and "bo_wrap s = Wr_final" and "bo_done s"
  shows "caller_rank (bo_caller (call_effect l s)) < caller_rank (bo_caller s)"
  using assms unfolding caller_labels_def enabled_def
  by (auto simp: caller_test_def caller_guard_def caller_scope_def)

lemma call_finishing_step:
  assumes "call_finishing s" and "l \<in> caller_labels" and "call_step l s = Some t"
  shows "call_finishing t \<and> caller_rank (bo_caller t) < caller_rank (bo_caller s)"
proof -
  from assms(3) have l: "enabled l s" "t = call_effect l s" by (auto simp: call_step_def split: if_splits)
  from assms(1) all_inv_step [OF _ assms(3)] have "all_inv t" by (simp add: call_finishing_def)
  with assms(1) l caller_effect_keeps [OF assms(2)] caller_effect_ranks [OF l(1) assms(2)] show ?thesis
    by (simp add: call_finishing_def)
qed

lemma call_finishing_enabled:
  assumes "call_finishing s" and "bo_caller s \<noteq> Ca_returned"
  shows "\<exists>l \<in> caller_labels. call_step l s \<noteq> None"
  using assms by (cases "bo_caller s")
    (auto simp: call_finishing_def caller_labels_def call_step_def enabled_def all_inv_def call_inv_def)

interpretation bocall: winding_down call_step caller_labels call_finishing
    "\<lambda>s. caller_rank (bo_caller s)" "\<lambda>s. bo_caller s = Ca_returned"
  by unfold_locales (use call_finishing_step call_finishing_enabled in blast)+

section \<open>What can still go wrong\<close>

definition can_fail :: "block_call \<Rightarrow> bool" where
  "can_fail s \<longleftrightarrow> (\<exists>ls t. run call_step ls s = Some t \<and> bo_fault t \<noteq> None)"

lemma can_fail_now: "bo_fault s \<noteq> None \<Longrightarrow> can_fail s"
  unfolding can_fail_def by (rule exI [of _ "[]"]) simp

lemma can_fail_step: "call_step l s = Some t \<Longrightarrow> can_fail t \<Longrightarrow> can_fail s"
  unfolding can_fail_def by (metis (no_types, lifting) option.simps(5) run.simps(2))

definition unfinished :: "block_call \<Rightarrow> bool" where
  "unfinished s \<longleftrightarrow> bo_wrap s \<noteq> Wr_final \<or> bo_lambda s \<noteq> La_finished"

lemma past_wait_unfinished:
  assumes "all_inv s" and "past_wait (bo_caller s)" and "unfinished s"
  shows "bo_wrap s = Wr_notify \<or> bo_wrap s = Wr_final \<and> bo_lambda s = La_assign"
  using assms by (cases "bo_caller s") (auto simp: all_inv_def call_inv_def past_wait_def unfinished_def)

lemma returned_can_fail:
  assumes "all_inv s" and "bo_fault s = None" and "bo_caller s = Ca_returned" and "unfinished s"
  shows "can_fail s"
proof -
  from assms have dead: "\<not> bo_alive s" by (simp add: all_inv_def scope_inv_def)
  from past_wait_unfinished [OF assms(1) _ assms(4)] assms(3)
  consider "bo_wrap s = Wr_notify" | "bo_lambda s = La_assign" by (auto simp: past_wait_def)
  then show ?thesis
  proof cases
    case 1
    with assms(2) dead show ?thesis
      by (intro can_fail_step [where l = W_notify, OF _ can_fail_now])
        (auto simp: call_step_def enabled_def wrap_notify_def touching_def)
  next
    case 2
    with assms(2) dead show ?thesis
      by (intro can_fail_step [where l = L_assign, OF _ can_fail_now])
        (auto simp: call_step_def enabled_def lambda_assign_def)
  qed
qed


lemma call_step_by: "enabled l s \<Longrightarrow> call_step l s = Some (call_effect l s)"
  by (simp add: call_step_def)

lemma past_wait_can_fail:
  assumes "all_inv s" and "bo_fault s = None" and "past_wait (bo_caller s)" and "unfinished s"
  shows "can_fail s"
proof -
  have scope: "can_fail u" if u: "all_inv u" "bo_fault u = None" "bo_caller u = Ca_scope" "unfinished u" for u
  proof -
    from u have e: "enabled C_scope u" by (simp add: enabled_def)
    from u all_inv_step [OF _ call_step_by [OF e]] have "can_fail (call_effect C_scope u)"
      by (intro returned_can_fail) (simp_all add: caller_scope_def unfinished_def)
    then show ?thesis by (rule can_fail_step [OF call_step_by [OF e]])
  qed
  have guard: "can_fail u" if u: "all_inv u" "bo_fault u = None" "bo_caller u = Ca_guard" "unfinished u" for u
  proof -
    from u have e: "enabled C_guard u" by (simp add: enabled_def)
    have "can_fail (call_effect C_guard u)"
    proof (cases "bo_fault (call_effect C_guard u)")
      case None
      with u all_inv_step [OF _ call_step_by [OF e]] show ?thesis
        by (intro scope) (auto simp: caller_guard_def unfinished_def split: if_splits)
    qed (simp add: can_fail_now)
    then show ?thesis by (rule can_fail_step [OF call_step_by [OF e]])
  qed
  have unlock: "can_fail u" if u: "all_inv u" "bo_fault u = None" "bo_caller u = Ca_unlock" "unfinished u" for u
  proof -
    from u have e: "enabled C_unlock u" by (simp add: enabled_def)
    from u all_inv_step [OF _ call_step_by [OF e]] have "can_fail (call_effect C_unlock u)"
      by (intro guard) (simp_all add: unfinished_def)
    then show ?thesis by (rule can_fail_step [OF call_step_by [OF e]])
  qed
  from assms scope guard unlock returned_can_fail show ?thesis by (auto simp: past_wait_def)
qed

lemma settled_cannot_fail:
  assumes "all_inv s" and "bo_fault s = None" and "past_wait (bo_caller s)" and "\<not> unfinished s"
  shows "\<not> can_fail s"
proof -
  have "bo_fault t = None" if "run call_step ls s = Some t" for ls t
  proof -
    from that have "all_inv t \<and> bo_fault t = None \<and> past_wait (bo_caller t) \<and> \<not> unfinished t"
    proof (rule run_invariant)
      fix l u v assume u: "all_inv u \<and> bo_fault u = None \<and> past_wait (bo_caller u) \<and> \<not> unfinished u"
        and step: "call_step l u = Some v"
      from step have l: "enabled l u" "v = call_effect l u" by (auto simp: call_step_def split: if_splits)
      from u have w: "bo_wrap u = Wr_final" "bo_lambda u = La_finished" by (simp_all add: unfinished_def)
      from l(1) u w have "l = C_unlock \<or> l = C_guard \<or> l = C_scope"
        by (cases l) (auto simp: enabled_def past_wait_def)
      with u w l all_inv_step [OF _ step] show "all_inv v \<and> bo_fault v = None \<and> past_wait (bo_caller v) \<and> \<not> unfinished v"
        by (auto simp: unfinished_def past_wait_def caller_guard_def caller_scope_def split: if_splits)
    qed (use assms in simp)
    then show ?thesis by simp
  qed
  then show ?thesis by (auto simp: can_fail_def)
qed

section \<open>Properties\<close>

text \<open>
  C19: the thread that called \<open>block_on\<close> leaves its wait only after the function's future has
  returned normally: never before it finished, and never when it ended with an exception.
\<close>

theorem block_on_waits:
  assumes "call_reach s" and "past_wait (bo_caller s)"
  shows "bo_outcome s = Some True \<and> bo_done s"
  using call_reach_inv [OF assms(1)] assms(2)
  by (cases "bo_caller s") (auto simp: all_inv_def call_inv_def past_wait_def)

theorem block_on_waits_witness:
  "\<exists>s. call_reach s \<and> past_wait (bo_caller s) \<and> bo_outcome s = Some True \<and> bo_done s \<and> bo_fault s = None"
proof -
  have "run_sat call_step [C_post, C_tell, C_lock, C_test, C_block, L_start, W_suspend, L_assign, W_resume,
      W_outcome True, W_lock, W_set, W_unlock, W_notify, C_lock, C_test, C_unlock, C_guard, C_scope]
      block_call_init (\<lambda>s. past_wait (bo_caller s) \<and> bo_fault s = None)" by code_simp
  then obtain s where "call_reach s" "past_wait (bo_caller s)" "bo_fault s = None" by (rule run_satE) auto
  with block_on_waits show ?thesis by blast
qed

text \<open>
  C18: no wake-up is lost: once the future has returned and the coroutine has finished, the
  calling thread returns after at most nine more steps of its own, without a spurious wake-up of
  its condition variable and without undefined behaviour.
\<close>

theorem block_on_returns:
  assumes "call_reach s" and "bo_fault s = None" and "bo_wrap s = Wr_final" and "bo_outcome s = Some True"
  shows "(\<exists>ls t. set ls \<subseteq> caller_labels \<and> run call_step ls s = Some t \<and> bo_caller t = Ca_returned \<and>
            bo_fault t = None) \<and>
         (\<forall>ls t. set ls \<subseteq> caller_labels \<and> run call_step ls s = Some t \<longrightarrow> length ls \<le> 9)"
proof -
  from call_reach_inv [OF assms(1)] assms have f: "call_finishing s"
    by (auto simp: call_finishing_def all_inv_def call_inv_def)
  obtain ls t where ls: "set ls \<subseteq> caller_labels" "run call_step ls s = Some t" "bo_caller t = Ca_returned"
    using bocall.own_run_finishes [OF f] by blast
  moreover have "bo_fault t = None"
    using bocall.own_run_dying [OF ls(2) f ls(1)] by (simp add: call_finishing_def)
  moreover have "caller_rank (bo_caller s) \<le> 9" by (cases "bo_caller s") simp_all
  ultimately show ?thesis using bocall.own_run_bounded [OF _ f] by fastforce
qed

theorem block_on_returns_witness:
  "\<exists>s ls t. call_reach s \<and> bo_wrap s = Wr_final \<and> bo_caller s = Ca_lock \<and>
     run call_step ls s = Some t \<and> bo_caller t = Ca_returned \<and> bo_fault t = None"
proof -
  have "run_sat call_step [C_post, C_tell, C_lock, C_test, C_block, L_start, W_suspend, L_assign, W_resume,
      W_outcome True, W_lock, W_set, W_unlock, W_notify]
      block_call_init (\<lambda>s. bo_fault s = None \<and> bo_wrap s = Wr_final \<and> bo_outcome s = Some True \<and> bo_caller s = Ca_lock)"
    by code_simp
  then obtain s where "call_reach s" "bo_fault s = None" "bo_wrap s = Wr_final" "bo_outcome s = Some True"
    "bo_caller s = Ca_lock" by (rule run_satE) auto
  with block_on_returns [of s] show ?thesis by blast
qed

text \<open>
  \<open>block_on\<close> may return too early. The coroutine sets \<open>done\<close> before it notifies the
  condition variable, and the lambda stores \<open>handle\<close> after the coroutine gave control back; a
  caller that sees \<open>done\<close> does not wait for either. From a state in which the caller has left
  its wait, undefined behaviour (destroying a running coroutine, or a use of the call's local
  variables after their end) can be reached exactly when the coroutine or the lambda has not
  finished yet.
\<close>

theorem block_on_returns_too_early:
  assumes "call_reach s" and "bo_fault s = None" and "past_wait (bo_caller s)"
  shows "(\<exists>ls t. run call_step ls s = Some t \<and> bo_fault t \<noteq> None) \<longleftrightarrow>
         bo_wrap s \<noteq> Wr_final \<or> bo_lambda s \<noteq> La_finished"
  using past_wait_can_fail [OF call_reach_inv [OF assms(1)] assms(2,3)]
    settled_cannot_fail [OF call_reach_inv [OF assms(1)] assms(2,3)]
  unfolding can_fail_def unfinished_def by blast

theorem block_on_returns_too_early_witness:
  "\<exists>s t ls. call_reach s \<and> bo_fault s = None \<and> past_wait (bo_caller s) \<and> bo_wrap s = Wr_notify \<and>
     run call_step ls s = Some t \<and> bo_fault t \<noteq> None"
proof -
  have "run_sat call_step [C_post, C_tell, L_start, W_outcome True, W_lock, W_set, W_unlock, C_lock, C_test]
      block_call_init (\<lambda>s. bo_fault s = None \<and> past_wait (bo_caller s) \<and> bo_wrap s = Wr_notify)" by code_simp
  then obtain s where "call_reach s" "bo_fault s = None" "past_wait (bo_caller s)" "bo_wrap s = Wr_notify"
    by (rule run_satE) auto
  with block_on_returns_too_early [of s] show ?thesis by (metis wrap_pc.distinct(71))
qed

end
