(* ===== verification/Core_Workers.thy ===== *)
theory Core_Workers imports Executor begin

text \<open>
  The core workers (\<open>core_work\<close> of src/executor.cpp) with the flags, the mutex and the condition
  variable they share with the callers of \<open>block_on\<close> and with the destructor; and what a call of
  \<open>block_on\<close> comes to: what it delivers and what a second call does.
\<close>

section \<open>The core workers\<close>

text \<open>
  Where a worker is in \<open>core_work\<close>. \<open>K_tested\<close>: it has found the wait condition false and holds
  the mutex until it blocks. \<open>K_running\<close>: it is in \<open>context_.run()\<close>.
\<close>

datatype core_pc = K_lock | K_test | K_tested | K_blocked | K_running | K_exited

record core_pool =
  cp_pending :: bool        \<comment> \<open>\<open>core_work_pending_\<close>\<close>
  cp_done :: bool           \<comment> \<open>\<open>core_done_\<close>\<close>
  cp_mut :: "nat option"    \<comment> \<open>\<open>core_mut_\<close>: the worker holding it\<close>
  cp_pc :: "nat \<Rightarrow> core_pc"
  cp_unnotified :: nat      \<comment> \<open>callers of \<open>block_on\<close> that have set the flag and not yet notified\<close>
  cp_calls :: nat           \<comment> \<open>history: calls of \<open>block_on\<close>\<close>
  cp_entered :: nat         \<comment> \<open>history: times a worker entered \<open>context_.run()\<close>\<close>

datatype core_label =
    C_block_on | C_notify "nat option" | Cw_lock nat | Cw_test nat | Cw_block nat | Cw_spurious nat
  | Cw_return nat | D_core_done | D_core_notify_all

definition core_pool_init :: core_pool where
  "core_pool_init = \<lparr>cp_pending = False, cp_done = False, cp_mut = None, cp_pc = (\<lambda>_. K_lock),
     cp_unnotified = 0, cp_calls = 0, cp_entered = 0\<rparr>"

text \<open>\<open>block_on_impl\<close> sets the flag in a critical section of its own and notifies after it.\<close>

definition block_on_pending :: "core_pool \<Rightarrow> core_pool" where
  "block_on_pending s =
     s\<lparr>cp_pending := True, cp_unnotified := Suc (cp_unnotified s), cp_calls := Suc (cp_calls s)\<rparr>"

definition block_on_notify :: "nat option \<Rightarrow> core_pool \<Rightarrow> core_pool" where
  "block_on_notify w s =
     s\<lparr>cp_unnotified := cp_unnotified s - 1, cp_pc := wake K_blocked K_lock (set_option w) (cp_pc s)\<rparr>"

text \<open>
  The wait condition and what follows it in the critical section: with \<open>core_done_\<close> the worker
  leaves, with work pending it takes the flag and runs the context, else it blocks.
\<close>

definition core_test :: "nat \<Rightarrow> core_pool \<Rightarrow> core_pool" where
  "core_test i s =
     (if cp_pending s \<or> cp_done s
      then if cp_done s then s\<lparr>cp_mut := None, cp_pc := (cp_pc s)(i := K_exited)\<rparr>
           else s\<lparr>cp_mut := None, cp_pending := False, cp_pc := (cp_pc s)(i := K_running),
                  cp_entered := Suc (cp_entered s)\<rparr>
      else s\<lparr>cp_pc := (cp_pc s)(i := K_tested)\<rparr>)"

text \<open>The destructor: set the flag under the mutex, wake all workers.\<close>

definition core_shutdown :: "core_pool \<Rightarrow> core_pool" where
  "core_shutdown s = s\<lparr>cp_done := True\<rparr>"

definition core_notify_all :: "nat \<Rightarrow> core_pool \<Rightarrow> core_pool" where
  "core_notify_all N s = s\<lparr>cp_pc := wake K_blocked K_lock {..<N} (cp_pc s)\<rparr>"

fun core_step :: "nat \<Rightarrow> core_label \<Rightarrow> core_pool \<Rightarrow> core_pool option" where
  "core_step N C_block_on s = (if cp_mut s = None then Some (block_on_pending s) else None)"
| "core_step N (C_notify w) s =
     (if cp_unnotified s > 0 \<and> may_notify K_blocked N (cp_pc s) w
      then Some (block_on_notify w s) else None)"
| "core_step N (Cw_lock i) s =
     (if i < N \<and> cp_pc s i = K_lock \<and> cp_mut s = None
      then Some (s\<lparr>cp_mut := Some i, cp_pc := (cp_pc s)(i := K_test)\<rparr>) else None)"
| "core_step N (Cw_test i) s =
     (if i < N \<and> cp_pc s i = K_test then Some (core_test i s) else None)"
| "core_step N (Cw_block i) s =
     (if i < N \<and> cp_pc s i = K_tested
      then Some (s\<lparr>cp_mut := None, cp_pc := (cp_pc s)(i := K_blocked)\<rparr>) else None)"
| "core_step N (Cw_spurious i) s =
     (if i < N \<and> cp_pc s i = K_blocked then Some (s\<lparr>cp_pc := (cp_pc s)(i := K_lock)\<rparr>) else None)"
| "core_step N (Cw_return i) s =
     (if i < N \<and> cp_pc s i = K_running then Some (s\<lparr>cp_pc := (cp_pc s)(i := K_lock)\<rparr>) else None)"
| "core_step N D_core_done s = (if cp_mut s = None then Some (core_shutdown s) else None)"
| "core_step N D_core_notify_all s = (if cp_done s then Some (core_notify_all N s) else None)"

abbreviation core_reach :: "nat \<Rightarrow> core_pool \<Rightarrow> bool" where
  "core_reach N \<equiv> reach core_pool_init (core_step N)"

section \<open>The invariants\<close>

text \<open>How often the context is run.\<close>

definition core_inv :: "core_pool \<Rightarrow> bool" where
  "core_inv s \<longleftrightarrow>
     finite {i. cp_pc s i = K_running} \<and> card {i. cp_pc s i = K_running} \<le> cp_entered s \<and>
     cp_entered s + (if cp_pending s then 1 else 0) \<le> cp_calls s"

lemma core_inv_move:
  assumes inv: "core_inv s" and "x \<noteq> K_running" and pc: "cp_pc t = (cp_pc s)(i := x)"
    and rest: "cp_entered t = cp_entered s" "cp_pending t = cp_pending s" "cp_calls t = cp_calls s"
  shows "core_inv t"
proof -
  have sub: "{j. cp_pc t j = K_running} \<subseteq> {j. cp_pc s j = K_running}" using assms(2) by (auto simp: pc)
  from inv have fin: "finite {j. cp_pc s j = K_running}" by (simp add: core_inv_def)
  from card_mono [OF fin sub] finite_subset [OF sub fin] inv show ?thesis
    by (simp add: core_inv_def rest)
qed

lemma core_inv_unblock:
  assumes "core_inv s" and "cp_pc t = wake K_blocked K_lock ws (cp_pc s)"
    and "cp_entered t = cp_entered s" "cp_pending t = cp_pending s" "cp_calls t = cp_calls s"
  shows "core_inv t"
proof -
  have "{j. cp_pc t j = K_running} = {j. cp_pc s j = K_running}" by (auto simp: assms(2) wake_def)
  with assms show ?thesis by (simp add: core_inv_def)
qed

lemma core_inv_test:
  assumes inv: "core_inv s" and pc: "cp_pc s i = K_test"
  shows "core_inv (core_test i s)"
proof (cases "cp_pending s \<and> \<not> cp_done s")
  case True
  let ?R = "{j. cp_pc s j = K_running}"
  have "{j. cp_pc (core_test i s) j = K_running} = insert i ?R" using True by (auto simp: core_test_def)
  moreover have "card (insert i ?R) = Suc (card ?R)"
    using inv pc by (intro card_insert_disjoint) (auto simp: core_inv_def)
  ultimately show ?thesis using inv True by (simp add: core_inv_def core_test_def)
next
  case False
  then show ?thesis
    by (intro core_inv_move [OF inv, where i = i and x = "if cp_done s then K_exited else K_tested"])
      (auto simp: core_test_def)
qed

lemma core_inv_step:
  assumes inv: "core_inv s" and step: "core_step N l s = Some t"
  shows "core_inv t"
proof (cases l)
  case (Cw_lock i)
  with step show ?thesis by (auto intro: core_inv_move [OF inv, where i = i and x = K_test] split: if_splits)
next
  case (Cw_test i)
  with step core_inv_test [OF inv] show ?thesis by (auto split: if_splits)
next
  case (Cw_block i)
  with step show ?thesis by (auto intro: core_inv_move [OF inv, where i = i and x = K_blocked] split: if_splits)
next
  case (Cw_spurious i)
  with step show ?thesis by (auto intro: core_inv_move [OF inv, where i = i and x = K_lock] split: if_splits)
next
  case (Cw_return i)
  with step show ?thesis by (auto intro: core_inv_move [OF inv, where i = i and x = K_lock] split: if_splits)
next
  case (C_notify w)
  with step show ?thesis
    by (intro core_inv_unblock [OF inv, where ws = "set_option w"]) (auto simp: block_on_notify_def split: if_splits)
next
  case D_core_notify_all
  with step show ?thesis
    by (intro core_inv_unblock [OF inv, where ws = "{..<N}"]) (auto simp: core_notify_all_def split: if_splits)
next
  case C_block_on
  with step inv show ?thesis by (auto simp: core_inv_def block_on_pending_def split: if_splits)
next
  case D_core_done
  with step inv show ?thesis by (auto simp: core_inv_def core_shutdown_def split: if_splits)
qed

lemma core_reach_inv: "core_reach N s \<Longrightarrow> core_inv s"
  by (erule reach_invariant) (simp add: core_inv_def core_pool_init_def, rule core_inv_step)

text \<open>Who holds the mutex; a worker that goes to block has seen flags that cannot change until it does.\<close>

definition core_holds :: "core_pc \<Rightarrow> bool" where
  "core_holds p \<longleftrightarrow> p = K_test \<or> p = K_tested"

definition core_mutex :: "nat \<Rightarrow> core_pool \<Rightarrow> bool" where
  "core_mutex N s \<longleftrightarrow> held_by N core_holds (cp_mut s) (cp_pc s) \<and>
     ((cp_pending s \<or> cp_done s) \<longrightarrow> (\<forall>i < N. cp_pc s i \<noteq> K_tested))"

text \<open>Pending work has somebody who will see it.\<close>

definition core_awake :: "nat \<Rightarrow> core_pool \<Rightarrow> bool" where
  "core_awake N s \<longleftrightarrow>
     (cp_pending s \<and> \<not> cp_done s \<and> cp_unnotified s = 0 \<longrightarrow>
        (\<exists>i < N. cp_pc s i = K_lock \<or> cp_pc s i = K_test) \<or> (\<forall>i < N. cp_pc s i \<noteq> K_blocked))"

lemma core_mutex_free:
  "core_mutex N s \<Longrightarrow> cp_mut s = None \<Longrightarrow> i < N \<Longrightarrow> cp_pc s i \<noteq> K_tested"
  using held_NoneD [of N core_holds "cp_pc s" i] by (auto simp: core_mutex_def core_holds_def)

lemma core_mutex_move:
  assumes "core_mutex N s" and "i < N"
  shows "cp_pc s i = K_lock \<Longrightarrow> cp_mut s = None \<Longrightarrow> core_mutex N (s\<lparr>cp_mut := Some i, cp_pc := (cp_pc s)(i := K_test)\<rparr>)"
    and "core_holds (cp_pc s i) \<Longrightarrow> \<not> core_holds x \<Longrightarrow> core_mutex N (s\<lparr>cp_mut := None, cp_pc := (cp_pc s)(i := x)\<rparr>)"
    and "\<not> core_holds (cp_pc s i) \<Longrightarrow> \<not> core_holds x \<Longrightarrow> core_mutex N (s\<lparr>cp_pc := (cp_pc s)(i := x)\<rparr>)"
  using assms held_take [of N core_holds "cp_pc s" i K_test] held_drop [of N core_holds "cp_mut s" "cp_pc s" i x]
    held_stay [of N core_holds "cp_mut s" "cp_pc s" x i]
  by (auto simp: core_mutex_def core_holds_def)

lemma core_mutex_test:
  assumes inv: "core_mutex N s" and i: "i < N" "cp_pc s i = K_test"
  shows "core_mutex N (core_test i s)"
proof (cases "cp_pending s \<or> cp_done s")
  case True
  with inv i held_drop [of N core_holds "cp_mut s" "cp_pc s" i K_exited]
    held_drop [of N core_holds "cp_mut s" "cp_pc s" i K_running]
  show ?thesis by (auto simp: core_mutex_def core_test_def core_holds_def)
next
  case False
  with inv i held_stay [of N core_holds "cp_mut s" "cp_pc s" K_tested i]
  show ?thesis by (auto simp: core_mutex_def core_test_def core_holds_def)
qed

lemma core_mutex_step:
  assumes inv: "core_mutex N s" and step: "core_step N l s = Some t"
  shows "core_mutex N t"
proof (cases l)
  case (C_notify w)
  with step have "t = block_on_notify w s" by (simp split: if_splits)
  with inv held_wake [of N core_holds "cp_mut s" "cp_pc s" K_lock K_blocked "set_option w"] show ?thesis
    by (auto simp: core_mutex_def block_on_notify_def core_holds_def wake_def)
next
  case D_core_notify_all
  with step have "t = core_notify_all N s" by (simp split: if_splits)
  with inv held_wake [of N core_holds "cp_mut s" "cp_pc s" K_lock K_blocked "{..<N}"] show ?thesis
    by (auto simp: core_mutex_def core_notify_all_def core_holds_def wake_def)
next
  case C_block_on
  with step inv core_mutex_free [OF inv] show ?thesis
    by (auto simp: core_mutex_def block_on_pending_def split: if_splits)
next
  case D_core_done
  with step inv core_mutex_free [OF inv] show ?thesis
    by (auto simp: core_mutex_def core_shutdown_def split: if_splits)
next
  case (Cw_test i)
  with step core_mutex_test [OF inv] show ?thesis by (auto split: if_splits)
qed (use step core_mutex_move [OF inv] in \<open>auto simp: core_holds_def split: if_splits\<close>)


lemma core_awake_step:
  assumes inv: "core_awake N s" and mut: "core_mutex N s" and step: "core_step N l s = Some t"
  shows "core_awake N t"
proof (cases l)
  case (C_notify w)
  with step have t: "t = block_on_notify w s" and w: "may_notify K_blocked N (cp_pc s) w"
    by (auto split: if_splits)
  from may_notify_cases [OF w] show ?thesis
    unfolding t core_awake_def block_on_notify_def by (auto simp: wake_def)
next
  case (Cw_test i)
  with step have "t = core_test i s" by (simp split: if_splits)
  then show ?thesis by (auto simp: core_awake_def core_test_def)
next
  case (Cw_block i)
  with step mut have "\<not> cp_pending t" by (auto simp: core_mutex_def split: if_splits)
  then show ?thesis by (simp add: core_awake_def)
next
  case (Cw_lock i)
  with step have "i < N" "cp_pc t i = K_test" by (auto split: if_splits)
  then show ?thesis by (auto simp: core_awake_def)
next
  case (Cw_spurious i)
  with step have "i < N" "cp_pc t i = K_lock" by (auto split: if_splits)
  then show ?thesis by (auto simp: core_awake_def)
next
  case (Cw_return i)
  with step have "i < N" "cp_pc t i = K_lock" by (auto split: if_splits)
  then show ?thesis by (auto simp: core_awake_def)
qed (use step in \<open>auto simp: core_awake_def block_on_pending_def core_shutdown_def core_notify_all_def
       split: if_splits\<close>)

lemma core_reach_awake:
  assumes "core_reach N s" shows "core_mutex N s \<and> core_awake N s"
  using assms
proof (rule reach_invariant)
  show "core_mutex N core_pool_init \<and> core_awake N core_pool_init"
    by (simp add: core_mutex_def core_awake_def core_pool_init_def held_by_def core_holds_def)
qed (use core_mutex_step core_awake_step in blast)

section \<open>Properties of the core workers\<close>

text \<open>
  Each call of \<open>block_on\<close> lets at most one core worker run the I/O context: at any time no
  more workers are running it than \<open>block_on\<close> was called, so with a single call one thread runs
  all tasks however many core threads the executor has.
\<close>

theorem core_workers_used:
  assumes "core_reach N s"
  shows "card {i. cp_pc s i = K_running} \<le> cp_calls s \<and>
         cp_entered s + (if cp_pending s then 1 else 0) \<le> cp_calls s"
  using core_reach_inv [OF assms] by (simp add: core_inv_def)

theorem core_workers_used_witness:
  "\<exists>s. core_reach 4 s \<and> cp_calls s = 1 \<and> cp_pc s 2 = K_running \<and> card {i. cp_pc s i = K_running} = 1"
proof -
  have "run_sat (core_step 4) [C_block_on, Cw_lock 2, Cw_test 2] core_pool_init
      (\<lambda>s. cp_calls s = 1 \<and> cp_pc s 2 = K_running)" by code_simp
  then obtain s where r: "core_reach 4 s"
    and s: "cp_calls s = 1" "cp_pc s 2 = K_running" by (rule run_satE) auto
  from core_reach_inv [OF r] s have "card {i. cp_pc s i = K_running} \<noteq> 0" by (auto simp: core_inv_def)
  with core_workers_used [OF r] s r show ?thesis by auto
qed

text \<open>
  C20: the notification of the core workers is never lost, unlike that of the blocking workers:
  once every caller of \<open>block_on\<close> has notified, pending work is two steps away from a worker
  entering the I/O context, unless all workers are running it already.
\<close>

theorem core_pending_work_is_taken:
  assumes "core_reach N s" and "cp_pending s" and "\<not> cp_done s" and "cp_unnotified s = 0"
    and "\<exists>i < N. cp_pc s i \<noteq> K_running \<and> cp_pc s i \<noteq> K_exited"
  shows "\<exists>ls t. length ls \<le> 2 \<and> run (core_step N) ls s = Some t \<and> \<not> cp_pending t \<and>
           cp_entered t = Suc (cp_entered s) \<and> (\<exists>i < N. cp_pc s i \<noteq> K_running \<and> cp_pc t i = K_running)"
proof -
  from core_reach_awake [OF assms(1)] have mut: "held_by N core_holds (cp_mut s) (cp_pc s)"
    and tested: "\<forall>i < N. cp_pc s i \<noteq> K_tested"
    and awake: "(\<exists>i < N. cp_pc s i = K_lock \<or> cp_pc s i = K_test) \<or> (\<forall>i < N. cp_pc s i \<noteq> K_blocked)"
    using assms(2-4) by (auto simp: core_mutex_def core_awake_def)
  from assms(5) obtain i where "i < N" "cp_pc s i \<noteq> K_running" "cp_pc s i \<noteq> K_exited" by blast
  with awake tested obtain i where i: "i < N" "cp_pc s i = K_lock \<or> cp_pc s i = K_test"
    by (cases "cp_pc s i") auto
  consider (testing) j where "j < N" "cp_pc s j = K_test" | (free) "cp_mut s = None" "cp_pc s i = K_lock"
    using i held_SomeD [OF mut] tested by (cases "cp_mut s") (auto simp: core_holds_def)
  then show ?thesis
  proof cases
    case testing
    with assms show ?thesis
      by (intro exI [of _ "[Cw_test j]"]) (auto simp: core_test_def intro!: exI [of _ j])
  next
    case free
    with i assms show ?thesis
      by (intro exI [of _ "[Cw_lock i, Cw_test i]"]) (auto simp: core_test_def intro!: exI [of _ i])
  qed
qed

theorem core_pending_work_is_taken_witness:
  "\<exists>s ls t. core_reach 2 s \<and> cp_pending s \<and> cp_pc s 0 = K_blocked \<and> run (core_step 2) ls s = Some t \<and>
     cp_entered t = Suc (cp_entered s)"
proof -
  have "run_sat (core_step 2) [Cw_lock 0, Cw_test 0, Cw_block 0, Cw_lock 1, Cw_test 1, Cw_block 1,
      C_block_on, C_notify (Some 1)] core_pool_init
      (\<lambda>s. cp_pending s \<and> \<not> cp_done s \<and> cp_unnotified s = 0 \<and> cp_pc s 0 = K_blocked)" by code_simp
  then obtain s where s: "core_reach 2 s" "cp_pending s" "\<not> cp_done s" "cp_unnotified s = 0" "cp_pc s 0 = K_blocked"
    by (rule run_satE) auto
  from s(5) have "\<exists>i < 2. cp_pc s i \<noteq> K_running \<and> cp_pc s i \<noteq> K_exited" by (intro exI [of _ 0]) simp
  from core_pending_work_is_taken [OF s(1-4) this] s show ?thesis by blast
qed

section \<open>What a call of \<open>block_on\<close> comes to\<close>

text \<open>
  \<open>'c\<close> is the state of the \<^verbatim>\<open>io_context\<close>; \<open>post\<close> and \<open>ctx_run\<close> are its
  \<^verbatim>\<open>post\<close> and \<^verbatim>\<open>run\<close>, the latter giving the handlers it ran.
\<close>

record 'c core =
  ce_ctx :: 'c
  ce_pending :: bool   \<comment> \<open>\<open>core_work_pending_\<close>\<close>
  ce_done :: bool      \<comment> \<open>\<open>core_done_\<close>\<close>

text \<open>The part of \<open>block_on_impl\<close> before it waits: post the handler, tell one core worker.\<close>

definition block_on_post :: "(nat \<Rightarrow> 'c \<Rightarrow> 'c) \<Rightarrow> nat \<Rightarrow> 'c core \<Rightarrow> 'c core" where
  "block_on_post post h e = e\<lparr>ce_ctx := post h (ce_ctx e), ce_pending := True\<rparr>"

text \<open>One round of \<open>core_work\<close> once its wait condition holds: it leaves, or runs the context.\<close>

datatype core_round = Core_waits | Core_leaves | Core_ran "nat list"

definition core_work_round :: "('c \<Rightarrow> nat list \<times> 'c) \<Rightarrow> 'c core \<Rightarrow> core_round \<times> 'c core" where
  "core_work_round ctx_run e =
     (if ce_pending e \<or> ce_done e
      then if ce_done e then (Core_leaves, e)
           else (let e1 = e\<lparr>ce_pending := False\<rparr>; (ran, c) = ctx_run (ce_ctx e1)
                 in (Core_ran ran, e1\<lparr>ce_ctx := c\<rparr>))
      else (Core_waits, e))"

text \<open>
  The handler of \<open>block_on_impl\<close>: a coroutine that awaits the function's future, with outcome
  \<open>r\<close>, and sets \<open>done\<close> after it; an exception leaves the coroutine before that.
\<close>

definition block_on_handler :: "exn + unit \<Rightarrow> bool \<Rightarrow> bool" where
  "block_on_handler r done = (case r of Inr _ \<Rightarrow> True | Inl e \<Rightarrow> done)"

text \<open>\<open>block_on\<close> of a value: the wrapped function emplaces the result; \<open>None\<close> is a call that waits for ever.\<close>

definition block_on :: "exn + 'v \<Rightarrow> (fault + 'v) option" where
  "block_on r =
     (let (ret, body) = (case r of Inr v \<Rightarrow> (Some v, Inr ()) | Inl e \<Rightarrow> (None, Inl e))
      in if block_on_handler body False
         then Some (case ret of Some v \<Rightarrow> Inr v | None \<Rightarrow> Inl (Undefined Empty_option_deref))
         else None)"

text \<open>
  A second \<open>block_on\<close> on the same executor never returns. It rests on what
  \<^verbatim>\<open>io_context\<close> documents: \<open>run\<close> returns with the context stopped, a stopped context's
  \<open>run\<close> runs nothing until it is restarted, and posting does not restart it; the code never
  does. After a core worker has run the context once, the handler of a later call is not run.
\<close>

theorem block_on_twice_hangs:
  assumes "\<And>c ran c1. ctx_run c = (ran, c1) \<Longrightarrow> stopped c1"
    and "\<And>c. stopped c \<Longrightarrow> ctx_run c = ([], c)" and "\<And>h c. stopped (post h c) = stopped c"
    and "\<not> ce_done e" and "core_work_round ctx_run (block_on_post post h1 e) = (Core_ran ran1, e1)"
  shows "\<exists>e2. core_work_round ctx_run (block_on_post post h2 e1) = (Core_ran [], e2) \<and>
              core_work_round ctx_run e2 = (Core_waits, e2)"
proof -
  from assms(5,1,4) have "stopped (ce_ctx e1)" and "\<not> ce_done e1"
    by (auto simp: core_work_round_def block_on_post_def split: prod.splits if_splits)
  with assms(2,3) show ?thesis by (simp add: core_work_round_def block_on_post_def)
qed

theorem block_on_twice_hangs_witness:
  "\<exists>e1 e2. core_work_round (\<lambda>(hs, stop). if stop then ([], hs, stop) else (hs, [], True))
             (block_on_post (\<lambda>h (hs, stop). (hs @ [h], stop)) 1 \<lparr>ce_ctx = ([], False), ce_pending = False, ce_done = False\<rparr>)
             = (Core_ran [1], e1) \<and>
           core_work_round (\<lambda>(hs, stop). if stop then ([], hs, stop) else (hs, [], True))
             (block_on_post (\<lambda>h (hs, stop). (hs @ [h], stop)) 2 e1) = (Core_ran [], e2)"
proof -
  let ?run = "\<lambda>(hs, stop). if stop then ([], hs, stop) else (hs, [], True)"
  let ?post = "\<lambda>h (hs, stop). (hs @ [h], stop)"
  let ?e = "\<lparr>ce_ctx = ([], False), ce_pending = False, ce_done = False\<rparr>"
  let ?e1 = "\<lparr>ce_ctx = ([], True), ce_pending = False, ce_done = False\<rparr>"
  have first: "core_work_round ?run (block_on_post ?post (1::nat) ?e) = (Core_ran [1], ?e1)"
    by (simp add: core_work_round_def block_on_post_def)
  have "\<exists>e2. core_work_round ?run (block_on_post ?post 2 ?e1) = (Core_ran [], e2) \<and>
             core_work_round ?run e2 = (Core_waits, e2)"
    by (rule block_on_twice_hangs [where stopped = snd, OF _ _ _ _ first]) (auto split: if_splits)
  with first show ?thesis by blast
qed

text \<open>
  The first \<open>block_on\<close> returns exactly what its function's future delivers when that is a
  value; when the future ends with an exception, the call never returns.
\<close>

theorem block_on_value_or_hangs:
  "block_on r = (case r of Inr v \<Rightarrow> Some (Inr v) | Inl e \<Rightarrow> None)"
  by (cases r) (simp_all add: block_on_def block_on_handler_def)

end
