(* ===== verification/Executor_Shutdown.thy ===== *)
theory Executor_Shutdown imports Core_Workers begin

text \<open>
  The destructor of \<open>executor\<close> (src/executor.cpp) against both pools: it stops and joins the
  blocking workers, then the core workers, while callers and workers go on. As in \<open>Executor\<close> operations on the
  queue of blocking tasks do not overlap.
\<close>

section \<open>The blocking workers wind down\<close>

definition pool_holds :: "bw_pc \<Rightarrow> bool" where
  "pool_holds p \<longleftrightarrow> p = B_test \<or> p = B_tested"

definition pool_mutex :: "nat \<Rightarrow> pool \<Rightarrow> bool" where
  "pool_mutex N s \<longleftrightarrow> held_by N pool_holds (po_mut s) (po_pc s) \<and>
     (po_done s \<longrightarrow> (\<forall>i < N. po_pc s i \<noteq> B_tested))"

lemma pool_mutex_free:
  "pool_mutex N s \<Longrightarrow> po_mut s = None \<Longrightarrow> i < N \<Longrightarrow> po_pc s i \<noteq> B_tested"
  using held_NoneD [of N pool_holds "po_pc s" i] by (auto simp: pool_mutex_def pool_holds_def)

lemma pool_mutex_move:
  assumes "pool_mutex N s" and "i < N"
  shows "po_mut s = None \<Longrightarrow> pool_mutex N (s\<lparr>po_mut := Some i, po_pc := (po_pc s)(i := B_test)\<rparr>)"
    and "pool_holds (po_pc s i) \<Longrightarrow> \<not> pool_holds x \<Longrightarrow> pool_mutex N (s\<lparr>po_mut := None, po_pc := (po_pc s)(i := x)\<rparr>)"
    and "\<not> pool_holds (po_pc s i) \<Longrightarrow> \<not> pool_holds x \<Longrightarrow> po_mut t = po_mut s \<Longrightarrow> po_done t = po_done s \<Longrightarrow>
           po_pc t = (po_pc s)(i := x) \<Longrightarrow> pool_mutex N t"
  using assms held_take [of N pool_holds "po_pc s" i B_test] held_drop [of N pool_holds "po_mut s" "po_pc s" i x]
    held_stay [of N pool_holds "po_mut s" "po_pc s" x i]
  by (auto simp: pool_mutex_def pool_holds_def)

lemma pool_mutex_test:
  assumes inv: "pool_mutex N s" and i: "i < N" "po_pc s i = B_test"
  shows "pool_mutex N (worker_test i s)"
proof (cases "po_done s \<or> po_waiting s > 0")
  case True
  with i pool_mutex_move(2) [OF inv i(1), of B_exited] pool_mutex_move(2) [OF inv i(1), of B_pop]
  show ?thesis by (auto simp: worker_test_def pool_holds_def)
next
  case False
  with inv i held_stay [of N pool_holds "po_mut s" "po_pc s" B_tested i]
  show ?thesis by (auto simp: pool_mutex_def worker_test_def pool_holds_def)
qed

lemma pool_mutex_step:
  assumes inv: "pool_mutex N s" and step: "pool_step N l s = Some t"
  shows "pool_mutex N t"
proof (cases l)
  case (P_notify w)
  with step have "t = run_blocking_notify w s" by (simp split: if_splits)
  with inv held_wake [of N pool_holds "po_mut s" "po_pc s" B_lock B_blocked "set_option w"] show ?thesis
    by (auto simp: pool_mutex_def run_blocking_notify_def pool_holds_def wake_def)
next
  case D_notify_all
  with step have "t = blocking_notify_all N s" by (simp split: if_splits)
  with inv held_wake [of N pool_holds "po_mut s" "po_pc s" B_lock B_blocked "{..<N}"] show ?thesis
    by (auto simp: pool_mutex_def blocking_notify_all_def pool_holds_def wake_def)
next
  case (P_push x)
  with step inv show ?thesis by (auto simp: pool_mutex_def run_blocking_push_def)
next
  case P_count
  with step inv show ?thesis by (auto simp: pool_mutex_def run_blocking_count_def split: if_splits)
next
  case D_done
  with step inv pool_mutex_free [OF inv] show ?thesis
    by (auto simp: pool_mutex_def blocking_shutdown_def split: if_splits)
next
  case (W_test i)
  with step pool_mutex_test [OF inv] show ?thesis by (auto split: if_splits)
next
  case (W_pop i)
  with step have i: "i < N" "po_pc s i = B_pop" and t: "t = worker_pop i s" by (auto split: if_splits)
  obtain r q where "pop (po_tasks s) = (r, q)" by (cases "pop (po_tasks s)")
  then show ?thesis unfolding t using i
    by (intro pool_mutex_move(3) [OF inv i(1), of "case r of Some x \<Rightarrow> B_sub x | None \<Rightarrow> B_lock"])
      (auto simp: worker_pop_def pool_holds_def split: option.splits)
next
  case (W_sub i)
  with step obtain x where i: "i < N" "po_pc s i = B_sub x" and t: "t = worker_sub i x s"
    by (auto split: bw_pc.splits if_splits)
  then show ?thesis unfolding t
    by (intro pool_mutex_move(3) [OF inv i(1), of "B_run x"]) (auto simp: worker_sub_def pool_holds_def)
next
  case (W_run i)
  with step obtain x where i: "i < N" "po_pc s i = B_run x" and t: "t = worker_run i x s"
    by (auto split: bw_pc.splits if_splits)
  then show ?thesis unfolding t
    by (intro pool_mutex_move(3) [OF inv i(1), of B_pop]) (auto simp: worker_run_def pool_holds_def)
next
  case (W_spurious i)
  with step have i: "i < N" "po_pc s i = B_blocked" and t: "t = s\<lparr>po_pc := (po_pc s)(i := B_lock)\<rparr>"
    by (auto split: if_splits)
  then show ?thesis unfolding t
    by (intro pool_mutex_move(3) [OF inv i(1), of B_lock]) (auto simp: pool_holds_def)
qed (use step pool_mutex_move(1,2) [OF inv] in \<open>auto simp: pool_holds_def split: if_splits\<close>)

lemma pool_reach_mutex: "pool_reach N s \<Longrightarrow> pool_mutex N s"
proof (erule reach_invariant)
  show "pool_mutex N pool_init" by (simp add: pool_mutex_def pool_init_def held_by_def pool_holds_def)
qed (rule pool_mutex_step)

text \<open>The workers' own steps; a spurious wake-up is not one they can count on.\<close>

fun pool_own :: "pool_label \<Rightarrow> bool" where
  "pool_own (W_pop i) = True" | "pool_own (W_sub i) = True" | "pool_own (W_run i) = True"
| "pool_own (W_lock i) = True" | "pool_own (W_test i) = True" | "pool_own (W_block i) = True"
| "pool_own _ = False"

fun bw_rank :: "bw_pc \<Rightarrow> nat" where
  "bw_rank (B_sub t) = 5" | "bw_rank (B_run t) = 4" | "bw_rank B_pop = 3" | "bw_rank B_lock = 2"
| "bw_rank B_test = 1" | "bw_rank B_tested = 1" | "bw_rank B_blocked = 3" | "bw_rank B_exited = 0"

definition pool_rank :: "nat \<Rightarrow> pool \<Rightarrow> nat" where
  "pool_rank N s = (\<Sum>i<N. bw_rank (po_pc s i)) + 4 * length (vals (cells (po_tasks s)))"

definition pool_dying :: "nat \<Rightarrow> pool \<Rightarrow> bool" where
  "pool_dying N s \<longleftrightarrow> pool_inv N s \<and> pool_mutex N s \<and> po_done s \<and> (\<forall>i < N. po_pc s i \<noteq> B_blocked)"

definition pool_gone :: "nat \<Rightarrow> pool \<Rightarrow> bool" where
  "pool_gone N s \<longleftrightarrow> (\<forall>i < N. po_pc s i = B_exited)"

lemma pool_rank_upd:
  assumes "i < N" and "bw_rank x + 4 * length (vals (cells (po_tasks t))) <
      bw_rank (po_pc s i) + 4 * length (vals (cells (po_tasks s)))" and "po_pc t = (po_pc s)(i := x)"
  shows "pool_rank N t < pool_rank N s"
  using sum_upd [OF assms(1), of bw_rank "po_pc s" x] assms(2,3) by (simp add: pool_rank_def)

lemma pool_pop_rank:
  assumes "pool_dying N s" and "i < N" and "po_pc s i = B_pop"
  shows "pool_rank N (worker_pop i s) < pool_rank N s"
proof -
  from assms(1) have ok: "lfq_ok (po_tasks s)" by (simp add: pool_dying_def pool_inv_def)
  obtain r q where pop: "pop (po_tasks s) = (r, q)" by (cases "pop (po_tasks s)")
  show ?thesis
  proof (cases r)
    case None
    with lq.pop_NoneD [OF ok] pop assms show ?thesis
      by (intro pool_rank_upd [of i N B_lock]) (auto simp: worker_pop_def)
  next
    case (Some x)
    with lq.pop_SomeD [OF ok] pop assms show ?thesis
      by (intro pool_rank_upd [of i N "B_sub x"]) (auto simp: worker_pop_def)
  qed
qed

lemma pool_dying_own:
  assumes dying: "pool_dying N s" and l: "pool_own l" and step: "pool_step N l s = Some t"
  shows "pool_dying N t \<and> pool_rank N t < pool_rank N s"
proof -
  from dying have inv: "pool_inv N s" and mut: "pool_mutex N s" and d: "po_done s"
    and nb: "\<forall>i < N. po_pc s i \<noteq> B_blocked" and nt: "\<forall>i < N. po_pc s i \<noteq> B_tested"
    by (auto simp: pool_dying_def pool_mutex_def)
  have "po_done t \<and> (\<forall>i < N. po_pc t i \<noteq> B_blocked) \<and> pool_rank N t < pool_rank N s"
  proof (cases l)
    case (W_pop i)
    with step have i: "i < N" "po_pc s i = B_pop" and t: "t = worker_pop i s" by (auto split: if_splits)
    from pool_pop_rank [OF dying i] d nb show ?thesis
      by (auto simp: t worker_pop_def split: prod.splits option.splits)
  next
    case (W_sub i)
    with step d nb pool_rank_upd [of i N _ t s] show ?thesis
      by (auto simp: worker_sub_def split: bw_pc.splits if_splits)
  next
    case (W_run i)
    with step d nb pool_rank_upd [of i N _ t s] show ?thesis
      by (auto simp: worker_run_def split: bw_pc.splits if_splits)
  next
    case (W_lock i)
    with step d nb pool_rank_upd [of i N B_test t s] show ?thesis by (auto split: if_splits)
  next
    case (W_test i)
    with step d nb pool_rank_upd [of i N B_exited t s] show ?thesis
      by (auto simp: worker_test_def split: if_splits)
  qed (use l step nb nt in \<open>auto split: if_splits\<close>)
  with pool_inv_step [OF inv step] pool_mutex_step [OF mut step] show ?thesis by (simp add: pool_dying_def)
qed

lemma pool_dying_enabled:
  assumes "pool_dying N s" and "\<not> pool_gone N s"
  shows "\<exists>l. pool_own l \<and> pool_step N l s \<noteq> None"
proof -
  from assms have mut: "held_by N pool_holds (po_mut s) (po_pc s)" and nb: "\<forall>i < N. po_pc s i \<noteq> B_blocked"
    and nt: "\<forall>i < N. po_pc s i \<noteq> B_tested" by (auto simp: pool_dying_def pool_mutex_def)
  from assms(2) obtain i where i: "i < N" "po_pc s i \<noteq> B_exited" by (auto simp: pool_gone_def)
  consider (testing) j where "j < N" "po_pc s j = B_test" | (free) "po_mut s = None"
    using held_SomeD [OF mut] nt by (cases "po_mut s") (auto simp: pool_holds_def)
  then show ?thesis
  proof cases
    case testing
    then show ?thesis by (intro exI [of _ "W_test j"]) simp
  next
    case free
    with i nb nt show ?thesis
    proof (cases "po_pc s i")
      case B_pop with i show ?thesis by (intro exI [of _ "W_pop i"]) simp
    next
      case (B_sub x) with i show ?thesis by (intro exI [of _ "W_sub i"]) simp
    next
      case (B_run x) with i show ?thesis by (intro exI [of _ "W_run i"]) simp
    next
      case B_lock with i free show ?thesis by (intro exI [of _ "W_lock i"]) simp
    next
      case B_test with i show ?thesis by (intro exI [of _ "W_test i"]) simp
    qed auto
  qed
qed

interpretation pool_down: winding_down "pool_step N" "Collect pool_own" "pool_dying N" "pool_rank N" "pool_gone N" for N
  by unfold_locales (use pool_dying_own pool_dying_enabled in auto)

section \<open>The core workers wind down\<close>




definition core_dying :: "nat \<Rightarrow> core_pool \<Rightarrow> bool" where
  "core_dying N s \<longleftrightarrow> core_mutex N s \<and> cp_done s \<and> (\<forall>i < N. cp_pc s i \<noteq> K_blocked)"

definition core_gone :: "nat \<Rightarrow> core_pool \<Rightarrow> bool" where
  "core_gone N s \<longleftrightarrow> (\<forall>i < N. cp_pc s i = K_exited)"





section \<open>The destructor\<close>

text \<open>
  Where the destructor is. It joins the workers one after the other; joining a worker returns
  only once that worker has left its loop.
\<close>

datatype dtor_pc =
    X_alive | X_blocking_flagged | X_joining_blocking nat | X_blocking_gone
  | X_core_flagged | X_joining_core nat | X_destroyed

record exec_sys =
  xs_pool :: pool
  xs_core :: core_pool
  xs_dtor :: dtor_pc

datatype exec_label = X_pool pool_label | X_core core_label | X_dtor

definition exec_init :: exec_sys where
  "exec_init = \<lparr>xs_pool = pool_init, xs_core = core_pool_init, xs_dtor = X_alive\<rparr>"

text \<open>One step of the destructor, with \<open>B\<close> blocking and \<open>C\<close> core workers.\<close>

definition dtor_step :: "nat \<Rightarrow> nat \<Rightarrow> exec_sys \<Rightarrow> exec_sys option" where
  "dtor_step B C s =
     (case xs_dtor s of
        X_alive \<Rightarrow> map_option (\<lambda>p. s\<lparr>xs_pool := p, xs_dtor := X_blocking_flagged\<rparr>) (pool_step B D_done (xs_pool s))
      | X_blocking_flagged \<Rightarrow>
          map_option (\<lambda>p. s\<lparr>xs_pool := p, xs_dtor := X_joining_blocking 0\<rparr>) (pool_step B D_notify_all (xs_pool s))
      | X_joining_blocking i \<Rightarrow>
          if i < B then if po_pc (xs_pool s) i = B_exited then Some (s\<lparr>xs_dtor := X_joining_blocking (Suc i)\<rparr>) else None
          else Some (s\<lparr>xs_dtor := X_blocking_gone\<rparr>)
      | X_blocking_gone \<Rightarrow>
          map_option (\<lambda>c. s\<lparr>xs_core := c, xs_dtor := X_core_flagged\<rparr>) (core_step C D_core_done (xs_core s))
      | X_core_flagged \<Rightarrow>
          map_option (\<lambda>c. s\<lparr>xs_core := c, xs_dtor := X_joining_core 0\<rparr>) (core_step C D_core_notify_all (xs_core s))
      | X_joining_core i \<Rightarrow>
          if i < C then if cp_pc (xs_core s) i = K_exited then Some (s\<lparr>xs_dtor := X_joining_core (Suc i)\<rparr>) else None
          else Some (s\<lparr>xs_dtor := X_destroyed\<rparr>)
      | X_destroyed \<Rightarrow> None)"

text \<open>Callers and workers; only the destructor sets the flags and notifies all.\<close>

fun exec_step :: "nat \<Rightarrow> nat \<Rightarrow> exec_label \<Rightarrow> exec_sys \<Rightarrow> exec_sys option" where
  "exec_step B C (X_pool l) s =
     (if l = D_done \<or> l = D_notify_all then None
      else map_option (\<lambda>p. s\<lparr>xs_pool := p\<rparr>) (pool_step B l (xs_pool s)))"
| "exec_step B C (X_core l) s =
     (if l = D_core_done \<or> l = D_core_notify_all then None
      else map_option (\<lambda>c. s\<lparr>xs_core := c\<rparr>) (core_step C l (xs_core s)))"
| "exec_step B C X_dtor s = dtor_step B C s"


fun dtor_stage :: "dtor_pc \<Rightarrow> nat" where
  "dtor_stage X_alive = 0" | "dtor_stage X_blocking_flagged = 1" | "dtor_stage (X_joining_blocking i) = 2"
| "dtor_stage X_blocking_gone = 3" | "dtor_stage X_core_flagged = 4" | "dtor_stage (X_joining_core i) = 5"
| "dtor_stage X_destroyed = 6"

text \<open>What each stage of the destructor has established.\<close>

definition exec_inv :: "nat \<Rightarrow> nat \<Rightarrow> exec_sys \<Rightarrow> bool" where
  "exec_inv B C s \<longleftrightarrow>
     pool_inv B (xs_pool s) \<and> pool_mutex B (xs_pool s) \<and> core_mutex C (xs_core s) \<and>
     (dtor_stage (xs_dtor s) \<ge> 1 \<longrightarrow> po_done (xs_pool s)) \<and>
     (dtor_stage (xs_dtor s) \<ge> 2 \<longrightarrow> pool_dying B (xs_pool s)) \<and>
     (\<forall>k. xs_dtor s = X_joining_blocking k \<longrightarrow> (\<forall>i < min k B. po_pc (xs_pool s) i = B_exited)) \<and>
     (dtor_stage (xs_dtor s) \<ge> 3 \<longrightarrow> pool_gone B (xs_pool s)) \<and>
     (dtor_stage (xs_dtor s) \<ge> 4 \<longrightarrow> cp_done (xs_core s)) \<and>
     (dtor_stage (xs_dtor s) \<ge> 5 \<longrightarrow> core_dying C (xs_core s)) \<and>
     (\<forall>k. xs_dtor s = X_joining_core k \<longrightarrow> (\<forall>i < min k C. cp_pc (xs_core s) i = K_exited)) \<and>
     (dtor_stage (xs_dtor s) \<ge> 6 \<longrightarrow> core_gone C (xs_core s))"

text \<open>A worker that has left stays where it is; \<open>done\<close> stays set, and then nobody blocks again.\<close>

lemma pool_step_stays:
  assumes "pool_step N l s = Some t"
  shows "po_pc s i = B_exited \<Longrightarrow> po_pc t i = B_exited" and "po_done s \<Longrightarrow> po_done t"
    and "pool_dying N s \<Longrightarrow> l \<noteq> D_done \<Longrightarrow> \<forall>i < N. po_pc t i \<noteq> B_blocked"
  using assms
  by (cases l; auto simp: run_blocking_push_def run_blocking_count_def run_blocking_notify_def wake_def
      worker_pop_def worker_sub_def worker_run_def worker_test_def blocking_shutdown_def blocking_notify_all_def
      pool_dying_def pool_mutex_def split: if_splits bw_pc.splits prod.splits option.splits)+

lemma core_step_stays:
  assumes "core_step N l s = Some t"
  shows "cp_pc s i = K_exited \<Longrightarrow> cp_pc t i = K_exited" and "cp_done s \<Longrightarrow> cp_done t"
    and "core_dying N s \<Longrightarrow> \<forall>i < N. cp_pc t i \<noteq> K_blocked"
  using assms
  by (cases l; auto simp: block_on_pending_def block_on_notify_def wake_def core_test_def core_shutdown_def
      core_notify_all_def core_dying_def core_mutex_def split: if_splits)+

lemma pool_dying_step:
  "pool_dying N s \<Longrightarrow> pool_step N l s = Some t \<Longrightarrow> l \<noteq> D_done \<Longrightarrow> pool_dying N t"
  using pool_step_stays [of N l s t] pool_inv_step [of N s l t] pool_mutex_step [of N s l t]
  by (simp add: pool_dying_def)

lemma core_dying_step: "core_dying N s \<Longrightarrow> core_step N l s = Some t \<Longrightarrow> core_dying N t"
  using core_step_stays [of N l s t] core_mutex_step [of N s l t] by (simp add: core_dying_def)

lemma exec_inv_pool:
  assumes inv: "exec_inv B C s" and p: "pool_step B l (xs_pool s) = Some p" and l: "l \<noteq> D_done"
  shows "exec_inv B C (s\<lparr>xs_pool := p\<rparr>)"
proof -
  note stays = pool_step_stays [OF p]
  have "pool_inv B p" "pool_mutex B p"
    using inv pool_inv_step [OF _ p] pool_mutex_step [OF _ p] by (auto simp: exec_inv_def)
  moreover have "dtor_stage (xs_dtor s) \<ge> 2 \<longrightarrow> pool_dying B p"
    using inv pool_dying_step [OF _ p l] by (auto simp: exec_inv_def)
  moreover have "dtor_stage (xs_dtor s) \<ge> 3 \<longrightarrow> pool_gone B p"
    using inv stays(1) by (auto simp: exec_inv_def pool_gone_def)
  moreover have "dtor_stage (xs_dtor s) \<ge> 1 \<longrightarrow> po_done p" using inv stays(2) by (auto simp: exec_inv_def)
  moreover have "\<forall>k. xs_dtor s = X_joining_blocking k \<longrightarrow> (\<forall>i < min k B. po_pc p i = B_exited)"
    using inv stays(1) unfolding exec_inv_def by blast
  ultimately show ?thesis using inv by (simp add: exec_inv_def)
qed

lemma exec_inv_core:
  assumes inv: "exec_inv B C s" and c: "core_step C l (xs_core s) = Some c"
  shows "exec_inv B C (s\<lparr>xs_core := c\<rparr>)"
proof -
  note stays = core_step_stays [OF c]
  have "core_mutex C c" using inv core_mutex_step [OF _ c] by (auto simp: exec_inv_def)
  moreover have "dtor_stage (xs_dtor s) \<ge> 5 \<longrightarrow> core_dying C c"
    using inv core_dying_step [OF _ c] by (auto simp: exec_inv_def)
  moreover have "dtor_stage (xs_dtor s) \<ge> 6 \<longrightarrow> core_gone C c"
    using inv stays(1) by (auto simp: exec_inv_def core_gone_def)
  moreover have "dtor_stage (xs_dtor s) \<ge> 4 \<longrightarrow> cp_done c" using inv stays(2) by (auto simp: exec_inv_def)
  moreover have "\<forall>k. xs_dtor s = X_joining_core k \<longrightarrow> (\<forall>i < min k C. cp_pc c i = K_exited)"
    using inv stays(1) unfolding exec_inv_def by blast
  ultimately show ?thesis using inv by (simp add: exec_inv_def)
qed

lemma exec_inv_dtor:
  assumes inv: "exec_inv B C s" and step: "dtor_step B C s = Some t"
  shows "exec_inv B C t"
proof (cases "xs_dtor s")
  case X_alive
  with step obtain p where p: "pool_step B D_done (xs_pool s) = Some p"
    and t: "t = s\<lparr>xs_pool := p, xs_dtor := X_blocking_flagged\<rparr>" by (auto simp: dtor_step_def)
  from inv pool_inv_step [OF _ p] pool_mutex_step [OF _ p] have "pool_inv B p" "pool_mutex B p"
    by (auto simp: exec_inv_def)
  moreover from p have "po_done p" by (auto simp: blocking_shutdown_def split: if_splits)
  ultimately show ?thesis using inv by (simp add: exec_inv_def t)
next
  case X_blocking_flagged
  with step obtain p where p: "pool_step B D_notify_all (xs_pool s) = Some p"
    and t: "t = s\<lparr>xs_pool := p, xs_dtor := X_joining_blocking 0\<rparr>" by (auto simp: dtor_step_def)
  from inv pool_inv_step [OF _ p] pool_mutex_step [OF _ p] have "pool_inv B p" "pool_mutex B p"
    by (auto simp: exec_inv_def)
  moreover from p have "po_done p" "\<forall>i < B. po_pc p i \<noteq> B_blocked"
    by (auto simp: blocking_notify_all_def wake_def split: if_splits)
  ultimately show ?thesis using inv by (simp add: exec_inv_def t pool_dying_def)
next
  case (X_joining_blocking i)
  with step inv show ?thesis
    by (auto simp: dtor_step_def exec_inv_def pool_gone_def less_Suc_eq split: if_splits)
next
  case X_blocking_gone
  with step obtain c where c: "core_step C D_core_done (xs_core s) = Some c"
    and t: "t = s\<lparr>xs_core := c, xs_dtor := X_core_flagged\<rparr>" by (auto simp: dtor_step_def)
  from c have "cp_done c" by (auto simp: core_shutdown_def split: if_splits)
  with inv X_blocking_gone core_mutex_step [OF _ c] show ?thesis by (simp add: exec_inv_def t)
next
  case X_core_flagged
  with step obtain c where c: "core_step C D_core_notify_all (xs_core s) = Some c"
    and t: "t = s\<lparr>xs_core := c, xs_dtor := X_joining_core 0\<rparr>" by (auto simp: dtor_step_def)
  from c have "cp_done c" "\<forall>i < C. cp_pc c i \<noteq> K_blocked"
    by (auto simp: core_notify_all_def wake_def split: if_splits)
  with inv X_core_flagged core_mutex_step [OF _ c] show ?thesis by (simp add: exec_inv_def t core_dying_def)
next
  case (X_joining_core i)
  with step inv show ?thesis
    by (auto simp: dtor_step_def exec_inv_def core_gone_def less_Suc_eq split: if_splits)
qed (use step in \<open>simp add: dtor_step_def\<close>)

lemma exec_inv_step: "exec_inv B C s \<Longrightarrow> exec_step B C l s = Some t \<Longrightarrow> exec_inv B C t"
  by (cases l) (auto intro: exec_inv_pool exec_inv_core exec_inv_dtor split: if_splits)


abbreviation exec_reach :: "nat \<Rightarrow> nat \<Rightarrow> exec_sys \<Rightarrow> bool" where
  "exec_reach B C \<equiv> reach exec_init (exec_step B C)"

lemma exec_reach_inv:
  assumes "exec_reach B C s" shows "exec_inv B C s"
  using assms
proof (rule reach_invariant)
  show "exec_inv B C exec_init"
    using pool_reach_mutex [OF reach_init] core_reach_awake [OF reach_init]
    by (simp add: exec_inv_def exec_init_def pool_inv_init)
qed (rule exec_inv_step)

section \<open>The destructor can always go on\<close>

















text \<open>Once the blocking workers have left, nobody runs a task any more.\<close>

lemma gone_runs_nothing:
  "pool_gone N s \<Longrightarrow> pool_step N l s = Some t \<Longrightarrow> po_ran t = po_ran s \<and> po_taken t = po_taken s"
  by (cases l) (auto simp: pool_gone_def run_blocking_push_def run_blocking_count_def run_blocking_notify_def
    blocking_shutdown_def blocking_notify_all_def split: if_splits bw_pc.splits)

lemma gone_exec_runs_nothing:
  assumes "run (exec_step B C) ls s = Some t" and "exec_inv B C s" and "pool_gone B (xs_pool s)"
  shows "po_ran (xs_pool t) = po_ran (xs_pool s)"
proof -
  have "exec_inv B C t \<and> pool_gone B (xs_pool t) \<and> po_ran (xs_pool t) = po_ran (xs_pool s)"
    using assms(1)
  proof (rule run_invariant)
    fix l u v assume u: "exec_inv B C u \<and> pool_gone B (xs_pool u) \<and> po_ran (xs_pool u) = po_ran (xs_pool s)"
      and step: "exec_step B C l u = Some v"
    have "xs_pool v = xs_pool u \<or> (\<exists>m. pool_step B m (xs_pool u) = Some (xs_pool v))"
      using step by (cases l) (auto simp: dtor_step_def simp del: pool_step.simps core_step.simps
        split: if_splits dtor_pc.splits)
    with u pool_step_stays(1) gone_runs_nothing
    have "pool_gone B (xs_pool v) \<and> po_ran (xs_pool v) = po_ran (xs_pool s)"
      unfolding pool_gone_def by metis
    with exec_inv_step [OF _ step] u show "exec_inv B C v \<and> pool_gone B (xs_pool v) \<and> po_ran (xs_pool v) = po_ran (xs_pool s)"
      by blast
  qed (use assms in simp)
  then show ?thesis by simp
qed

section \<open>Properties\<close>



text \<open>
  C21: once \<open>blocking_done_\<close> is set and the workers have been notified, the blocking workers
  leave after a bounded number of steps, however they are scheduled, and none of them blocks again: at most five for each worker and four for each queued task, unless
  new tasks are pushed meanwhile; and as long as one has not left, one of them can step.
\<close>

theorem blocking_workers_leave:
  assumes "exec_reach B C s" and "xs_dtor s = X_joining_blocking k"
    and "run (pool_step B) ls (xs_pool s) = Some p" and "set ls \<subseteq> Collect pool_own"
  shows "length ls \<le> 5 * B + 4 * length (vals (cells (po_tasks (xs_pool s)))) \<and>
         ((\<forall>l. pool_own l \<longrightarrow> pool_step B l p = None) \<longrightarrow> (\<forall>i < B. po_pc p i = B_exited))"
proof -
  from exec_reach_inv [OF assms(1)] assms(2) have d: "pool_dying B (xs_pool s)" by (simp add: exec_inv_def)
  have "bw_rank (po_pc (xs_pool s) i) \<le> 5" for i by (cases "po_pc (xs_pool s) i") simp_all
  then have "(\<Sum>i<B. bw_rank (po_pc (xs_pool s) i)) \<le> of_nat (card {..<B}) * 5"
    by (intro sum_bounded_above) simp
  with pool_down.own_run_bounded [OF assms(3) d assms(4)]
  have "length ls \<le> 5 * B + 4 * length (vals (cells (po_tasks (xs_pool s))))" by (simp add: pool_rank_def)
  with pool_down.own_run_stuck_finished [OF assms(3) d assms(4)] show ?thesis by (simp add: pool_gone_def)
qed

theorem blocking_workers_leave_witness:
  "\<exists>s p ls. exec_reach 1 1 s \<and> run (pool_step 1) ls (xs_pool s) = Some p \<and> length ls = 6 \<and>
     length ls \<le> 5 * 1 + 4 * length (vals (cells (po_tasks (xs_pool s)))) \<and> po_pc p 0 = B_exited"
proof -
  let ?ls = "[W_pop 0, W_sub 0, W_run 0, W_pop 0, W_lock 0, W_test 0]"
  have "run_sat (exec_step 1 1) [X_pool (P_push 7), X_pool P_count, X_dtor, X_dtor] exec_init
      (\<lambda>s. xs_dtor s = X_joining_blocking 0 \<and> run_sat (pool_step 1) ?ls (xs_pool s) (\<lambda>p. po_pc p 0 = B_exited))"
    by code_simp
  then obtain s where s: "exec_reach 1 1 s" "xs_dtor s = X_joining_blocking 0"
    and "run_sat (pool_step 1) ?ls (xs_pool s) (\<lambda>p. po_pc p 0 = B_exited)" by (rule run_satE) auto
  then obtain p where p: "run (pool_step 1) ?ls (xs_pool s) = Some p" "po_pc p 0 = B_exited"
    by (auto simp: run_sat_def simp del: run.simps split: option.splits)
  from blocking_workers_leave [OF s p(1)] s p show ?thesis
    by (intro exI [of _ s] exI [of _ p] exI [of _ ?ls]) simp
qed

text \<open>
  The destructor stops the blocking workers while the core workers still run coroutines. A
  blocking task that a coroutine starts after the blocking workers have left is accepted and is
  never run: whatever happens afterwards, the tasks that have run stay the same.
\<close>

theorem blocking_tasks_after_shutdown:
  assumes "exec_reach B C s" and "dtor_stage (xs_dtor s) \<ge> 3" and "run (exec_step B C) ls s = Some t"
  shows "po_ran (xs_pool t) = po_ran (xs_pool s) \<and> exec_step B C (X_pool (P_push x)) t \<noteq> None"
  using gone_exec_runs_nothing [OF assms(3) exec_reach_inv [OF assms(1)]] exec_reach_inv [OF assms(1)] assms(2)
  by (simp add: exec_inv_def)

theorem blocking_tasks_after_shutdown_witness:
  "\<exists>s t. exec_reach 1 1 s \<and> dtor_stage (xs_dtor s) \<ge> 3 \<and> cp_pc (xs_core s) 0 = K_running \<and>
     run (exec_step 1 1) [X_pool (P_push 9), X_pool P_count, X_core (Cw_return 0)] s = Some t \<and>
     po_pushed (xs_pool t) = [9] \<and> po_ran (xs_pool t) = []"
proof -
  let ?ms = "[X_pool (P_push 9), X_pool P_count, X_core (Cw_return 0)]"
  have "run_sat (exec_step 1 1) [X_core C_block_on, X_core (Cw_lock 0), X_core (Cw_test 0), X_dtor, X_dtor,
      X_pool (W_pop 0), X_pool (W_lock 0), X_pool (W_test 0), X_dtor, X_dtor] exec_init
      (\<lambda>s. dtor_stage (xs_dtor s) \<ge> 3 \<and> cp_pc (xs_core s) 0 = K_running \<and> po_ran (xs_pool s) = [] \<and>
        run_sat (exec_step 1 1) ?ms s (\<lambda>t. po_pushed (xs_pool t) = [9]))" by code_simp
  then obtain s where s: "exec_reach 1 1 s" "dtor_stage (xs_dtor s) \<ge> 3" "cp_pc (xs_core s) 0 = K_running"
    "po_ran (xs_pool s) = []" and "run_sat (exec_step 1 1) ?ms s (\<lambda>t. po_pushed (xs_pool t) = [9])"
    by (rule run_satE) auto
  then obtain t where t: "run (exec_step 1 1) ?ms s = Some t" "po_pushed (xs_pool t) = [9]"
    by (auto simp: run_sat_def simp del: run.simps split: option.splits)
  from blocking_tasks_after_shutdown [OF s(1,2) t(1)] s t show ?thesis
    by (intro exI [of _ s] exI [of _ t]) (simp del: run.simps)
qed

end
