(* ===== verification/Sleep.thy ===== *)
theory Sleep imports Prelude Transition begin

text \<open>
  \<open>sleep_for\<close>, \<open>sleep_until\<close> and \<open>sleep_future\<close> (include/crasy/sleep.hpp). The timer belongs
  to asio: it is its expiry time and the handlers waiting for it. It starts waiting in
  \<open>await_suspend\<close>; the handler ignores the error code, so a cancelled timer wakes the task as an
  expired one does. Times are ticks of the clock, signed 64-bit.
\<close>

section \<open>The future\<close>

record sleep_future =
  sl_expiry :: "64 word"       \<comment> \<open>in ticks of the clock since its epoch, signed\<close>
  sl_done :: bool
  sl_waiters :: "handle list"   \<comment> \<open>handlers registered with the timer, by the handle they captured\<close>

text \<open>
  A duration is given in ticks of its own period, a whole number \<open>num\<close> of ticks of the clock; \<^verbatim>\<open>chrono\<close>
  converts it, as it does the duration of a time point, by a multiplication in 64-bit signed arithmetic, whose overflow is undefined. (No
  implicit conversion exists from a finer period, nor from a floating-point duration.)
\<close>

definition in_range :: "int \<Rightarrow> bool" where
  "in_range x \<longleftrightarrow> - (2 ^ 63) \<le> x \<and> x < 2 ^ 63"

definition duration_cast :: "nat \<Rightarrow> 64 word \<Rightarrow> fault + 64 word" where
  "duration_cast num count =
     (if in_range (sint count * int num) then Inr (count * of_nat num) else Inl (Undefined Signed_overflow))"

text \<open>
  The two constructors; the timer's constructor takes the context, which throws outside an executor. Given a
  duration it sets the expiry relative to the clock's present time \<open>now\<close>: \<open>after now d\<close> is asio's.
\<close>

definition sleep_ctor_duration :: "(64 word \<Rightarrow> 64 word \<Rightarrow> 64 word) \<Rightarrow> exec_ctx \<Rightarrow> 64 word \<Rightarrow> nat \<Rightarrow> 64 word \<Rightarrow> fault + sleep_future" where
  "sleep_ctor_duration after ex now num timeout =
     (if in_exec ex
      then (case duration_cast num timeout of
              Inl f \<Rightarrow> Inl f
            | Inr d \<Rightarrow> Inr \<lparr>sl_expiry = after now d, sl_done = False, sl_waiters = []\<rparr>)
      else Inl (Throw (Runtime_error ''attempt to access async I/O context outside of executor context'')))"

definition sleep_ctor_time :: "exec_ctx \<Rightarrow> nat \<Rightarrow> 64 word \<Rightarrow> fault + sleep_future" where
  "sleep_ctor_time ex num timeout =
     (if in_exec ex
      then (case duration_cast num timeout of
              Inl f \<Rightarrow> Inl f
            | Inr t \<Rightarrow> Inr \<lparr>sl_expiry = t, sl_done = False, sl_waiters = []\<rparr>)
      else Inl (Throw (Runtime_error ''attempt to access async I/O context outside of executor context'')))"

definition sleep_for :: "(64 word \<Rightarrow> 64 word \<Rightarrow> 64 word) \<Rightarrow> exec_ctx \<Rightarrow> 64 word \<Rightarrow> nat \<Rightarrow> 64 word \<Rightarrow> fault + sleep_future" where
  "sleep_for after ex now num timeout = sleep_ctor_duration after ex now num timeout"

definition sleep_until :: "exec_ctx \<Rightarrow> nat \<Rightarrow> 64 word \<Rightarrow> fault + sleep_future" where
  "sleep_until ex num timeout = sleep_ctor_time ex num timeout"

definition sleep_await_ready :: "sleep_future \<Rightarrow> bool" where
  "sleep_await_ready f = sl_done f"

definition sleep_await_suspend :: "handle \<Rightarrow> sleep_future \<Rightarrow> sleep_future" where
  "sleep_await_suspend suspended f = f\<lparr>sl_waiters := sl_waiters f @ [suspended]\<rparr>"

text \<open>The handler captured \<^verbatim>\<open>this\<close>; \<open>None\<close> is a future that was destroyed.\<close>

definition sleep_handler :: "int \<Rightarrow> handle \<Rightarrow> (unit, sleep_future option \<times> exec_ctx) comp" where
  "sleep_handler ec suspended = (\<lambda>(fo, ex).
     case fo of
       None \<Rightarrow> (Inl (Undefined Use_after_free), fo, ex)
     | Some f \<Rightarrow>
         (let f1 = f\<lparr>sl_done := True\<rparr>; (r, ex1) = schedule_task suspended ex in (r, Some f1, ex1)))"

section \<open>A sleeping task and its timer\<close>

text \<open>
  One task awaits the future while time passes and asio runs the timer: \<open>fires now expiry\<close> says
  when it may call a handler, with error code 0. The frame that holds the future may be destroyed
  while the task sleeps; the timer's destructor cancels the waits, and asio calls their handlers
  later with an error code.
\<close>

datatype sleep_pc = S_start | S_asked | S_suspended | S_through

record sleep_sys =
  ss_now :: int
  ss_future :: "sleep_future option"
  ss_cancelled :: "handle list"
  ss_pc :: sleep_pc
  ss_exec :: exec_ctx
  ss_fired :: bool
  ss_fault :: "fault option"

datatype sleep_label = Sl_tick nat | Sl_ready | Sl_suspend | Sl_fire | Sl_destroy | Sl_abort int

definition sleep_sys_init :: "int \<Rightarrow> sleep_future \<Rightarrow> sleep_sys" where
  "sleep_sys_init now f = \<lparr>ss_now = now, ss_future = Some f, ss_cancelled = [], ss_pc = S_start,
     ss_exec = \<lparr>in_exec = True, posted = []\<rparr>, ss_fired = False, ss_fault = None\<rparr>"

definition sleep_run_handler :: "int \<Rightarrow> handle \<Rightarrow> sleep_sys \<Rightarrow> sleep_sys" where
  "sleep_run_handler ec h s =
     (let (r, fo, ex) = sleep_handler ec h (ss_future s, ss_exec s)
      in s\<lparr>ss_future := fo, ss_exec := ex, ss_fired := True,
           ss_fault := (case r of Inl e \<Rightarrow> Some e | Inr _ \<Rightarrow> None)\<rparr>)"

fun sleep_step :: "(int \<Rightarrow> 64 word \<Rightarrow> bool) \<Rightarrow> handle \<Rightarrow> sleep_label \<Rightarrow> sleep_sys \<Rightarrow> sleep_sys option" where
  "sleep_step fires h (Sl_tick d) s = Some (s\<lparr>ss_now := ss_now s + int d\<rparr>)"
| "sleep_step fires h Sl_ready s =
     (case ss_future s of
        Some f \<Rightarrow> if ss_pc s = S_start
                  then Some (s\<lparr>ss_pc := if sleep_await_ready f then S_through else S_asked\<rparr>) else None
      | None \<Rightarrow> None)"
| "sleep_step fires h Sl_suspend s =
     (case ss_future s of
        Some f \<Rightarrow> if ss_pc s = S_asked
                  then Some (s\<lparr>ss_pc := S_suspended, ss_future := Some (sleep_await_suspend h f)\<rparr>) else None
      | None \<Rightarrow> None)"
| "sleep_step fires h Sl_fire s =
     (case ss_future s of
        Some f \<Rightarrow> (case sl_waiters f of
                     w # ws \<Rightarrow> if fires (ss_now s) (sl_expiry f)
                               then Some (sleep_run_handler 0 w (s\<lparr>ss_future := Some (f\<lparr>sl_waiters := ws\<rparr>)\<rparr>))
                               else None
                   | [] \<Rightarrow> None)
      | None \<Rightarrow> None)"
| "sleep_step fires h Sl_destroy s =
     (case ss_future s of
        Some f \<Rightarrow> if ss_pc s = S_suspended
                  then Some (s\<lparr>ss_future := None, ss_cancelled := sl_waiters f\<rparr>) else None
      | None \<Rightarrow> None)"
| "sleep_step fires h (Sl_abort ec) s =
     (case ss_cancelled s of
        w # ws \<Rightarrow> Some (sleep_run_handler ec w (s\<lparr>ss_cancelled := ws\<rparr>))
      | [] \<Rightarrow> None)"

definition sleep_inv :: "handle \<Rightarrow> int \<Rightarrow> sleep_sys \<Rightarrow> bool" where
  "sleep_inv h e s \<longleftrightarrow>
     in_exec (ss_exec s) \<and> ss_pc s \<noteq> S_through \<and> posted (ss_exec s) \<in> {[], [h]} \<and>
     (posted (ss_exec s) = [h] \<longrightarrow> e \<le> ss_now s \<and> ss_pc s = S_suspended \<and> ss_cancelled s = []) \<and>
     (case ss_future s of
        Some f \<Rightarrow> ss_fault s = None \<and> ss_cancelled s = [] \<and> sint (sl_expiry f) = e \<and>
          sl_done f = ss_fired s \<and> (ss_fired s \<longleftrightarrow> posted (ss_exec s) = [h]) \<and>
          sl_waiters f = (if ss_pc s = S_suspended \<and> \<not> ss_fired s then [h] else [])
      | None \<Rightarrow> ss_pc s = S_suspended \<and>
          ss_fault s = (if posted (ss_exec s) = [] \<and> ss_fired s then Some (Undefined Use_after_free) else None))"

lemma sleep_inv_step:
  assumes fires: "\<And>now e. fires now e \<Longrightarrow> sint e \<le> now"
    and inv: "sleep_inv h e s" and step: "sleep_step fires h l s = Some t"
  shows "sleep_inv h e t"
proof (cases "ss_future s")
  case None
  with inv step show ?thesis
    by (cases l) (auto simp: sleep_inv_def sleep_run_handler_def sleep_handler_def split: list.splits if_splits)
next
  case (Some f)
  with inv step show ?thesis
    by (cases l) (auto simp: sleep_inv_def sleep_run_handler_def sleep_handler_def sleep_await_ready_def
        sleep_await_suspend_def split: if_splits dest: fires)
qed

lemma sleep_reach_inv:
  assumes "\<And>now e. fires now e \<Longrightarrow> sint e \<le> now" and "sl_done f = False" and "sl_waiters f = []"
    and "reach (sleep_sys_init now f) (sleep_step fires h) s"
  shows "sleep_inv h (sint (sl_expiry f)) s"
  using assms(4)
proof (rule reach_invariant)
  show "sleep_inv h (sint (sl_expiry f)) (sleep_sys_init now f)"
    using assms(2,3) by (simp add: sleep_inv_def sleep_sys_init_def)
qed (rule sleep_inv_step [OF assms(1)])

text \<open>What asio documents of an expiry relative to now, where the sum is a time.\<close>

definition after_law :: "(64 word \<Rightarrow> 64 word \<Rightarrow> 64 word) \<Rightarrow> bool" where
  "after_law after \<longleftrightarrow> (\<forall>t d. in_range (sint t + sint d) \<longrightarrow> sint (after t d) = sint t + sint d)"

lemma sint_in_range: "in_range (sint (w :: 64 word))"
  using sint_range_size [of w] by (simp add: in_range_def word_size)

lemma in_range_sint: "in_range x \<Longrightarrow> sint (of_int x :: 64 word) = x"
  by (simp add: in_range_def sint_sbintrunc' signed_take_bit_int_eq_self)

lemma duration_cast_exact:
  assumes "duration_cast num count = Inr d" shows "sint d = sint count * int num"
proof -
  from assms have r: "in_range (sint count * int num)" and d: "d = count * of_nat num"
    by (auto simp: duration_cast_def split: if_splits)
  have "d = of_int (sint count * int num)" by (simp add: d)
  with in_range_sint [OF r] show ?thesis by simp
qed

text \<open>
  C34: a sleeping task is scheduled at most once and not before its time. \<open>sleep_for\<close> a count of periods either faults, the
  conversion to the clock's ticks having overflowed, or makes a future with which, when asio calls a
  handler without an error only after the expiry, and in every order of the passing of time, the task's steps, the timer and
  the destruction of the sleeping task: the task never goes on without suspending; while its future exists
  nothing faults, and the task is scheduled when the timer has fired and then only; it is never scheduled before the start plus
  the duration, if that is a time of the clock; and only a future that was destroyed can fault, by the use of it after that.
\<close>

theorem sleep_wakes_in_time:
  assumes "\<And>now e. fires now e \<Longrightarrow> sint e \<le> now" and "after_law after"
    and "sleep_for after ex start num timeout = Inr f"
    and "reach (sleep_sys_init now f) (sleep_step fires h) s"
  shows "in_range (sint timeout * int num) \<and>
         posted (ss_exec s) \<in> {[], [h]} \<and> ss_pc s \<noteq> S_through \<and>
         (posted (ss_exec s) = [h] \<and> in_range (sint start + sint timeout * int num) \<longrightarrow>
            sint start + sint timeout * int num \<le> ss_now s) \<and>
         (ss_future s \<noteq> None \<longrightarrow> ss_fault s = None \<and> (ss_fired s \<longleftrightarrow> posted (ss_exec s) = [h])) \<and>
         ss_fault s \<in> {None, Some (Undefined Use_after_free)}"
proof -
  from assms(3) obtain d where d: "duration_cast num timeout = Inr d"
    and f: "f = \<lparr>sl_expiry = after start d, sl_done = False, sl_waiters = []\<rparr>"
    by (auto simp: sleep_for_def sleep_ctor_duration_def split: if_splits sum.splits)
  have "sint (sl_expiry f) = sint start + sint timeout * int num" if "in_range (sint start + sint timeout * int num)"
    using that assms(2) duration_cast_exact [OF d] by (simp add: f after_law_def)
  moreover have "in_range (sint timeout * int num)" using d by (auto simp: duration_cast_def split: if_splits)
  moreover have "sleep_inv h (sint (sl_expiry f)) s" by (rule sleep_reach_inv [OF assms(1) _ _ assms(4)]) (simp_all add: f)
  ultimately show ?thesis by (auto simp: sleep_inv_def split: option.splits)
qed

text \<open>An addition that stops at the last time of the clock is one that asio may have.\<close>

definition saturating :: "64 word \<Rightarrow> 64 word \<Rightarrow> 64 word" where
  "saturating t d = of_int (max (- (2 ^ 63)) (min (2 ^ 63 - 1) (sint t + sint d)))"

lemma saturating_law: "after_law saturating"
  unfolding after_law_def
proof (intro allI impI)
  fix t d :: "64 word" assume r: "in_range (sint t + sint d)"
  then have "max (- (2 ^ 63)) (min (2 ^ 63 - 1) (sint t + sint d)) = sint t + sint d" by (simp add: in_range_def)
  with in_range_sint [OF r] show "sint (saturating t d) = sint t + sint d" by (simp add: saturating_def)
qed

text \<open>A sleep of 30 periods of 1000 ticks, begun at 100.\<close>

theorem sleep_wakes_in_time_witness:
  "\<exists>f s. sleep_for saturating \<lparr>in_exec = True, posted = []\<rparr> 100 1000 30 = Inr f \<and>
     reach (sleep_sys_init 100 f) (sleep_step (\<lambda>now e. sint e \<le> now) 7) s \<and>
     posted (ss_exec s) = [7] \<and> 100 + 30 * 1000 \<le> ss_now s"
proof -
  let ?f = "\<lparr>sl_expiry = 30100, sl_done = False, sl_waiters = []\<rparr>"
  have f: "sleep_for saturating \<lparr>in_exec = True, posted = []\<rparr> 100 1000 30 = Inr ?f" by code_simp
  have "run_sat (sleep_step (\<lambda>now e. sint e \<le> now) 7) [Sl_ready, Sl_tick 20000, Sl_suspend, Sl_tick 15000, Sl_fire]
      (sleep_sys_init 100 ?f) (\<lambda>s. posted (ss_exec s) = [7])" by code_simp
  then obtain s where r: "reach (sleep_sys_init 100 ?f) (sleep_step (\<lambda>now e. sint e \<le> now) 7) s"
    and p: "posted (ss_exec s) = [7]" by (rule run_satE)
  from sleep_wakes_in_time [OF _ saturating_law f r] p have "100 + 30 * 1000 \<le> ss_now s"
    by (simp add: in_range_def)
  with f p r show ?thesis by blast
qed

text \<open>
  Destroying a sleeping task is a use after free: the cancelled timer still has its handler
  called, which writes to the future that is gone before it looks at anything.
\<close>

theorem sleep_destroyed_use_after_free:
  assumes "sleep_until ex num timeout = Inr f"
  shows "\<exists>s. run (sleep_step fires h) [Sl_ready, Sl_suspend, Sl_destroy, Sl_abort ec] (sleep_sys_init now f) = Some s \<and>
             ss_fault s = Some (Undefined Use_after_free)"
  using assms
  by (auto simp: sleep_until_def sleep_ctor_time_def sleep_sys_init_def sleep_await_ready_def
      sleep_await_suspend_def sleep_run_handler_def sleep_handler_def split: if_splits sum.splits)

theorem sleep_destroyed_use_after_free_witness:
  "\<exists>s. run (sleep_step (\<lambda>_ _. False) 7) [Sl_ready, Sl_suspend, Sl_destroy, Sl_abort 125]
         (sleep_sys_init 0 \<lparr>sl_expiry = 9, sl_done = False, sl_waiters = []\<rparr>) = Some s \<and>
       ss_fault s = Some (Undefined Use_after_free)"
proof -
  have "sleep_until \<lparr>in_exec = True, posted = []\<rparr> 1 9 = Inr \<lparr>sl_expiry = 9, sl_done = False, sl_waiters = []\<rparr>" by code_simp
  from sleep_destroyed_use_after_free [OF this] show ?thesis .
qed

end
