(* ===== verification/Erased_Calls.thy ===== *)
theory Erased_Calls imports Prelude begin

text \<open>
  Functions handed on as \<^verbatim>\<open>void*\<close>: \<open>block_on\<close> and \<open>async_call\<close> (include/crasy/executor.hpp), and the state block
  of \<open>spawn_blocking\<close>, its function and its \<open>run\<close> (include/crasy/spawn_blocking.hpp). What the other theories
  take as the function that is called is here found again behind the pointer, or not any more.
\<close>

section \<open>Addresses\<close>

text \<open>
  Functions are always there; an object that can be called, a closure, is there while the variable
  lives. A \<^verbatim>\<open>void*\<close> can hold either address, and is cast back to what it was.
\<close>

datatype erased = Function_address nat | Object_address nat

record 'f callables =
  code_at :: "nat \<Rightarrow> 'f"
  closures :: "nat \<Rightarrow> 'f option"

definition call_function :: "'f callables \<Rightarrow> erased \<Rightarrow> 'f option" where
  "call_function m p = (case p of Function_address a \<Rightarrow> Some (code_at m a) | Object_address a \<Rightarrow> None)"

definition call_object :: "'f callables \<Rightarrow> erased \<Rightarrow> 'f option" where
  "call_object m p = (case p of Function_address a \<Rightarrow> None | Object_address a \<Rightarrow> closures m a)"

section \<open>block_on\<close>

datatype callee_type = Function_pointer | Function_type | Closure_type

text \<open>The branch of \<open>block_on\<close>: what \<open>async_call\<close> is instantiated at, and the pointer it is given.\<close>

definition block_on_erase :: "callee_type \<Rightarrow> nat \<Rightarrow> callee_type \<times> erased" where
  "block_on_erase F func =
     (case F of
        Function_pointer \<Rightarrow> (Function_pointer, Function_address func)
      | Function_type \<Rightarrow> (Function_pointer, Function_address func)
      | Closure_type \<Rightarrow> (Closure_type, Object_address func))"

definition async_call :: "callee_type \<Rightarrow> 'f callables \<Rightarrow> erased \<Rightarrow> 'f option" where
  "async_call F m func = (if F = Function_pointer then call_function m func else call_object m func)"

section \<open>spawn_blocking\<close>

text \<open>
  A forwarding reference: of an rvalue the function is moved into the block; of an lvalue the type \<^verbatim>\<open>F\<close> is a
  reference, and so is the member.
\<close>

datatype 'f forwarded = Of_rvalue 'f | Of_lvalue nat

datatype 'f blocking_func = Func_value 'f | Func_reference nat

record 'f blocking_state =
  bt_func :: "'f blocking_func"

definition state_t_ctor :: "'f forwarded \<Rightarrow> 'f blocking_state" where
  "state_t_ctor f = \<lparr>bt_func = (case f of Of_rvalue g \<Rightarrow> Func_value g | Of_lvalue a \<Rightarrow> Func_reference a)\<rparr>"

text \<open>The function that \<open>call\<close> calls, and the block that \<open>run\<close> finds behind its argument.\<close>

definition state_call :: "'f callables \<Rightarrow> 'f blocking_state \<Rightarrow> fault + 'f" where
  "state_call m b =
     (case bt_func b of
        Func_value g \<Rightarrow> Inr g
      | Func_reference a \<Rightarrow> (case closures m a of None \<Rightarrow> Inl (Undefined Use_after_free) | Some g \<Rightarrow> Inr g))"

definition state_run :: "'f callables \<Rightarrow> (nat \<Rightarrow> 'f blocking_state option) \<Rightarrow> erased \<Rightarrow> (fault + 'f) option" where
  "state_run m blocks state =
     (case state of
        Function_address a \<Rightarrow> None
      | Object_address a \<Rightarrow>
          Some (case blocks a of None \<Rightarrow> Inl (Undefined Use_after_free) | Some b \<Rightarrow> state_call m b))"

section \<open>Properties\<close>

text \<open>
  \<open>block_on\<close> calls the function it was given, whichever of the three kinds it is: the cast that \<open>async_call\<close>
  makes is the one that undoes that of \<open>block_on\<close>. A closure is there as long as \<open>block_on\<close> has not returned.
\<close>

theorem block_on_calls_its_function:
  "case_prod (\<lambda>G p. async_call G m p) (block_on_erase F func) =
     (if F = Closure_type then closures m func else Some (code_at m func))"
  by (cases F) (simp_all add: block_on_erase_def async_call_def call_function_def call_object_def)

text \<open>
  A blocking task that was given a temporary calls that function, whatever has become of the caller
  when a worker runs it. One that was given a variable calls what the variable holds then, and if the
  variable is gone by then, as it is when the caller returned without waiting for the task, the behaviour is undefined.
\<close>

theorem blocking_function_outlived:
  assumes "blocks n = Some (state_t_ctor f)"
  shows "state_run m blocks (Object_address n) =
     Some (case f of
             Of_rvalue g \<Rightarrow> Inr g
           | Of_lvalue a \<Rightarrow> (case closures m a of Some g \<Rightarrow> Inr g | None \<Rightarrow> Inl (Undefined Use_after_free)))"
  using assms by (simp add: state_run_def state_t_ctor_def state_call_def split: forwarded.splits option.splits)

end
