(* ===== verification/Ip_Address.thy ===== *)
theory Ip_Address imports Prelude begin

text \<open>
  \<open>ipv4_address\<close>, \<open>ipv6_address\<close>, \<open>ip_address\<close> (include/crasy/ip_address.hpp,
  src/ip_address.cpp) and \<open>endpoint\<close> (include/crasy/endpoint.hpp). The classes wrap the address
  types of asio, which are not part of the sources: \<open>asio\<close> collects the asio functions the
  wrappers call. \<open>unsigned char\<close> is a byte, and \<^verbatim>\<open>std::byte\<close> a type of its own, converted
  by \<^verbatim>\<open>static_cast\<close> and \<^verbatim>\<open>as_bytes\<close>. A span of unknown size is a list; a span of fixed
  size is a list of that size.
\<close>

type_synonym byte = "8 word"

datatype std_byte = Std_byte (to_uchar: byte)

definition as_bytes :: "byte list \<Rightarrow> std_byte list" where
  "as_bytes = map Std_byte"

record ('v4, 'v6, 'ip) asio_ip =
  v4_of_bytes :: "byte list \<Rightarrow> 'v4"
  v4_to_bytes :: "'v4 \<Rightarrow> byte list"
  v4_of_uint :: "32 word \<Rightarrow> 'v4"
  v4_to_uint :: "'v4 \<Rightarrow> 32 word"
  v4_make :: "string \<Rightarrow> fault + 'v4"
  v4_less :: "'v4 \<Rightarrow> 'v4 \<Rightarrow> bool"
  v6_of_bytes :: "byte list \<Rightarrow> 'v6"
  v6_to_bytes :: "'v6 \<Rightarrow> byte list"
  v6_make :: "string \<Rightarrow> fault + 'v6"
  v6_mapped :: "'v4 \<Rightarrow> 'v6"
  v6_to_v4 :: "'v6 \<Rightarrow> fault + 'v4"
  v6_less :: "'v6 \<Rightarrow> 'v6 \<Rightarrow> bool"
  ip_of_v4 :: "'v4 \<Rightarrow> 'ip"
  ip_of_v6 :: "'v6 \<Rightarrow> 'ip"
  ip_make :: "string \<Rightarrow> fault + 'ip"
  ip_is_v4 :: "'ip \<Rightarrow> bool"
  ip_is_v6 :: "'ip \<Rightarrow> bool"
  ip_to_v4 :: "'ip \<Rightarrow> fault + 'v4"
  ip_to_v6 :: "'ip \<Rightarrow> fault + 'v6"
  ip_less :: "'ip \<Rightarrow> 'ip \<Rightarrow> bool"

section \<open>ipv4_address\<close>

datatype 'v4 ipv4_address = Ipv4 (v4_addr: 'v4)

definition ipv4_of_string :: "('v4, 'v6, 'ip) asio_ip \<Rightarrow> string \<Rightarrow> fault + 'v4 ipv4_address" where
  "ipv4_of_string A addr = (case v4_make A addr of Inl f \<Rightarrow> Inl f | Inr a \<Rightarrow> Inr (Ipv4 a))"

text \<open>From exactly four bytes, the array built element by element.\<close>

definition ipv4_of_array :: "('v4, 'v6, 'ip) asio_ip \<Rightarrow> byte list \<Rightarrow> 'v4 ipv4_address" where
  "ipv4_of_array A bytes = Ipv4 (v4_of_bytes A [bytes ! 0, bytes ! 1, bytes ! 2, bytes ! 3])"

definition ipv4_of_span :: "('v4, 'v6, 'ip) asio_ip \<Rightarrow> byte list \<Rightarrow> fault + 'v4 ipv4_address" where
  "ipv4_of_span A bytes =
     (if length bytes \<noteq> 4 then Inl (Throw (Out_of_range ''ipv4_address from bytes''))
      else Inr (ipv4_of_array A bytes))"

definition ipv4_of_std_array :: "('v4, 'v6, 'ip) asio_ip \<Rightarrow> std_byte list \<Rightarrow> 'v4 ipv4_address" where
  "ipv4_of_std_array A bytes = Ipv4 (v4_of_bytes A
     [to_uchar (bytes ! 0), to_uchar (bytes ! 1), to_uchar (bytes ! 2), to_uchar (bytes ! 3)])"

definition ipv4_of_std_span :: "('v4, 'v6, 'ip) asio_ip \<Rightarrow> std_byte list \<Rightarrow> fault + 'v4 ipv4_address" where
  "ipv4_of_std_span A bytes =
     (if length bytes \<noteq> 4 then Inl (Throw (Out_of_range ''ipv4_address from bytes''))
      else Inr (ipv4_of_std_array A bytes))"

definition ipv4_of_uint :: "('v4, 'v6, 'ip) asio_ip \<Rightarrow> 32 word \<Rightarrow> 'v4 ipv4_address" where
  "ipv4_of_uint A u = Ipv4 (v4_of_uint A u)"

definition ipv4_to_uchar_bytes :: "('v4, 'v6, 'ip) asio_ip \<Rightarrow> 'v4 ipv4_address \<Rightarrow> byte list" where
  "ipv4_to_uchar_bytes A a = v4_to_bytes A (v4_addr a)"

definition ipv4_to_std_bytes :: "('v4, 'v6, 'ip) asio_ip \<Rightarrow> 'v4 ipv4_address \<Rightarrow> std_byte list" where
  "ipv4_to_std_bytes A a =
     (let bytes = as_bytes (v4_to_bytes A (v4_addr a)) in [bytes ! 0, bytes ! 1, bytes ! 2, bytes ! 3])"

definition ipv4_to_uint :: "('v4, 'v6, 'ip) asio_ip \<Rightarrow> 'v4 ipv4_address \<Rightarrow> 32 word" where
  "ipv4_to_uint A a = v4_to_uint A (v4_addr a)"

section \<open>ipv6_address\<close>

datatype 'v6 ipv6_address = Ipv6 (v6_addr: 'v6)

definition ipv6_of_string :: "('v4, 'v6, 'ip) asio_ip \<Rightarrow> string \<Rightarrow> fault + 'v6 ipv6_address" where
  "ipv6_of_string A addr = (case v6_make A addr of Inl f \<Rightarrow> Inl f | Inr a \<Rightarrow> Inr (Ipv6 a))"

definition ipv6_of_array :: "('v4, 'v6, 'ip) asio_ip \<Rightarrow> byte list \<Rightarrow> 'v6 ipv6_address" where
  "ipv6_of_array A bytes = Ipv6 (v6_of_bytes A
     [bytes ! 0, bytes ! 1, bytes ! 2, bytes ! 3, bytes ! 4, bytes ! 5, bytes ! 6, bytes ! 7,
      bytes ! 8, bytes ! 9, bytes ! 10, bytes ! 11, bytes ! 12, bytes ! 13, bytes ! 14, bytes ! 15])"

definition ipv6_of_span :: "('v4, 'v6, 'ip) asio_ip \<Rightarrow> byte list \<Rightarrow> fault + 'v6 ipv6_address" where
  "ipv6_of_span A bytes =
     (if length bytes \<noteq> 16 then Inl (Throw (Out_of_range ''ipv6_address from bytes''))
      else Inr (ipv6_of_array A bytes))"

definition ipv6_of_std_array :: "('v4, 'v6, 'ip) asio_ip \<Rightarrow> std_byte list \<Rightarrow> 'v6 ipv6_address" where
  "ipv6_of_std_array A bytes = Ipv6 (v6_of_bytes A
     [to_uchar (bytes ! 0), to_uchar (bytes ! 1), to_uchar (bytes ! 2), to_uchar (bytes ! 3),
      to_uchar (bytes ! 4), to_uchar (bytes ! 5), to_uchar (bytes ! 6), to_uchar (bytes ! 7),
      to_uchar (bytes ! 8), to_uchar (bytes ! 9), to_uchar (bytes ! 10), to_uchar (bytes ! 11),
      to_uchar (bytes ! 12), to_uchar (bytes ! 13), to_uchar (bytes ! 14), to_uchar (bytes ! 15)])"

definition ipv6_of_std_span :: "('v4, 'v6, 'ip) asio_ip \<Rightarrow> std_byte list \<Rightarrow> fault + 'v6 ipv6_address" where
  "ipv6_of_std_span A bytes =
     (if length bytes \<noteq> 16 then Inl (Throw (Out_of_range ''ipv6_address from bytes''))
      else Inr (ipv6_of_std_array A bytes))"

definition ipv6_of_v4 :: "('v4, 'v6, 'ip) asio_ip \<Rightarrow> 'v4 ipv4_address \<Rightarrow> 'v6 ipv6_address" where
  "ipv6_of_v4 A a = Ipv6 (v6_mapped A (v4_addr a))"

definition ipv6_to_uchar_bytes :: "('v4, 'v6, 'ip) asio_ip \<Rightarrow> 'v6 ipv6_address \<Rightarrow> byte list" where
  "ipv6_to_uchar_bytes A a = v6_to_bytes A (v6_addr a)"

definition ipv6_to_std_bytes :: "('v4, 'v6, 'ip) asio_ip \<Rightarrow> 'v6 ipv6_address \<Rightarrow> std_byte list" where
  "ipv6_to_std_bytes A a =
     (let bytes = as_bytes (v6_to_bytes A (v6_addr a))
      in [bytes ! 0, bytes ! 1, bytes ! 2, bytes ! 3, bytes ! 4, bytes ! 5, bytes ! 6, bytes ! 7,
          bytes ! 8, bytes ! 9, bytes ! 10, bytes ! 11, bytes ! 12, bytes ! 13, bytes ! 14, bytes ! 15])"

definition ipv6_to_v4 :: "('v4, 'v6, 'ip) asio_ip \<Rightarrow> 'v6 ipv6_address \<Rightarrow> fault + 'v4 ipv4_address" where
  "ipv6_to_v4 A a = (case v6_to_v4 A (v6_addr a) of Inl f \<Rightarrow> Inl f | Inr b \<Rightarrow> Inr (Ipv4 b))"

section \<open>ip_address\<close>

datatype 'ip ip_address = Ip (ip_addr: 'ip)

definition ip_of_ipv4 :: "('v4, 'v6, 'ip) asio_ip \<Rightarrow> 'v4 ipv4_address \<Rightarrow> 'ip ip_address" where
  "ip_of_ipv4 A a = Ip (ip_of_v4 A (v4_addr a))"

definition ip_of_ipv6 :: "('v4, 'v6, 'ip) asio_ip \<Rightarrow> 'v6 ipv6_address \<Rightarrow> 'ip ip_address" where
  "ip_of_ipv6 A a = Ip (ip_of_v6 A (v6_addr a))"

definition ip_of_string :: "('v4, 'v6, 'ip) asio_ip \<Rightarrow> string \<Rightarrow> fault + 'ip ip_address" where
  "ip_of_string A addr = (case ip_make A addr of Inl f \<Rightarrow> Inl f | Inr a \<Rightarrow> Inr (Ip a))"

definition ip_of_array4 :: "('v4, 'v6, 'ip) asio_ip \<Rightarrow> byte list \<Rightarrow> 'ip ip_address" where
  "ip_of_array4 A bytes = ip_of_ipv4 A (ipv4_of_array A bytes)"

definition ip_of_array16 :: "('v4, 'v6, 'ip) asio_ip \<Rightarrow> byte list \<Rightarrow> 'ip ip_address" where
  "ip_of_array16 A bytes = ip_of_ipv6 A (ipv6_of_array A bytes)"

definition ip_of_span :: "('v4, 'v6, 'ip) asio_ip \<Rightarrow> byte list \<Rightarrow> fault + 'ip ip_address" where
  "ip_of_span A bytes =
     (if length bytes = 4 then Inr (ip_of_array4 A bytes)
      else if length bytes = 16 then Inr (ip_of_array16 A bytes)
      else Inl (Throw (Out_of_range ''ip_address from bytes'')))"

definition ip_of_std_array4 :: "('v4, 'v6, 'ip) asio_ip \<Rightarrow> std_byte list \<Rightarrow> 'ip ip_address" where
  "ip_of_std_array4 A bytes = ip_of_ipv4 A (ipv4_of_std_array A bytes)"

definition ip_of_std_array16 :: "('v4, 'v6, 'ip) asio_ip \<Rightarrow> std_byte list \<Rightarrow> 'ip ip_address" where
  "ip_of_std_array16 A bytes = ip_of_ipv6 A (ipv6_of_std_array A bytes)"

definition ip_of_std_span :: "('v4, 'v6, 'ip) asio_ip \<Rightarrow> std_byte list \<Rightarrow> fault + 'ip ip_address" where
  "ip_of_std_span A bytes =
     (if length bytes = 4 then Inr (ip_of_std_array4 A bytes)
      else if length bytes = 16 then Inr (ip_of_std_array16 A bytes)
      else Inl (Throw (Out_of_range ''ip_address from bytes'')))"

definition ip_of_uint :: "('v4, 'v6, 'ip) asio_ip \<Rightarrow> 32 word \<Rightarrow> 'ip ip_address" where
  "ip_of_uint A u = Ip (ip_of_v4 A (v4_of_uint A u))"

definition is_v4 :: "('v4, 'v6, 'ip) asio_ip \<Rightarrow> 'ip ip_address \<Rightarrow> bool" where
  "is_v4 A a = ip_is_v4 A (ip_addr a)"

definition is_v6 :: "('v4, 'v6, 'ip) asio_ip \<Rightarrow> 'ip ip_address \<Rightarrow> bool" where
  "is_v6 A a = ip_is_v6 A (ip_addr a)"

definition to_v4 :: "('v4, 'v6, 'ip) asio_ip \<Rightarrow> 'ip ip_address \<Rightarrow> fault + 'v4 ipv4_address" where
  "to_v4 A a = (case ip_to_v4 A (ip_addr a) of Inl f \<Rightarrow> Inl f | Inr b \<Rightarrow> Inr (Ipv4 b))"

definition to_v6 :: "('v4, 'v6, 'ip) asio_ip \<Rightarrow> 'ip ip_address \<Rightarrow> fault + 'v6 ipv6_address" where
  "to_v6 A a = (case ip_to_v6 A (ip_addr a) of Inl f \<Rightarrow> Inl f | Inr b \<Rightarrow> Inr (Ipv6 b))"

section \<open>Three-way comparison\<close>

datatype ordering = Less | Greater | Equal | Unordered

definition ipv4_compare :: "('v4, 'v6, 'ip) asio_ip \<Rightarrow> 'v4 ipv4_address \<Rightarrow> 'v4 ipv4_address \<Rightarrow> ordering" where
  "ipv4_compare A lhs rhs =
     (if v4_less A (v4_addr lhs) (v4_addr rhs) then Less
      else if v4_less A (v4_addr rhs) (v4_addr lhs) then Greater
      else Equal)"

definition ipv6_compare :: "('v4, 'v6, 'ip) asio_ip \<Rightarrow> 'v6 ipv6_address \<Rightarrow> 'v6 ipv6_address \<Rightarrow> ordering" where
  "ipv6_compare A lhs rhs =
     (if v6_less A (v6_addr lhs) (v6_addr rhs) then Less
      else if v6_less A (v6_addr rhs) (v6_addr lhs) then Greater
      else Equal)"

definition ip_compare :: "('v4, 'v6, 'ip) asio_ip \<Rightarrow> 'ip ip_address \<Rightarrow> 'ip ip_address \<Rightarrow> ordering" where
  "ip_compare A lhs rhs =
     (if ip_less A (ip_addr lhs) (ip_addr rhs) then Less
      else if ip_less A (ip_addr rhs) (ip_addr lhs) then Greater
      else if ip_addr lhs = ip_addr rhs then Equal
      else Unordered)"

section \<open>endpoint\<close>

record 'ip endpoint =
  ep_addr :: "'ip ip_address"
  ep_port :: "16 word"

definition endpoint_ctor :: "'ip ip_address \<Rightarrow> 16 word \<Rightarrow> 'ip endpoint" where
  "endpoint_ctor addr port = \<lparr>ep_addr = addr, ep_port = port\<rparr>"

section \<open>Properties\<close>

lemma list4: "length xs = 4 \<Longrightarrow> [xs ! 0, xs ! 1, xs ! 2, xs ! 3] = xs"
  by (auto simp: list_eq_iff_nth_eq less_Suc_eq numeral_eq_Suc nth_Cons split: nat.splits)

lemma list16:
  "length xs = 16 \<Longrightarrow> [xs ! 0, xs ! 1, xs ! 2, xs ! 3, xs ! 4, xs ! 5, xs ! 6, xs ! 7,
     xs ! 8, xs ! 9, xs ! 10, xs ! 11, xs ! 12, xs ! 13, xs ! 14, xs ! 15] = xs"
  by (auto simp: list_eq_iff_nth_eq less_Suc_eq numeral_eq_Suc nth_Cons split: nat.splits)

text \<open>What is asked of asio: conversion to bytes and back, and that an address knows its version.\<close>

definition asio_ip_ok :: "('v4, 'v6, 'ip) asio_ip \<Rightarrow> bool" where
  "asio_ip_ok A \<longleftrightarrow>
     (\<forall>bs. length bs = 4 \<longrightarrow> v4_to_bytes A (v4_of_bytes A bs) = bs) \<and>
     (\<forall>bs. length bs = 16 \<longrightarrow> v6_to_bytes A (v6_of_bytes A bs) = bs) \<and>
     (\<forall>a. ip_is_v4 A (ip_of_v4 A a) \<and> \<not> ip_is_v6 A (ip_of_v4 A a) \<and> ip_to_v4 A (ip_of_v4 A a) = Inr a) \<and>
     (\<forall>a. ip_is_v6 A (ip_of_v6 A a) \<and> \<not> ip_is_v4 A (ip_of_v6 A a) \<and> ip_to_v6 A (ip_of_v6 A a) = Inr a)"

lemmas ip_defs = ipv4_of_array_def ipv4_to_uchar_bytes_def ipv4_to_std_bytes_def ipv6_of_array_def
  ipv6_to_uchar_bytes_def ipv6_to_std_bytes_def ip_of_ipv4_def ip_of_ipv6_def ip_of_array4_def
  ip_of_array16_def ip_of_span_def is_v4_def is_v6_def to_v4_def to_v6_def

text \<open>The overloads for \<^verbatim>\<open>std::byte\<close> are those for \<open>unsigned char\<close> behind the cast.\<close>

lemma std_spans:
  "ipv4_of_std_span A cs = ipv4_of_span A (map to_uchar cs)"
  "ipv6_of_std_span A cs = ipv6_of_span A (map to_uchar cs)"
  "ip_of_std_span A cs = ip_of_span A (map to_uchar cs)"
  by (simp_all add: ipv4_of_std_span_def ipv4_of_span_def ipv6_of_std_span_def ipv6_of_span_def
      ip_of_std_span_def ip_of_span_def ip_of_std_array4_def ip_of_array4_def ip_of_std_array16_def
      ip_of_array16_def ipv4_of_std_array_def ipv4_of_array_def ipv6_of_std_array_def ipv6_of_array_def)

text \<open>
  C40: an address from a span of bytes: four bytes give an IPv4 address and sixteen an IPv6
  address, whose bytes read back through the version-specific class, in either byte type, are
  the given ones; every other length throws and gives no address; and a span of
  \<^verbatim>\<open>std::byte\<close> gives the address of the same bytes as \<open>unsigned char\<close>.
\<close>

theorem ip_bytes_roundtrip:
  assumes "asio_ip_ok A"
  shows "(length bs = 4 \<longrightarrow> (\<exists>a b. ip_of_span A bs = Inr a \<and> is_v4 A a \<and> \<not> is_v6 A a \<and> to_v4 A a = Inr b \<and>
             ipv4_of_span A bs = Inr b \<and> ipv4_to_uchar_bytes A b = bs \<and> ipv4_to_std_bytes A b = as_bytes bs)) \<and>
         (length bs = 16 \<longrightarrow> (\<exists>a b. ip_of_span A bs = Inr a \<and> is_v6 A a \<and> \<not> is_v4 A a \<and> to_v6 A a = Inr b \<and>
             ipv6_of_span A bs = Inr b \<and> ipv6_to_uchar_bytes A b = bs \<and> ipv6_to_std_bytes A b = as_bytes bs)) \<and>
         (length bs \<notin> {4, 16} \<longleftrightarrow> ip_of_span A bs = Inl (Throw (Out_of_range ''ip_address from bytes''))) \<and>
         (length bs \<noteq> 4 \<longleftrightarrow> ipv4_of_span A bs = Inl (Throw (Out_of_range ''ipv4_address from bytes''))) \<and>
         (length bs \<noteq> 16 \<longleftrightarrow> ipv6_of_span A bs = Inl (Throw (Out_of_range ''ipv6_address from bytes''))) \<and>
         ip_of_std_span A (as_bytes bs) = ip_of_span A bs \<and>
         ipv4_of_std_span A (as_bytes bs) = ipv4_of_span A bs \<and>
         ipv6_of_std_span A (as_bytes bs) = ipv6_of_span A bs"
proof -
  have cast: "map to_uchar (as_bytes bs) = bs" and len: "length (as_bytes bs) = length bs"
    by (simp_all add: as_bytes_def comp_def)
  show ?thesis
    unfolding std_spans cast using assms list4 [of "as_bytes bs"] list16 [of "as_bytes bs"] list4 [of bs] list16 [of bs] len
    by (auto simp: asio_ip_ok_def ip_defs ipv4_of_span_def ipv6_of_span_def Let_def)
qed

text \<open>A concrete asio for the witnesses: addresses as the lists of their bytes.\<close>

definition bytes_asio :: "(byte list, byte list, byte list + byte list) asio_ip" where
  "bytes_asio = \<lparr>v4_of_bytes = id, v4_to_bytes = id, v4_of_uint = (\<lambda>u. [0, 0, 0, ucast u]),
     v4_to_uint = (\<lambda>b. ucast (hd b)), v4_make = (\<lambda>_. Inl (Throw (System_error 22))), v4_less = (\<lambda>_ _. False),
     v6_of_bytes = id, v6_to_bytes = id, v6_make = (\<lambda>_. Inl (Throw (System_error 22))),
     v6_mapped = id, v6_to_v4 = Inr, v6_less = (\<lambda>_ _. False), ip_of_v4 = Inl, ip_of_v6 = Inr,
     ip_make = (\<lambda>_. Inl (Throw (System_error 22))), ip_is_v4 = isl, ip_is_v6 = (\<lambda>a. \<not> isl a),
     ip_to_v4 = (\<lambda>a. case a of Inl b \<Rightarrow> Inr b | Inr b \<Rightarrow> Inl (Throw (System_error 22))),
     ip_to_v6 = (\<lambda>a. case a of Inr b \<Rightarrow> Inr b | Inl b \<Rightarrow> Inl (Throw (System_error 22))),
     ip_less = (\<lambda>_ _. False)\<rparr>"

lemma bytes_asio_ok: "asio_ip_ok bytes_asio"
  by (simp add: asio_ip_ok_def bytes_asio_def)

theorem ip_bytes_roundtrip_witness:
  "\<exists>a b. ip_of_span bytes_asio [127, 0, 0, 1] = Inr a \<and> to_v4 bytes_asio a = Inr b \<and>
         ipv4_to_std_bytes bytes_asio b = map Std_byte [127, 0, 0, 1]"
  using ip_bytes_roundtrip [OF bytes_asio_ok, of "[127, 0, 0, 1]"] by (auto simp: as_bytes_def)

definition strict_linear :: "('a \<Rightarrow> 'a \<Rightarrow> bool) \<Rightarrow> bool" where
  "strict_linear lt \<longleftrightarrow> (\<forall>x y. lt x y \<longrightarrow> \<not> lt y x) \<and> (\<forall>x y. lt x y \<or> x = y \<or> lt y x)"

definition swap_ordering :: "ordering \<Rightarrow> ordering" where
  "swap_ordering c = (case c of Less \<Rightarrow> Greater | Greater \<Rightarrow> Less | Equal \<Rightarrow> Equal | Unordered \<Rightarrow> Unordered)"

text \<open>
  The comparisons are total when asio's \<open><\<close> is a strict linear order: exactly one of less,
  equal and greater, equal only for the same address, and swapping the sides swaps the result;
  an \<open>ip_address\<close> is then never unordered.
\<close>

theorem ip_compare_total:
  assumes "strict_linear (v4_less A)" and "strict_linear (v6_less A)" and "strict_linear (ip_less A)"
  shows "(ipv4_compare A a b = Equal \<longleftrightarrow> a = b) \<and> ipv4_compare A a b \<noteq> Unordered \<and>
         ipv4_compare A b a = swap_ordering (ipv4_compare A a b) \<and>
         (ipv6_compare A c d = Equal \<longleftrightarrow> c = d) \<and> ipv6_compare A c d \<noteq> Unordered \<and>
         ipv6_compare A d c = swap_ordering (ipv6_compare A c d) \<and>
         (ip_compare A x y = Equal \<longleftrightarrow> x = y) \<and> ip_compare A x y \<noteq> Unordered \<and>
         ip_compare A y x = swap_ordering (ip_compare A x y)"
proof -
  note lin = assms [unfolded strict_linear_def]
  show ?thesis
    using lin by (cases a; cases b; cases c; cases d; cases x; cases y)
      (auto simp: ipv4_compare_def ipv6_compare_def ip_compare_def swap_ordering_def)
qed

theorem ip_compare_total_witness:
  "\<exists>A :: (byte, byte, byte) asio_ip. ipv4_compare A (Ipv4 1) (Ipv4 2) = Less \<and>
     ipv4_compare A (Ipv4 2) (Ipv4 1) = swap_ordering Less \<and> ip_compare A (Ip 3) (Ip 4) \<noteq> Unordered"
proof -
  obtain A :: "(byte, byte, byte) asio_ip" where "v4_less A = (<)" "v6_less A = (<)" "ip_less A = (<)"
    by (rule that [of "\<lparr>v4_of_bytes = hd, v4_to_bytes = (\<lambda>b. [b]), v4_of_uint = ucast, v4_to_uint = ucast,
       v4_make = (\<lambda>_. Inr 0), v4_less = (<), v6_of_bytes = hd, v6_to_bytes = (\<lambda>b. [b]), v6_make = (\<lambda>_. Inr 0),
       v6_mapped = id, v6_to_v4 = Inr, v6_less = (<), ip_of_v4 = id, ip_of_v6 = id, ip_make = (\<lambda>_. Inr 0),
       ip_is_v4 = (\<lambda>_. True), ip_is_v6 = (\<lambda>_. False), ip_to_v4 = Inr, ip_to_v6 = Inr, ip_less = (<)\<rparr>"]) simp_all
  moreover from this have "strict_linear (v4_less A)" "strict_linear (v6_less A)" "strict_linear (ip_less A)"
    by (auto simp: strict_linear_def)
  ultimately show ?thesis
    using ip_compare_total [of A "Ipv4 1" "Ipv4 2" _ _ "Ip 3" "Ip 4"]
    by (intro exI [of _ A]) (simp add: ipv4_compare_def)
qed

end
