(* ===== verification/Address_Overloads.thy ===== *)
theory Address_Overloads imports Ip_Address begin

text \<open>
  Which constructor of \<open>ipv4_address\<close>, \<open>ipv6_address\<close> and \<open>ip_address\<close> (include/crasy/ip_address.hpp) a call with
  one argument means: the declared constructors as data, and C++20's overload resolution for the arguments
  of interest, which are spans, arrays and containers of bytes, text, numbers and addresses. The functions the
  resolution ends in are those of \<open>Ip_Address\<close>.
\<close>

section \<open>Arguments and parameters\<close>

datatype elem = Uchar | Std_byte_elem | Char_elem

datatype address_class = Class_v4 | Class_v6 | Class_ip

text \<open>A span has elements, which may be \<^verbatim>\<open>const\<close>, and a fixed extent or none.\<close>

datatype arg =
    A_span elem bool "nat option"
  | A_array elem nat              \<comment> \<open>\<^verbatim>\<open>std::array\<close>, or an array\<close>
  | A_container elem              \<comment> \<open>\<^verbatim>\<open>std::vector\<close>, its size not a part of its type\<close>
  | A_view                        \<comment> \<open>\<^verbatim>\<open>std::string_view\<close>\<close>
  | A_text                        \<comment> \<open>\<^verbatim>\<open>std::string\<close>, \<^verbatim>\<open>const char*\<close>\<close>
  | A_uint                        \<comment> \<open>\<^verbatim>\<open>uint_least32_t\<close>\<close>
  | A_number                      \<comment> \<open>another arithmetic type\<close>
  | A_asio address_class
  | A_own address_class

datatype param = P_span elem "nat option" | P_view | P_uint | P_asio address_class | P_own address_class

record ctor =
  explicit_ctor :: bool
  ctor_param :: param

section \<open>The constructors\<close>

definition ipv4_ctors :: "ctor list" where
  "ipv4_ctors =
     [\<lparr>explicit_ctor = True, ctor_param = P_asio Class_v4\<rparr>,
      \<lparr>explicit_ctor = True, ctor_param = P_view\<rparr>,
      \<lparr>explicit_ctor = True, ctor_param = P_span Uchar None\<rparr>,
      \<lparr>explicit_ctor = True, ctor_param = P_span Uchar (Some 4)\<rparr>,
      \<lparr>explicit_ctor = True, ctor_param = P_span Std_byte_elem None\<rparr>,
      \<lparr>explicit_ctor = True, ctor_param = P_span Std_byte_elem (Some 4)\<rparr>,
      \<lparr>explicit_ctor = True, ctor_param = P_uint\<rparr>,
      \<lparr>explicit_ctor = False, ctor_param = P_own Class_v4\<rparr>]"

definition ipv6_ctors :: "ctor list" where
  "ipv6_ctors =
     [\<lparr>explicit_ctor = True, ctor_param = P_asio Class_v6\<rparr>,
      \<lparr>explicit_ctor = True, ctor_param = P_view\<rparr>,
      \<lparr>explicit_ctor = True, ctor_param = P_span Uchar None\<rparr>,
      \<lparr>explicit_ctor = True, ctor_param = P_span Uchar (Some 16)\<rparr>,
      \<lparr>explicit_ctor = True, ctor_param = P_span Std_byte_elem None\<rparr>,
      \<lparr>explicit_ctor = True, ctor_param = P_span Std_byte_elem (Some 16)\<rparr>,
      \<lparr>explicit_ctor = True, ctor_param = P_own Class_v4\<rparr>,
      \<lparr>explicit_ctor = False, ctor_param = P_own Class_v6\<rparr>]"

definition ip_ctors :: "ctor list" where
  "ip_ctors =
     [\<lparr>explicit_ctor = True, ctor_param = P_asio Class_ip\<rparr>,
      \<lparr>explicit_ctor = False, ctor_param = P_own Class_v4\<rparr>,
      \<lparr>explicit_ctor = False, ctor_param = P_own Class_v6\<rparr>,
      \<lparr>explicit_ctor = False, ctor_param = P_view\<rparr>,
      \<lparr>explicit_ctor = False, ctor_param = P_span Uchar None\<rparr>,
      \<lparr>explicit_ctor = False, ctor_param = P_span Uchar (Some 4)\<rparr>,
      \<lparr>explicit_ctor = False, ctor_param = P_span Uchar (Some 16)\<rparr>,
      \<lparr>explicit_ctor = False, ctor_param = P_span Std_byte_elem None\<rparr>,
      \<lparr>explicit_ctor = False, ctor_param = P_span Std_byte_elem (Some 4)\<rparr>,
      \<lparr>explicit_ctor = False, ctor_param = P_span Std_byte_elem (Some 16)\<rparr>,
      \<lparr>explicit_ctor = False, ctor_param = P_uint\<rparr>,
      \<lparr>explicit_ctor = False, ctor_param = P_own Class_ip\<rparr>]"

section \<open>Overload resolution\<close>

text \<open>
  The implicit conversion an argument needs: none (0), a standard conversion (1) or one by a user-defined
  constructor (2). A span without an extent converts to one with an extent only explicitly, a container likewise. The
  conversions that would go through a second constructor of an address are left out: C++ does not
  combine two.
\<close>

fun conversion :: "arg \<Rightarrow> param \<Rightarrow> nat option" where
  "conversion (A_span e const x) (P_span f y) =
     (if e \<noteq> f then None
      else if x = y then Some (if const then 0 else 2)
      else if y = None then Some 2 else None)"
| "conversion (A_array e n) (P_span f y) = (if e = f \<and> (y = None \<or> y = Some n) then Some 2 else None)"
| "conversion (A_container e) (P_span f y) = (if e = f \<and> y = None then Some 2 else None)"
| "conversion A_view P_view = Some 0"
| "conversion A_text P_view = Some 2"
| "conversion A_uint P_uint = Some 0"
| "conversion A_number P_uint = Some 1"
| "conversion (A_asio c) (P_asio d) = (if c = d then Some 0 else None)"
| "conversion (A_own c) (P_own d) = (if c = d then Some 0 else None)"
| "conversion _ _ = None"

datatype choice = No_constructor | Ambiguous | Picks param

text \<open>The viable constructor whose conversion is better than that of every other one.\<close>

definition viable :: "ctor list \<Rightarrow> arg \<Rightarrow> (nat \<times> param) list" where
  "viable cs a = List.map_filter (\<lambda>c. map_option (\<lambda>r. (r, ctor_param c)) (conversion a (ctor_param c))) cs"

definition best :: "(nat \<times> param) list \<Rightarrow> choice" where
  "best vs =
     (if vs = [] then No_constructor
      else case filter (\<lambda>v. list_all (\<lambda>w. fst v \<le> fst w) vs) vs of [v] \<Rightarrow> Picks (snd v) | _ \<Rightarrow> Ambiguous)"

text \<open>Direct initialisation considers every constructor, copy initialisation the ones that are not \<^verbatim>\<open>explicit\<close>.\<close>

definition direct :: "ctor list \<Rightarrow> arg \<Rightarrow> choice" where
  "direct cs a = best (viable cs a)"

definition implicit :: "ctor list \<Rightarrow> arg \<Rightarrow> choice" where
  "implicit cs a = best (viable (filter (\<lambda>c. \<not> explicit_ctor c) cs) a)"

definition is_byte :: "elem \<Rightarrow> bool" where
  "is_byte e \<longleftrightarrow> e = Uchar \<or> e = Std_byte_elem"

lemmas ctor_defs = ipv4_ctors_def ipv6_ctors_def ip_ctors_def
lemmas resolution = direct_def implicit_def viable_def best_def List.map_filter_def is_byte_def

section \<open>Properties\<close>

lemma span_choice:
  assumes "is_byte e"
  shows "direct ipv4_ctors (A_span e True x) = Picks (P_span e (if x = Some 4 then x else None))"
    and "direct ipv6_ctors (A_span e True x) = Picks (P_span e (if x = Some 16 then x else None))"
    and "implicit ip_ctors (A_span e True x) = Picks (P_span e (if x = Some 4 \<or> x = Some 16 then x else None))"
proof -
  have "e = Uchar \<or> e = Std_byte_elem" using assms by (simp add: is_byte_def)
  moreover have "x = None \<or> x = Some 4 \<or> x = Some 16 \<or> (\<exists>n. x = Some n \<and> n \<noteq> 4 \<and> n \<noteq> 16)" by (cases x) auto
  ultimately show "direct ipv4_ctors (A_span e True x) = Picks (P_span e (if x = Some 4 then x else None))"
    and "direct ipv6_ctors (A_span e True x) = Picks (P_span e (if x = Some 16 then x else None))"
    and "implicit ip_ctors (A_span e True x) = Picks (P_span e (if x = Some 4 \<or> x = Some 16 then x else None))"
    by (elim disjE exE conjE; simp add: ctor_defs resolution)+
qed

lemma other_choice:
  "direct ipv4_ctors A_text = Picks P_view" "direct ipv6_ctors A_text = Picks P_view" "implicit ip_ctors A_text = Picks P_view"
  "direct ipv4_ctors A_number = Picks P_uint" "implicit ip_ctors A_number = Picks P_uint"
  "implicit ip_ctors (A_own v) = Picks (P_own v)" "implicit ip_ctors (A_asio v) = No_constructor"
  by (cases v; simp add: ctor_defs resolution)+

text \<open>
  Spans with \<^verbatim>\<open>const\<close> elements, text, numbers and addresses select the constructor made for them, those of an
  \<open>ip_address\<close> without being asked, but for asio's address.
\<close>

theorem constructors_selected:
  assumes "is_byte e"
  shows "direct ipv4_ctors (A_span e True (Some 4)) = Picks (P_span e (Some 4)) \<and>
         direct ipv6_ctors (A_span e True (Some 16)) = Picks (P_span e (Some 16)) \<and>
         (\<forall>x. implicit ip_ctors (A_span e True x) = Picks (P_span e (if x = Some 4 \<or> x = Some 16 then x else None))) \<and>
         implicit ip_ctors A_text = Picks P_view \<and> implicit ip_ctors A_number = Picks P_uint \<and>
         (\<forall>v. implicit ip_ctors (A_own v) = Picks (P_own v) \<and> implicit ip_ctors (A_asio v) = No_constructor)"
  using assms by (simp add: span_choice other_choice)

theorem constructors_selected_witness: "implicit ip_ctors (A_span Uchar True (Some 16)) = Picks (P_span Uchar (Some 16))"
  using constructors_selected [of Uchar] by (simp add: is_byte_def)

text \<open>\<open>ipv4_address(bytes)\<close> for an array: \<open>None\<close> if it does not compile.\<close>

definition ipv4_from_array :: "('v4, 'v6, 'ip) asio_ip \<Rightarrow> byte list \<Rightarrow> (fault + 'v4 ipv4_address) option" where
  "ipv4_from_array A bytes =
     (case direct ipv4_ctors (A_array Uchar (length bytes)) of
        Picks (P_span e None) \<Rightarrow> Some (ipv4_of_span A bytes)
      | Picks (P_span e (Some n)) \<Rightarrow> Some (Inr (ipv4_of_array A bytes))
      | _ \<Rightarrow> None)"

definition ipv6_from_array :: "('v4, 'v6, 'ip) asio_ip \<Rightarrow> byte list \<Rightarrow> (fault + 'v6 ipv6_address) option" where
  "ipv6_from_array A bytes =
     (case direct ipv6_ctors (A_array Uchar (length bytes)) of
        Picks (P_span e None) \<Rightarrow> Some (ipv6_of_span A bytes)
      | Picks (P_span e (Some n)) \<Rightarrow> Some (Inr (ipv6_of_array A bytes))
      | _ \<Rightarrow> None)"

definition ip_from_array :: "('v4, 'v6, 'ip) asio_ip \<Rightarrow> byte list \<Rightarrow> (fault + 'ip ip_address) option" where
  "ip_from_array A bytes =
     (case implicit ip_ctors (A_array Uchar (length bytes)) of
        Picks (P_span e None) \<Rightarrow> Some (ip_of_span A bytes)
      | Picks (P_span e (Some n)) \<Rightarrow> Some (Inr (if n = 4 then ip_of_array4 A bytes else ip_of_array16 A bytes))
      | _ \<Rightarrow> None)"

lemma array_choice:
  assumes "is_byte e"
  shows "direct ipv4_ctors (A_array e n) = (if n = 4 then Ambiguous else Picks (P_span e None))"
    and "direct ipv6_ctors (A_array e n) = (if n = 16 then Ambiguous else Picks (P_span e None))"
    and "implicit ip_ctors (A_array e n) = (if n = 4 \<or> n = 16 then Ambiguous else Picks (P_span e None))"
proof -
  have "e = Uchar \<or> e = Std_byte_elem" using assms by (simp add: is_byte_def)
  then show "direct ipv4_ctors (A_array e n) = (if n = 4 then Ambiguous else Picks (P_span e None))"
    and "direct ipv6_ctors (A_array e n) = (if n = 16 then Ambiguous else Picks (P_span e None))"
    and "implicit ip_ctors (A_array e n) = (if n = 4 \<or> n = 16 then Ambiguous else Picks (P_span e None))"
    by (elim disjE; simp add: ctor_defs resolution)+
qed

text \<open>
  An array of bytes of just the right length cannot be given to a constructor: it converts to the span with
  that extent and to the span without one, and neither conversion is better. With every other length it
  converts to the span without an extent, and the constructor throws. So no array makes an address, not even the one
  that \<open>to_uchar_bytes\<close> of another address returns.
\<close>

theorem no_array_makes_an_address:
  "(ipv4_from_array A bs = None \<or> (\<exists>f. ipv4_from_array A bs = Some (Inl f))) \<and>
   (ipv6_from_array A bs = None \<or> (\<exists>f. ipv6_from_array A bs = Some (Inl f))) \<and>
   (ip_from_array A bs = None \<or> (\<exists>f. ip_from_array A bs = Some (Inl f)))"
  by (auto simp: ipv4_from_array_def ipv6_from_array_def ip_from_array_def array_choice is_byte_def
      ipv4_of_span_def ipv6_of_span_def ip_of_span_def)

end
