(* ===== verification/Ip_Queries.thy ===== *)
theory Ip_Queries imports Ip_Address begin

text \<open>
  The rest of the address classes (src/ip_address.cpp): the constants, the predicates, the scope
  of an IPv6 address, text, and the literals. They hand asio's answers on; \<open>asio_queries\<close>
  adds the asio functions they call to those of \<open>Ip_Address\<close>.
\<close>

record ('v4, 'v6, 'ip) asio_queries = "('v4, 'v6, 'ip) asio_ip" +
  v4_is_loopback :: "'v4 \<Rightarrow> bool"
  v4_is_multicast :: "'v4 \<Rightarrow> bool"
  v4_is_unspecified :: "'v4 \<Rightarrow> bool"
  v6_is_link_local :: "'v6 \<Rightarrow> bool"
  v6_is_loopback :: "'v6 \<Rightarrow> bool"
  v6_is_multicast :: "'v6 \<Rightarrow> bool"
  v6_is_multicast_global :: "'v6 \<Rightarrow> bool"
  v6_is_multicast_link_local :: "'v6 \<Rightarrow> bool"
  v6_is_multicast_node_local :: "'v6 \<Rightarrow> bool"
  v6_is_multicast_org_local :: "'v6 \<Rightarrow> bool"
  v6_is_multicast_site_local :: "'v6 \<Rightarrow> bool"
  v6_is_site_local :: "'v6 \<Rightarrow> bool"
  v6_is_unspecified :: "'v6 \<Rightarrow> bool"
  v6_is_v4_compatible :: "'v6 \<Rightarrow> bool"
  v6_is_v4_mapped :: "'v6 \<Rightarrow> bool"
  ip_is_loopback :: "'ip \<Rightarrow> bool"
  ip_is_multicast :: "'ip \<Rightarrow> bool"
  ip_is_unspecified :: "'ip \<Rightarrow> bool"
  v4_any :: 'v4
  v4_loopback :: 'v4
  v4_broadcast :: 'v4
  v6_any :: 'v6
  v6_loopback :: 'v6
  v6_scope_id :: "'v6 \<Rightarrow> 32 word"
  v6_set_scope_id :: "32 word \<Rightarrow> 'v6 \<Rightarrow> 'v6"
  v4_show :: "'v4 \<Rightarrow> string"
  v6_show :: "'v6 \<Rightarrow> string"
  ip_show :: "'ip \<Rightarrow> string"

section \<open>ipv4_address\<close>

definition ipv4_any :: "('v4, 'v6, 'ip) asio_queries \<Rightarrow> 'v4 ipv4_address" where
  "ipv4_any A = Ipv4 (v4_any A)"

definition ipv4_loopback :: "('v4, 'v6, 'ip) asio_queries \<Rightarrow> 'v4 ipv4_address" where
  "ipv4_loopback A = Ipv4 (v4_loopback A)"

definition ipv4_broadcast :: "('v4, 'v6, 'ip) asio_queries \<Rightarrow> 'v4 ipv4_address" where
  "ipv4_broadcast A = Ipv4 (v4_broadcast A)"

definition ipv4_is_loopback :: "('v4, 'v6, 'ip) asio_queries \<Rightarrow> 'v4 ipv4_address \<Rightarrow> bool" where
  "ipv4_is_loopback A a = v4_is_loopback A (v4_addr a)"

definition ipv4_is_multicast :: "('v4, 'v6, 'ip) asio_queries \<Rightarrow> 'v4 ipv4_address \<Rightarrow> bool" where
  "ipv4_is_multicast A a = v4_is_multicast A (v4_addr a)"

definition ipv4_is_unspecified :: "('v4, 'v6, 'ip) asio_queries \<Rightarrow> 'v4 ipv4_address \<Rightarrow> bool" where
  "ipv4_is_unspecified A a = v4_is_unspecified A (v4_addr a)"

definition ipv4_to_string :: "('v4, 'v6, 'ip) asio_queries \<Rightarrow> 'v4 ipv4_address \<Rightarrow> string" where
  "ipv4_to_string A a = v4_show A (v4_addr a)"

section \<open>ipv6_address\<close>

definition ipv6_any :: "('v4, 'v6, 'ip) asio_queries \<Rightarrow> 'v6 ipv6_address" where
  "ipv6_any A = Ipv6 (v6_any A)"

definition ipv6_loopback :: "('v4, 'v6, 'ip) asio_queries \<Rightarrow> 'v6 ipv6_address" where
  "ipv6_loopback A = Ipv6 (v6_loopback A)"

definition ipv6_is_link_local :: "('v4, 'v6, 'ip) asio_queries \<Rightarrow> 'v6 ipv6_address \<Rightarrow> bool" where
  "ipv6_is_link_local A a = v6_is_link_local A (v6_addr a)"

definition ipv6_is_loopback :: "('v4, 'v6, 'ip) asio_queries \<Rightarrow> 'v6 ipv6_address \<Rightarrow> bool" where
  "ipv6_is_loopback A a = v6_is_loopback A (v6_addr a)"

definition ipv6_is_multicast :: "('v4, 'v6, 'ip) asio_queries \<Rightarrow> 'v6 ipv6_address \<Rightarrow> bool" where
  "ipv6_is_multicast A a = v6_is_multicast A (v6_addr a)"

definition ipv6_is_multicast_global :: "('v4, 'v6, 'ip) asio_queries \<Rightarrow> 'v6 ipv6_address \<Rightarrow> bool" where
  "ipv6_is_multicast_global A a = v6_is_multicast_global A (v6_addr a)"

definition ipv6_is_multicast_link_local :: "('v4, 'v6, 'ip) asio_queries \<Rightarrow> 'v6 ipv6_address \<Rightarrow> bool" where
  "ipv6_is_multicast_link_local A a = v6_is_multicast_link_local A (v6_addr a)"

definition ipv6_is_multicast_node_local :: "('v4, 'v6, 'ip) asio_queries \<Rightarrow> 'v6 ipv6_address \<Rightarrow> bool" where
  "ipv6_is_multicast_node_local A a = v6_is_multicast_node_local A (v6_addr a)"

definition ipv6_is_multicast_org_local :: "('v4, 'v6, 'ip) asio_queries \<Rightarrow> 'v6 ipv6_address \<Rightarrow> bool" where
  "ipv6_is_multicast_org_local A a = v6_is_multicast_org_local A (v6_addr a)"

definition ipv6_is_multicast_site_local :: "('v4, 'v6, 'ip) asio_queries \<Rightarrow> 'v6 ipv6_address \<Rightarrow> bool" where
  "ipv6_is_multicast_site_local A a = v6_is_multicast_site_local A (v6_addr a)"

definition ipv6_is_site_local :: "('v4, 'v6, 'ip) asio_queries \<Rightarrow> 'v6 ipv6_address \<Rightarrow> bool" where
  "ipv6_is_site_local A a = v6_is_site_local A (v6_addr a)"

definition ipv6_is_unspecified :: "('v4, 'v6, 'ip) asio_queries \<Rightarrow> 'v6 ipv6_address \<Rightarrow> bool" where
  "ipv6_is_unspecified A a = v6_is_unspecified A (v6_addr a)"

definition ipv6_is_v4_compatible :: "('v4, 'v6, 'ip) asio_queries \<Rightarrow> 'v6 ipv6_address \<Rightarrow> bool" where
  "ipv6_is_v4_compatible A a = v6_is_v4_compatible A (v6_addr a)"

definition ipv6_is_v4_mapped :: "('v4, 'v6, 'ip) asio_queries \<Rightarrow> 'v6 ipv6_address \<Rightarrow> bool" where
  "ipv6_is_v4_mapped A a = v6_is_v4_mapped A (v6_addr a)"

definition ipv6_scope_id :: "('v4, 'v6, 'ip) asio_queries \<Rightarrow> 'v6 ipv6_address \<Rightarrow> 32 word" where
  "ipv6_scope_id A a = v6_scope_id A (v6_addr a)"

definition ipv6_set_scope_id :: "('v4, 'v6, 'ip) asio_queries \<Rightarrow> 32 word \<Rightarrow> 'v6 ipv6_address \<Rightarrow> 'v6 ipv6_address" where
  "ipv6_set_scope_id A scope a = Ipv6 (v6_set_scope_id A scope (v6_addr a))"

definition ipv6_to_string :: "('v4, 'v6, 'ip) asio_queries \<Rightarrow> 'v6 ipv6_address \<Rightarrow> string" where
  "ipv6_to_string A a = v6_show A (v6_addr a)"

section \<open>ip_address\<close>

definition is_loopback :: "('v4, 'v6, 'ip) asio_queries \<Rightarrow> 'ip ip_address \<Rightarrow> bool" where
  "is_loopback A a = ip_is_loopback A (ip_addr a)"

definition is_multicast :: "('v4, 'v6, 'ip) asio_queries \<Rightarrow> 'ip ip_address \<Rightarrow> bool" where
  "is_multicast A a = ip_is_multicast A (ip_addr a)"

definition is_unspecified :: "('v4, 'v6, 'ip) asio_queries \<Rightarrow> 'ip ip_address \<Rightarrow> bool" where
  "is_unspecified A a = ip_is_unspecified A (ip_addr a)"

definition ip_to_string :: "('v4, 'v6, 'ip) asio_queries \<Rightarrow> 'ip ip_address \<Rightarrow> string" where
  "ip_to_string A a = ip_show A (ip_addr a)"

section \<open>Literals\<close>

definition literal_ip :: "('v4, 'v6, 'ip, 'x) asio_ip_scheme \<Rightarrow> string \<Rightarrow> fault + 'ip ip_address" where
  "literal_ip A s = ip_of_string (asio_ip.truncate A) s"

definition literal_ipv4 :: "('v4, 'v6, 'ip, 'x) asio_ip_scheme \<Rightarrow> string \<Rightarrow> fault + 'v4 ipv4_address" where
  "literal_ipv4 A s = ipv4_of_string (asio_ip.truncate A) s"

definition literal_ipv6 :: "('v4, 'v6, 'ip, 'x) asio_ip_scheme \<Rightarrow> string \<Rightarrow> fault + 'v6 ipv6_address" where
  "literal_ipv6 A s = ipv6_of_string (asio_ip.truncate A) s"

section \<open>Properties\<close>

text \<open>
  What asio documents of text and of the queries: printing and parsing are inverse, the text of an
  IPv4 or IPv6 address is also that of the address it is converted to, and the queries of
  \<^verbatim>\<open>asio::ip::address\<close> are those of the version it holds.
\<close>

definition asio_text_ok :: "('v4, 'v6, 'ip) asio_queries \<Rightarrow> bool" where
  "asio_text_ok A \<longleftrightarrow>
     (\<forall>a. v4_make A (v4_show A a) = Inr a) \<and> (\<forall>a. v6_make A (v6_show A a) = Inr a) \<and>
     (\<forall>a. ip_make A (ip_show A a) = Inr a) \<and>
     (\<forall>a. ip_show A (ip_of_v4 A a) = v4_show A a) \<and> (\<forall>a. ip_show A (ip_of_v6 A a) = v6_show A a)"

definition asio_queries_ok :: "('v4, 'v6, 'ip) asio_queries \<Rightarrow> bool" where
  "asio_queries_ok A \<longleftrightarrow>
     (\<forall>a. ip_is_loopback A (ip_of_v4 A a) = v4_is_loopback A a \<and>
          ip_is_multicast A (ip_of_v4 A a) = v4_is_multicast A a \<and>
          ip_is_unspecified A (ip_of_v4 A a) = v4_is_unspecified A a) \<and>
     (\<forall>a. ip_is_loopback A (ip_of_v6 A a) = v6_is_loopback A a \<and>
          ip_is_multicast A (ip_of_v6 A a) = v6_is_multicast A a \<and>
          ip_is_unspecified A (ip_of_v6 A a) = v6_is_unspecified A a)"

text \<open>
  Text round trips through the address classes: printing an address and reading it with the
  class or its literal gives the address back; an IPv4 or IPv6 address that is converted to an
  \<open>ip_address\<close> keeps its text, so it can also be read back from there; and the converted address
  answers the common queries as the original does.
\<close>

theorem ip_text_roundtrip:
  assumes "asio_text_ok A" and "asio_queries_ok A"
  shows "literal_ipv4 A (ipv4_to_string A a) = Inr a \<and> literal_ipv6 A (ipv6_to_string A b) = Inr b \<and>
    literal_ip A (ip_to_string A c) = Inr c \<and>
    literal_ip A (ipv4_to_string A a) = Inr (ip_of_ipv4 (asio_ip.truncate A) a) \<and>
    literal_ip A (ipv6_to_string A b) = Inr (ip_of_ipv6 (asio_ip.truncate A) b) \<and>
    (let a' = ip_of_ipv4 (asio_ip.truncate A) a; b' = ip_of_ipv6 (asio_ip.truncate A) b
     in (is_loopback A a' = ipv4_is_loopback A a \<and> is_multicast A a' = ipv4_is_multicast A a \<and>
         is_unspecified A a' = ipv4_is_unspecified A a) \<and>
        (is_loopback A b' = ipv6_is_loopback A b \<and> is_multicast A b' = ipv6_is_multicast A b \<and>
         is_unspecified A b' = ipv6_is_unspecified A b))"
proof -
  have eta: "Ipv4 (v4_addr a) = a" "Ipv6 (v6_addr b) = b" "Ip (ip_addr c) = c" by simp_all
  from assms(1) have "ip_make A (v4_show A x) = Inr (ip_of_v4 A x)" "ip_make A (v6_show A y) = Inr (ip_of_v6 A y)"
    for x y unfolding asio_text_ok_def by metis+
  with assms eta show ?thesis
    by (simp add: asio_text_ok_def asio_queries_ok_def literal_ip_def literal_ipv4_def literal_ipv6_def
        ip_of_string_def ipv4_of_string_def ipv6_of_string_def ip_of_ipv4_def ip_of_ipv6_def asio_ip.defs
        ipv4_to_string_def ipv6_to_string_def ip_to_string_def is_loopback_def is_multicast_def is_unspecified_def
        ipv4_is_loopback_def ipv4_is_multicast_def ipv4_is_unspecified_def
        ipv6_is_loopback_def ipv6_is_multicast_def ipv6_is_unspecified_def)
qed

text \<open>A concrete asio for the witness: addresses as texts, printed behind a digit for the version.\<close>

definition text_asio :: "(string, string, string + string) asio_queries" where
  "text_asio = \<lparr>v4_of_bytes = (\<lambda>_. []), v4_to_bytes = (\<lambda>_. []), v4_of_uint = (\<lambda>_. []), v4_to_uint = (\<lambda>_. 0),
     v4_make = (\<lambda>t. case t of [] \<Rightarrow> Inl (Throw (System_error 22)) | _ # a \<Rightarrow> Inr a), v4_less = (\<lambda>_ _. False),
     v6_of_bytes = (\<lambda>_. []), v6_to_bytes = (\<lambda>_. []),
     v6_make = (\<lambda>t. case t of [] \<Rightarrow> Inl (Throw (System_error 22)) | _ # a \<Rightarrow> Inr a),
     v6_mapped = id, v6_to_v4 = Inr, v6_less = (\<lambda>_ _. False), ip_of_v4 = Inl, ip_of_v6 = Inr,
     ip_make = (\<lambda>t. case t of [] \<Rightarrow> Inl (Throw (System_error 22))
                | c # a \<Rightarrow> Inr (if c = CHR ''4'' then Inl a else Inr a)),
     ip_is_v4 = isl, ip_is_v6 = (\<lambda>a. \<not> isl a), ip_to_v4 = case_sum Inr (\<lambda>_. Inl (Throw (System_error 22))),
     ip_to_v6 = case_sum (\<lambda>_. Inl (Throw (System_error 22))) Inr, ip_less = (\<lambda>_ _. False),
     v4_is_loopback = (\<lambda>a. a = ''1''), v4_is_multicast = (\<lambda>_. False),
     v4_is_unspecified = (\<lambda>a. a = ''0''), v6_is_link_local = (\<lambda>_. False),
     v6_is_loopback = (\<lambda>a. a = ''1''), v6_is_multicast = (\<lambda>_. False),
     v6_is_multicast_global = (\<lambda>_. False), v6_is_multicast_link_local = (\<lambda>_. False),
     v6_is_multicast_node_local = (\<lambda>_. False), v6_is_multicast_org_local = (\<lambda>_. False),
     v6_is_multicast_site_local = (\<lambda>_. False), v6_is_site_local = (\<lambda>_. False),
     v6_is_unspecified = (\<lambda>a. a = ''0''), v6_is_v4_compatible = (\<lambda>_. False),
     v6_is_v4_mapped = (\<lambda>_. False), ip_is_loopback = case_sum (\<lambda>a. a = ''1'') (\<lambda>a. a = ''1''),
     ip_is_multicast = (\<lambda>_. False), ip_is_unspecified = case_sum (\<lambda>a. a = ''0'') (\<lambda>a. a = ''0''),
     v4_any = ''0'', v4_loopback = ''1'',
     v4_broadcast = ''2'', v6_any = ''0'',
     v6_loopback = ''1'', v6_scope_id = (\<lambda>_. 0),
     v6_set_scope_id = (\<lambda>_ a. a), v4_show = (\<lambda>a. CHR ''4'' # a),
     v6_show = (\<lambda>a. CHR ''6'' # a), ip_show = case_sum (\<lambda>a. CHR ''4'' # a) (\<lambda>a. CHR ''6'' # a)\<rparr>"

theorem ip_text_roundtrip_witness:
  "literal_ip text_asio (ipv4_to_string text_asio (Ipv4 ''1'')) = Inr (Ip (Inl ''1'')) \<and>
   is_loopback text_asio (Ip (Inl ''1''))"
proof -
  have "asio_text_ok text_asio" by (auto simp: asio_text_ok_def text_asio_def split: sum.splits)
  moreover have "asio_queries_ok text_asio" by (simp add: asio_queries_ok_def text_asio_def)
  ultimately have "literal_ip text_asio (ipv4_to_string text_asio (Ipv4 ''1'')) =
      Inr (ip_of_ipv4 (asio_ip.truncate text_asio) (Ipv4 ''1''))"
    and "is_loopback text_asio (ip_of_ipv4 (asio_ip.truncate text_asio) (Ipv4 ''1'')) =
      ipv4_is_loopback text_asio (Ipv4 ''1'')"
    using ip_text_roundtrip [of text_asio "Ipv4 ''1''"] by (auto simp: Let_def)
  then show ?thesis by (simp add: ip_of_ipv4_def asio_ip.defs text_asio_def ipv4_is_loopback_def)
qed

end
