(* ===== verification/Ip_Conversions.thy ===== *)
theory Ip_Conversions imports Ip_Queries begin

text \<open>
  What is left of the address classes (src/ip_address.cpp): their conversion operators, which call the
  named members, the way to asio's addresses and back, and stream output, which is asio's and appends the
  address's text to the stream; and the members of \<open>endpoint\<close> (include/crasy/endpoint.hpp).
\<close>

section \<open>ipv4_address\<close>

definition ipv4_of_asio :: "'v4 \<Rightarrow> 'v4 ipv4_address" where "ipv4_of_asio addr = Ipv4 addr"

definition ipv4_asio_address :: "'v4 ipv4_address \<Rightarrow> 'v4" where "ipv4_asio_address this = v4_addr this"

text \<open>The reference that the non-const member returns, assigned to.\<close>

definition ipv4_set_asio_address :: "'v4 \<Rightarrow> 'v4 ipv4_address \<Rightarrow> 'v4 ipv4_address" where
  "ipv4_set_asio_address addr this = (case this of Ipv4 _ \<Rightarrow> Ipv4 addr)"

definition ipv4_as_uchar_array :: "('v4, 'v6, 'ip) asio_queries \<Rightarrow> 'v4 ipv4_address \<Rightarrow> byte list" where
  "ipv4_as_uchar_array A this = ipv4_to_uchar_bytes (asio_ip.truncate A) this"

definition ipv4_as_std_array :: "('v4, 'v6, 'ip) asio_queries \<Rightarrow> 'v4 ipv4_address \<Rightarrow> std_byte list" where
  "ipv4_as_std_array A this = ipv4_to_std_bytes (asio_ip.truncate A) this"

definition ipv4_as_string :: "('v4, 'v6, 'ip) asio_queries \<Rightarrow> 'v4 ipv4_address \<Rightarrow> string" where
  "ipv4_as_string A this = ipv4_to_string A this"

definition ipv4_as_uint :: "('v4, 'v6, 'ip) asio_queries \<Rightarrow> 'v4 ipv4_address \<Rightarrow> 32 word" where
  "ipv4_as_uint A this = ipv4_to_uint (asio_ip.truncate A) this"

definition ipv4_print :: "('v4, 'v6, 'ip) asio_queries \<Rightarrow> string \<Rightarrow> 'v4 ipv4_address \<Rightarrow> string" where
  "ipv4_print A os addr = os @ v4_show A (ipv4_asio_address addr)"

section \<open>ipv6_address\<close>

definition ipv6_of_asio :: "'v6 \<Rightarrow> 'v6 ipv6_address" where "ipv6_of_asio addr = Ipv6 addr"

definition ipv6_asio_address :: "'v6 ipv6_address \<Rightarrow> 'v6" where "ipv6_asio_address this = v6_addr this"

definition ipv6_set_asio_address :: "'v6 \<Rightarrow> 'v6 ipv6_address \<Rightarrow> 'v6 ipv6_address" where
  "ipv6_set_asio_address addr this = (case this of Ipv6 _ \<Rightarrow> Ipv6 addr)"

definition ipv6_as_uchar_array :: "('v4, 'v6, 'ip) asio_queries \<Rightarrow> 'v6 ipv6_address \<Rightarrow> byte list" where
  "ipv6_as_uchar_array A this = ipv6_to_uchar_bytes (asio_ip.truncate A) this"

definition ipv6_as_std_array :: "('v4, 'v6, 'ip) asio_queries \<Rightarrow> 'v6 ipv6_address \<Rightarrow> std_byte list" where
  "ipv6_as_std_array A this = ipv6_to_std_bytes (asio_ip.truncate A) this"

definition ipv6_as_string :: "('v4, 'v6, 'ip) asio_queries \<Rightarrow> 'v6 ipv6_address \<Rightarrow> string" where
  "ipv6_as_string A this = ipv6_to_string A this"

definition ipv6_as_ipv4 :: "('v4, 'v6, 'ip) asio_queries \<Rightarrow> 'v6 ipv6_address \<Rightarrow> fault + 'v4 ipv4_address" where
  "ipv6_as_ipv4 A this = ipv6_to_v4 (asio_ip.truncate A) this"

definition ipv6_print :: "('v4, 'v6, 'ip) asio_queries \<Rightarrow> string \<Rightarrow> 'v6 ipv6_address \<Rightarrow> string" where
  "ipv6_print A os addr = os @ v6_show A (ipv6_asio_address addr)"

section \<open>ip_address\<close>

definition ip_of_asio :: "'ip \<Rightarrow> 'ip ip_address" where "ip_of_asio addr = Ip addr"

definition ip_asio_address :: "'ip ip_address \<Rightarrow> 'ip" where "ip_asio_address this = ip_addr this"

definition ip_set_asio_address :: "'ip \<Rightarrow> 'ip ip_address \<Rightarrow> 'ip ip_address" where
  "ip_set_asio_address addr this = (case this of Ip _ \<Rightarrow> Ip addr)"

definition ip_as_string :: "('v4, 'v6, 'ip) asio_queries \<Rightarrow> 'ip ip_address \<Rightarrow> string" where
  "ip_as_string A this = ip_to_string A this"

definition ip_as_ipv4 :: "('v4, 'v6, 'ip) asio_queries \<Rightarrow> 'ip ip_address \<Rightarrow> fault + 'v4 ipv4_address" where
  "ip_as_ipv4 A this = to_v4 (asio_ip.truncate A) this"

definition ip_as_ipv6 :: "('v4, 'v6, 'ip) asio_queries \<Rightarrow> 'ip ip_address \<Rightarrow> fault + 'v6 ipv6_address" where
  "ip_as_ipv6 A this = to_v6 (asio_ip.truncate A) this"

definition ip_print :: "('v4, 'v6, 'ip) asio_queries \<Rightarrow> string \<Rightarrow> 'ip ip_address \<Rightarrow> string" where
  "ip_print A os addr = os @ ip_show A (ip_asio_address addr)"

section \<open>endpoint\<close>

definition endpoint_default :: "'ip \<Rightarrow> 'ip endpoint" where
  "endpoint_default unspecified = endpoint_ctor (ip_of_asio unspecified) 0"

definition endpoint_address :: "'ip endpoint \<Rightarrow> 'ip ip_address" where "endpoint_address this = ep_addr this"

definition endpoint_port :: "'ip endpoint \<Rightarrow> 16 word" where "endpoint_port this = ep_port this"

definition endpoint_set_address :: "'ip ip_address \<Rightarrow> 'ip endpoint \<Rightarrow> 'ip endpoint" where
  "endpoint_set_address addr this = this\<lparr>ep_addr := addr\<rparr>"

definition endpoint_set_port :: "16 word \<Rightarrow> 'ip endpoint \<Rightarrow> 'ip endpoint" where
  "endpoint_set_port port this = this\<lparr>ep_port := port\<rparr>"

section \<open>Properties\<close>

text \<open>
  An endpoint is a pair: its two references write one part each, and writing both, in either order, is
  constructing it anew.
\<close>

theorem endpoint_is_pair:
  "endpoint_address (endpoint_set_address a e) = a \<and> endpoint_port (endpoint_set_address a e) = endpoint_port e \<and>
   endpoint_port (endpoint_set_port p e) = p \<and> endpoint_address (endpoint_set_port p e) = endpoint_address e \<and>
   endpoint_set_port p (endpoint_set_address a e) = endpoint_ctor a p \<and>
   endpoint_set_address a (endpoint_set_port p (endpoint_default u)) = endpoint_ctor a p"
  by (cases e) (simp add: endpoint_address_def endpoint_port_def endpoint_set_address_def endpoint_set_port_def
      endpoint_ctor_def endpoint_default_def)

text \<open>
  The addresses hold asio's, unchanged and replaceable.
\<close>

theorem addresses_wrap_asio:
  "ipv4_asio_address (ipv4_of_asio a) = a \<and> ipv4_of_asio (ipv4_asio_address x) = x \<and>
   ipv4_set_asio_address a x = ipv4_of_asio a \<and>
   ipv6_asio_address (ipv6_of_asio b) = b \<and> ipv6_of_asio (ipv6_asio_address y) = y \<and>
   ipv6_set_asio_address b y = ipv6_of_asio b \<and>
   ip_asio_address (ip_of_asio c) = c \<and> ip_of_asio (ip_asio_address z) = z \<and>
   ip_set_asio_address c z = ip_of_asio c"
  by (cases x; cases y; cases z)
    (simp add: ipv4_asio_address_def ipv4_of_asio_def ipv4_set_asio_address_def ipv6_asio_address_def ipv6_of_asio_def
      ipv6_set_asio_address_def ip_asio_address_def ip_of_asio_def ip_set_asio_address_def)

lemma prints_text:
  "ipv4_print A os x = os @ ipv4_as_string A x" "ipv6_print A os y = os @ ipv6_as_string A y"
  "ip_print A os z = os @ ip_as_string A z"
  by (simp_all add: ipv4_print_def ipv4_as_string_def ipv4_to_string_def ipv4_asio_address_def ipv6_print_def
      ipv6_as_string_def ipv6_to_string_def ipv6_asio_address_def ip_print_def ip_as_string_def ip_to_string_def
      ip_asio_address_def)

text \<open>What is printed of an address after anything else is its text, and reads back as the address.\<close>

theorem printed_reads_back:
  assumes "asio_text_ok A"
  shows "ipv4_print A os x = os @ ipv4_as_string A x \<and> literal_ipv4 A (ipv4_as_string A x) = Inr x \<and>
         ipv6_print A os y = os @ ipv6_as_string A y \<and> literal_ipv6 A (ipv6_as_string A y) = Inr y \<and>
         ip_print A os z = os @ ip_as_string A z \<and> literal_ip A (ip_as_string A z) = Inr z"
  using assms unfolding prints_text
  by (cases x; cases y; cases z)
    (simp add: asio_text_ok_def ipv4_as_string_def ipv4_to_string_def ipv6_as_string_def ipv6_to_string_def
      ip_as_string_def ip_to_string_def literal_ip_def literal_ipv4_def literal_ipv6_def ip_of_string_def
      ipv4_of_string_def ipv6_of_string_def asio_ip.defs)

end
