(* ===== verification/Io_Future.thy ===== *)
theory Io_Future imports Wake_Interface Crasy_Result begin

text \<open>
  \<open>detail::io_future\<close> (include/crasy/io_future.hpp, src/io_future.cpp), the completion event of
  the socket and resolver operations. Its one member is an atomic pointer: null, a handle
  address, or the address 1 (\<open>FUTURE_DONE\<close>), which no coroutine frame has. One exchange
  decides each of \<open>await_suspend\<close> and \<open>finish\<close>.
\<close>

datatype io_ptr = Io_null | Io_done | Io_handle handle

record io_future =
  io_suspended :: io_ptr

definition io_future_init :: io_future where
  "io_future_init = \<lparr>io_suspended = Io_null\<rparr>"

definition io_await_ready :: "io_future \<Rightarrow> bool" where
  "io_await_ready f = (io_suspended f \<noteq> Io_null)"

definition io_await_suspend :: "handle \<Rightarrow> (unit, io_future \<times> exec_ctx) comp" where
  "io_await_suspend suspended = (\<lambda>(f, ex).
     let old = io_suspended f; f1 = f\<lparr>io_suspended := Io_handle suspended\<rparr>
     in if old = Io_done
        then (let (r, ex1) = schedule_task suspended ex in (r, f1, ex1))
        else (Inr (), f1, ex))"

definition io_finish :: "(unit, io_future \<times> exec_ctx) comp" where
  "io_finish = (\<lambda>(f, ex).
     let old = io_suspended f; f1 = f\<lparr>io_suspended := Io_done\<rparr>
     in case old of
          Io_null \<Rightarrow> (Inr (), f1, ex)
        | Io_handle h \<Rightarrow> (let (r, ex1) = schedule_task h ex in (r, f1, ex1))
        | Io_done \<Rightarrow> (Inl (Undefined Null_resume), f1, ex))"

fun io_rep :: "io_future \<Rightarrow> event_state \<Rightarrow> bool" where
  "io_rep f Idle = (io_suspended f = Io_null)"
| "io_rep f (Waits h) = (io_suspended f = Io_handle h)"
| "io_rep f Finished = (io_suspended f = Io_done)"
| "io_rep f Spent = True"

lemmas io_defs = io_future_init_def io_await_ready_def io_await_suspend_def io_finish_def

interpretation io: one_shot io_future_init io_await_ready io_await_suspend io_finish io_rep
  by unfold_locales (simp_all add: io_defs)

text \<open>
  The structs derived from it (\<open>connect_future\<close>, \<open>send_future\<close>, \<open>resolve_any_future\<close> and
  the others of src/udp.cpp and src/resolve.cpp) add a member \<open>ret\<close>. Each completion handler
  emplaces the result in \<open>ret\<close> and then calls \<open>finish\<close>; \<open>await_resume\<close> dereferences it.
\<close>

record 'r op_future =
  of_io :: io_future
  of_ret :: "'r option"

definition op_future_init :: "'r op_future" where
  "op_future_init = \<lparr>of_io = io_future_init, of_ret = None\<rparr>"

definition op_await_ready :: "'r op_future \<Rightarrow> bool" where
  "op_await_ready f = io_await_ready (of_io f)"

definition op_await_suspend :: "handle \<Rightarrow> (unit, 'r op_future \<times> exec_ctx) comp" where
  "op_await_suspend h = (\<lambda>(f, ex).
     let (r, io, ex1) = io_await_suspend h (of_io f, ex) in (r, f\<lparr>of_io := io\<rparr>, ex1))"

definition op_handler :: "'r \<Rightarrow> (unit, 'r op_future \<times> exec_ctx) comp" where
  "op_handler res = (\<lambda>(f, ex).
     let f1 = f\<lparr>of_ret := Some res\<rparr>; (r, io, ex1) = io_finish (of_io f1, ex)
     in (r, f1\<lparr>of_io := io\<rparr>, ex1))"

definition op_await_resume :: "'r op_future \<Rightarrow> fault + 'r" where
  "op_await_resume f = (case of_ret f of Some r \<Rightarrow> Inr r | None \<Rightarrow> Inl (Undefined Empty_option_deref))"

lemmas op_defs = op_future_init_def op_await_ready_def op_await_suspend_def op_handler_def
  op_await_resume_def

definition op_rep :: "'r op_future \<Rightarrow> event_state \<Rightarrow> bool" where
  "op_rep f e = io_rep (of_io f) e"

interpretation op: one_shot op_future_init op_await_ready op_await_suspend "op_handler res" op_rep
  for res :: 'r
  by unfold_locales (auto simp: op_defs op_rep_def io_defs)

text \<open>
  C8: an I/O operation wakes its task exactly once: however completion interleaves with
  \<open>await_ready\<close> and \<open>await_suspend\<close>, a task that suspended is scheduled once as soon as the
  operation has finished and never before, and a task that did not suspend goes on only after
  the operation has finished.
\<close>

theorem io_future_wakes_once:
  assumes "reach (wake_init io_future_init) (wake_step h io_await_ready io_await_suspend io_finish) s"
  shows "posted (ws_exec s) = (if ws_pc s = W_suspended \<and> ws_finished s then [h] else []) \<and>
         ws_fault s = None \<and> (ws_pc s = W_through \<longrightarrow> ws_finished s)"
  using io.wakes_once [OF assms] by (simp add: woken_so_far_def)

theorem io_future_wakes_once_witness:
  "\<exists>s. reach (wake_init io_future_init) (wake_step 5 io_await_ready io_await_suspend io_finish) s \<and>
       posted (ws_exec s) = [5]"
proof -
  have "run_sat (wake_step 5 io_await_ready io_await_suspend io_finish) [E_ready, E_finish, E_suspend]
      (wake_init io_future_init) (\<lambda>s. ws_pc s = W_suspended \<and> ws_finished s)" by code_simp
  then obtain s where r: "reach (wake_init io_future_init)
      (wake_step 5 io_await_ready io_await_suspend io_finish) s"
    and "ws_pc s = W_suspended \<and> ws_finished s" by (rule run_satE)
  with io_future_wakes_once [OF r] show ?thesis by auto
qed

lemma op_result:
  assumes "reach (wake_init op_future_init) (wake_step h op_await_ready op_await_suspend (op_handler res)) s"
    and "ws_pc s = W_through \<or> posted (ws_exec s) \<noteq> []"
  shows "op_await_resume (ws_event s) = Inr res"
proof -
  have "ws_finished s \<longrightarrow> of_ret (ws_event s) = Some res"
    using assms(1)
  proof (rule reach_invariant)
    fix l s t
    assume "ws_finished s \<longrightarrow> of_ret (ws_event s) = Some res"
      and "wake_step h op_await_ready op_await_suspend (op_handler res) l s = Some t"
    then show "ws_finished t \<longrightarrow> of_ret (ws_event t) = Some res"
      by (cases l) (auto simp: op_defs split: if_splits prod.splits)
  qed (simp add: wake_init_def)
  moreover from op.wakes_once [OF assms(1)] assms(2) have "ws_finished s"
    by (auto simp: woken_so_far_def split: if_splits)
  ultimately show ?thesis by (simp add: op_await_resume_def)
qed

text \<open>
  A task that awaits an I/O operation gets the operation's result: whenever it goes on,
  whether it was ready or was suspended and scheduled, the handler has stored the result, and
  \<open>await_resume\<close> returns it and never dereferences an empty option.
\<close>

theorem io_result_available:
  assumes "reach (wake_init op_future_init) (wake_step h op_await_ready op_await_suspend (op_handler res)) s"
    and "ws_pc s = W_through \<or> posted (ws_exec s) \<noteq> []"
  shows "op_await_resume (ws_event s) = Inr res"
  using assms by (rule op_result)

theorem io_result_available_witness:
  "\<exists>s. reach (wake_init op_future_init) (wake_step 5 op_await_ready op_await_suspend (op_handler (3::nat))) s \<and>
       posted (ws_exec s) = [5] \<and> op_await_resume (ws_event s) = Inr 3"
proof -
  let ?step = "wake_step 5 op_await_ready op_await_suspend (op_handler (3::nat))"
  have "run_sat ?step [E_ready, E_suspend, E_finish] (wake_init op_future_init)
      (\<lambda>s. posted (ws_exec s) = [5])" by code_simp
  then obtain s where r: "reach (wake_init op_future_init) ?step s" and p: "posted (ws_exec s) = [5]"
    by (rule run_satE)
  from io_result_available [OF r] r p show ?thesis by auto
qed

end
