(* ===== verification/Resolve.thy ===== *)
theory Resolve imports Io_Future Ip_Address begin

text \<open>
  The resolver (src/resolve.cpp): the completion handlers of its six operations. The resolver
  itself belongs to asio: \<open>ec\<close> is the error code it completes with, 0 for success, and
  \<open>results\<close> are the addresses it found. A handler computes what is emplaced in \<open>ret\<close>
  before \<open>finish\<close>; \<open>Inl\<close> is an exception leaving the handler, when an address cannot
  be converted. Each operation is an \<open>op_future\<close> completed by its handler.
\<close>

text \<open>\<^verbatim>\<open>std::errc::address_not_available\<close>, the POSIX \<^verbatim>\<open>EADDRNOTAVAIL\<close> of Linux.\<close>

definition address_not_available :: int where
  "address_not_available = 99"

definition resolve_one_any_handler :: "int \<Rightarrow> 'ip list \<Rightarrow> fault + ('ip ip_address, int) result" where
  "resolve_one_any_handler ec results =
     (if ec \<noteq> 0 then Inr (result_of_err id (err ec))
      else case results of
             [] \<Rightarrow> Inr (result_of_err id (err address_not_available))
           | r # _ \<Rightarrow> Inr (result_of_ok Ip (ok r)))"

definition resolve_one_v4_handler ::
    "('v4, 'v6, 'ip) asio_ip \<Rightarrow> int \<Rightarrow> 'ip list \<Rightarrow> fault + ('v4 ipv4_address, int) result" where
  "resolve_one_v4_handler A ec results =
     (if ec \<noteq> 0 then Inr (result_of_err id (err ec))
      else case results of
             [] \<Rightarrow> Inr (result_of_err id (err address_not_available))
           | r # _ \<Rightarrow> (case ip_to_v4 A r of Inl f \<Rightarrow> Inl f | Inr a \<Rightarrow> Inr (result_of_ok Ipv4 (ok a))))"

definition resolve_one_v6_handler ::
    "('v4, 'v6, 'ip) asio_ip \<Rightarrow> int \<Rightarrow> 'ip list \<Rightarrow> fault + ('v6 ipv6_address, int) result" where
  "resolve_one_v6_handler A ec results =
     (if ec \<noteq> 0 then Inr (result_of_err id (err ec))
      else case results of
             [] \<Rightarrow> Inr (result_of_err id (err address_not_available))
           | r # _ \<Rightarrow> (case ip_to_v6 A r of Inl f \<Rightarrow> Inl f | Inr a \<Rightarrow> Inr (result_of_ok Ipv6 (ok a))))"

text \<open>The loop \<^verbatim>\<open>for (const auto& result : results) addrs.emplace_back(...)\<close>.\<close>

fun emplace_all :: "('ip \<Rightarrow> fault + 'a) \<Rightarrow> 'ip list \<Rightarrow> 'a list \<Rightarrow> fault + 'a list" where
  "emplace_all conv [] addrs = Inr addrs"
| "emplace_all conv (r # rs) addrs =
     (case conv r of Inl f \<Rightarrow> Inl f | Inr a \<Rightarrow> emplace_all conv rs (addrs @ [a]))"

definition resolve_any_handler :: "int \<Rightarrow> 'ip list \<Rightarrow> fault + ('ip ip_address list, int) result" where
  "resolve_any_handler ec results =
     (if ec \<noteq> 0 then Inr (result_of_err id (err ec))
      else case emplace_all (\<lambda>r. Inr (Ip r)) results [] of
             Inl f \<Rightarrow> Inl f | Inr addrs \<Rightarrow> Inr (result_of_ok id (ok addrs)))"

definition resolve_v4_handler ::
    "('v4, 'v6, 'ip) asio_ip \<Rightarrow> int \<Rightarrow> 'ip list \<Rightarrow> fault + ('v4 ipv4_address list, int) result" where
  "resolve_v4_handler A ec results =
     (if ec \<noteq> 0 then Inr (result_of_err id (err ec))
      else case emplace_all (\<lambda>r. case ip_to_v4 A r of Inl f \<Rightarrow> Inl f | Inr a \<Rightarrow> Inr (Ipv4 a)) results [] of
             Inl f \<Rightarrow> Inl f | Inr addrs \<Rightarrow> Inr (result_of_ok id (ok addrs)))"

definition resolve_v6_handler ::
    "('v4, 'v6, 'ip) asio_ip \<Rightarrow> int \<Rightarrow> 'ip list \<Rightarrow> fault + ('v6 ipv6_address list, int) result" where
  "resolve_v6_handler A ec results =
     (if ec \<noteq> 0 then Inr (result_of_err id (err ec))
      else case emplace_all (\<lambda>r. case ip_to_v6 A r of Inl f \<Rightarrow> Inl f | Inr a \<Rightarrow> Inr (Ipv6 a)) results [] of
             Inl f \<Rightarrow> Inl f | Inr addrs \<Rightarrow> Inr (result_of_ok id (ok addrs)))"

text \<open>
  The operations: construct the future, whose resolver needs the thread's context, start the
  resolution, and await it. \<open>outcome\<close> is what the handler made of the resolver's answer.
\<close>

definition resolve_op :: "exec_ctx \<Rightarrow> fault + 'r \<Rightarrow> fault + 'r" where
  "resolve_op ex outcome =
     (if \<not> in_exec ex
      then Inl (Throw (Runtime_error ''attempt to access async I/O context outside of executor context''))
      else case outcome of
             Inl f \<Rightarrow> Inl f
           | Inr r \<Rightarrow> op_await_resume (fst (snd (op_handler r (op_future_init, ex)))))"

section \<open>Starting a resolution\<close>

text \<open>
  What is asked of asio's resolver: the protocol, if one is given, the host, the service, and the
  flags in the order the code combines them. The answer is an error code and a list of addresses.
\<close>

datatype protocol = Tcp_v4 | Tcp_v6

datatype resolver_flag = Passive | Address_configured

type_synonym 'ip resolver = "protocol option \<Rightarrow> string \<Rightarrow> string \<Rightarrow> resolver_flag list \<Rightarrow> int \<times> 'ip list"

definition resolve_one_any_start :: "'ip resolver \<Rightarrow> string \<Rightarrow> int \<times> 'ip list" where
  "resolve_one_any_start R host = R None host '''' [Passive, Address_configured]"

definition resolve_one_v4_start :: "'ip resolver \<Rightarrow> string \<Rightarrow> int \<times> 'ip list" where
  "resolve_one_v4_start R host = R (Some Tcp_v4) host '''' [Passive]"

definition resolve_one_v6_start :: "'ip resolver \<Rightarrow> string \<Rightarrow> int \<times> 'ip list" where
  "resolve_one_v6_start R host = R (Some Tcp_v6) host '''' [Passive]"

definition resolve_any_start :: "'ip resolver \<Rightarrow> string \<Rightarrow> int \<times> 'ip list" where
  "resolve_any_start R host = R None host '''' [Passive]"

definition resolve_v4_start :: "'ip resolver \<Rightarrow> string \<Rightarrow> int \<times> 'ip list" where
  "resolve_v4_start R host = R (Some Tcp_v4) host '''' [Passive]"

definition resolve_v6_start :: "'ip resolver \<Rightarrow> string \<Rightarrow> int \<times> 'ip list" where
  "resolve_v6_start R host = R (Some Tcp_v6) host '''' [Passive]"

section \<open>The operations\<close>

definition resolve_one :: "'ip resolver \<Rightarrow> exec_ctx \<Rightarrow> string \<Rightarrow> fault + ('ip ip_address, int) result" where
  "resolve_one R ex host = resolve_op ex (case_prod resolve_one_any_handler (resolve_one_any_start R host))"

definition resolve_one_v4 ::
    "('v4, 'v6, 'ip) asio_ip \<Rightarrow> 'ip resolver \<Rightarrow> exec_ctx \<Rightarrow> string \<Rightarrow> fault + ('v4 ipv4_address, int) result" where
  "resolve_one_v4 A R ex host = resolve_op ex (case_prod (resolve_one_v4_handler A) (resolve_one_v4_start R host))"

definition resolve_one_v6 ::
    "('v4, 'v6, 'ip) asio_ip \<Rightarrow> 'ip resolver \<Rightarrow> exec_ctx \<Rightarrow> string \<Rightarrow> fault + ('v6 ipv6_address, int) result" where
  "resolve_one_v6 A R ex host = resolve_op ex (case_prod (resolve_one_v6_handler A) (resolve_one_v6_start R host))"

definition resolve :: "'ip resolver \<Rightarrow> exec_ctx \<Rightarrow> string \<Rightarrow> fault + ('ip ip_address list, int) result" where
  "resolve R ex host = resolve_op ex (case_prod resolve_any_handler (resolve_any_start R host))"

definition resolve_v4 ::
    "('v4, 'v6, 'ip) asio_ip \<Rightarrow> 'ip resolver \<Rightarrow> exec_ctx \<Rightarrow> string \<Rightarrow> fault + ('v4 ipv4_address list, int) result" where
  "resolve_v4 A R ex host = resolve_op ex (case_prod (resolve_v4_handler A) (resolve_v4_start R host))"

definition resolve_v6 ::
    "('v4, 'v6, 'ip) asio_ip \<Rightarrow> 'ip resolver \<Rightarrow> exec_ctx \<Rightarrow> string \<Rightarrow> fault + ('v6 ipv6_address list, int) result" where
  "resolve_v6 A R ex host = resolve_op ex (case_prod (resolve_v6_handler A) (resolve_v6_start R host))"

section \<open>Properties\<close>

lemma emplace_all_append:
  "emplace_all conv rs addrs = (case emplace_all conv rs [] of Inl f \<Rightarrow> Inl f | Inr as \<Rightarrow> Inr (addrs @ as))"
proof (induction rs arbitrary: addrs)
  case (Cons r rs)
  show ?case
  proof (cases "conv r")
    case (Inr a)
    then have "emplace_all conv (r # rs) addrs = emplace_all conv rs (addrs @ [a])"
      and "emplace_all conv (r # rs) [] = emplace_all conv rs [a]" by simp_all
    then show ?thesis
      using Cons.IH [of "addrs @ [a]"] Cons.IH [of "[a]"] by (simp split: sum.splits)
  qed simp
qed simp

lemma emplace_all_map: "(\<And>r. r \<in> set rs \<Longrightarrow> conv r = Inr (g r)) \<Longrightarrow> emplace_all conv rs addrs = Inr (addrs @ map g rs)"
  by (induction rs arbitrary: addrs) auto

lemmas handler_defs = resolve_one_any_handler_def resolve_one_v4_handler_def resolve_one_v6_handler_def
  resolve_any_handler_def resolve_v4_handler_def resolve_v6_handler_def

definition first_of :: "('a list, int) result \<Rightarrow> ('a, int) result" where
  "first_of r =
     (case r of
        Err_holder e \<Rightarrow> Err_holder e
      | Ok_holder [] \<Rightarrow> Err_holder address_not_available
      | Ok_holder (a # _) \<Rightarrow> Ok_holder a)"

lemma resolve_op_result:
  "resolve_op ex outcome =
     (if \<not> in_exec ex
      then Inl (Throw (Runtime_error ''attempt to access async I/O context outside of executor context''))
      else outcome)"
  by (cases outcome) (simp_all add: resolve_op_def op_defs io_defs)

text \<open>What the handler for one address makes of an answer is the first of what the handler for all makes.\<close>

lemma one_any_first:
  "\<exists>r. resolve_any_handler ec as = Inr r \<and> resolve_one_any_handler ec as = Inr (first_of r) \<and>
    r = (if ec \<noteq> 0 then Err_holder ec else Ok_holder (map Ip as))"
proof -
  have "emplace_all (\<lambda>r. Inr (Ip r)) as [] = Inr (map Ip as)"
    using emplace_all_map [of as _ Ip "[]"] by simp
  then show ?thesis by (cases as) (simp_all add: handler_defs result_defs first_of_def)
qed

lemma one_v4_first:
  assumes "\<And>a. a \<in> set as \<Longrightarrow> ip_to_v4 A a = Inr (g a)"
  shows "\<exists>r. resolve_v4_handler A ec as = Inr r \<and> resolve_one_v4_handler A ec as = Inr (first_of r) \<and>
    r = (if ec \<noteq> 0 then Err_holder ec else Ok_holder (map (\<lambda>a. Ipv4 (g a)) as))"
proof -
  have "emplace_all (\<lambda>r. case ip_to_v4 A r of Inl f \<Rightarrow> Inl f | Inr a \<Rightarrow> Inr (Ipv4 a)) as [] =
      Inr (map (\<lambda>a. Ipv4 (g a)) as)"
    using emplace_all_map [of as _ "\<lambda>x. Ipv4 (g x)" "[]"] assms by simp
  with assms show ?thesis by (cases as) (simp_all add: handler_defs result_defs first_of_def)
qed

lemma one_v6_first:
  assumes "\<And>a. a \<in> set as \<Longrightarrow> ip_to_v6 A a = Inr (g a)"
  shows "\<exists>r. resolve_v6_handler A ec as = Inr r \<and> resolve_one_v6_handler A ec as = Inr (first_of r) \<and>
    r = (if ec \<noteq> 0 then Err_holder ec else Ok_holder (map (\<lambda>a. Ipv6 (g a)) as))"
proof -
  have "emplace_all (\<lambda>r. case ip_to_v6 A r of Inl f \<Rightarrow> Inl f | Inr a \<Rightarrow> Inr (Ipv6 a)) as [] =
      Inr (map (\<lambda>a. Ipv6 (g a)) as)"
    using emplace_all_map [of as _ "\<lambda>x. Ipv6 (g x)" "[]"] assms by simp
  with assms show ?thesis by (cases as) (simp_all add: handler_defs result_defs first_of_def)
qed

text \<open>An answer of the wrong version ends in an exception in the completion handler.\<close>

lemma emplace_all_fails:
  assumes "conv a = Inl f" and "\<forall>b \<in> set as. \<exists>c. conv b = Inr c"
  shows "emplace_all conv (as @ a # bs) cs = Inl f"
  using assms by (induction as arbitrary: cs) auto

lemma resolve_v4_fails:
  assumes "in_exec ex" and "resolve_v4_start R host = (0, as @ a # bs)" and "ip_to_v4 A a = Inl f"
    and "\<forall>b \<in> set as. \<exists>c. ip_to_v4 A b = Inr c"
  shows "resolve_v4 A R ex host = Inl f"
proof -
  let ?conv = "\<lambda>r. case ip_to_v4 A r of Inl f \<Rightarrow> Inl f | Inr a \<Rightarrow> Inr (Ipv4 a)"
  have "emplace_all ?conv (as @ a # bs) [] = Inl f"
    by (rule emplace_all_fails) (use assms(3,4) in auto)
  with assms(1,2) show ?thesis by (simp add: resolve_v4_def resolve_op_result resolve_v4_handler_def)
qed

text \<open>What is made of an answer, each address turned into one of the wanted kind.\<close>

definition found :: "('ip \<Rightarrow> 'a) \<Rightarrow> int \<times> 'ip list \<Rightarrow> ('a list, int) result" where
  "found g = (\<lambda>(ec, as). if ec \<noteq> 0 then Err_holder ec else Ok_holder (map g as))"

definition one_host :: "(byte list + byte list) resolver" where
  "one_host v host service flags =
     (if host \<noteq> ''localhost'' then (11, [])
      else (0, if v = Some Tcp_v6 then [] else [Inl [127, 0, 0, 1], Inl [10, 0, 0, 1]]))"

text \<open>
  C39: the resolver's operations inside an executor. Those of one version ask the resolver the same question, and the one for one
  address gives the first of the addresses that the one for all gives, in order, the same error when the resolution failed,
  and \<open>address_not_available\<close> when nothing was found. \<open>resolve\<close> and \<open>resolve_one\<close> ask different questions, since only the
  latter sets the flag \<^verbatim>\<open>address_configured\<close>: each gives all, respectively the first, of what its own question found. Outside an
  executor each of the six throws.
\<close>

theorem resolve_one_is_first:
  assumes "in_exec ex" and "\<not> in_exec out"
    and "\<And>a. a \<in> set (snd (R (Some Tcp_v4) host '''' [Passive])) \<Longrightarrow> ip_to_v4 A a = Inr (g4 a)"
    and "\<And>a. a \<in> set (snd (R (Some Tcp_v6) host '''' [Passive])) \<Longrightarrow> ip_to_v6 A a = Inr (g6 a)"
  shows "resolve_v4 A R ex host = Inr (found (\<lambda>a. Ipv4 (g4 a)) (R (Some Tcp_v4) host '''' [Passive])) \<and>
         resolve_one_v4 A R ex host = Inr (first_of (found (\<lambda>a. Ipv4 (g4 a)) (R (Some Tcp_v4) host '''' [Passive]))) \<and>
         resolve_v6 A R ex host = Inr (found (\<lambda>a. Ipv6 (g6 a)) (R (Some Tcp_v6) host '''' [Passive])) \<and>
         resolve_one_v6 A R ex host = Inr (first_of (found (\<lambda>a. Ipv6 (g6 a)) (R (Some Tcp_v6) host '''' [Passive]))) \<and>
         resolve R ex host = Inr (found Ip (R None host '''' [Passive])) \<and>
         resolve_one R ex host = Inr (first_of (found Ip (R None host '''' [Passive, Address_configured]))) \<and>
         (let e = Throw (Runtime_error ''attempt to access async I/O context outside of executor context'')
          in resolve R out host = Inl e \<and> resolve_one R out host = Inl e \<and> resolve_v4 A R out host = Inl e \<and>
             resolve_one_v4 A R out host = Inl e \<and> resolve_v6 A R out host = Inl e \<and> resolve_one_v6 A R out host = Inl e)"
  using assms(1,2) one_any_first [of "fst (R None host '''' [Passive])" "snd (R None host '''' [Passive])"]
    one_any_first [of "fst (R None host '''' [Passive, Address_configured])" "snd (R None host '''' [Passive, Address_configured])"]
    one_v4_first [of "snd (R (Some Tcp_v4) host '''' [Passive])" A g4 "fst (R (Some Tcp_v4) host '''' [Passive])", OF assms(3)]
    one_v6_first [of "snd (R (Some Tcp_v6) host '''' [Passive])" A g6 "fst (R (Some Tcp_v6) host '''' [Passive])", OF assms(4)]
  unfolding resolve_def resolve_one_def resolve_v4_def resolve_one_v4_def resolve_v6_def resolve_one_v6_def
    resolve_one_any_start_def resolve_any_start_def resolve_v4_start_def resolve_one_v4_start_def
    resolve_v6_start_def resolve_one_v6_start_def resolve_op_result split_beta found_def
  by (auto simp: Let_def)

theorem resolve_one_is_first_witness:
  "resolve_one_v4 bytes_asio one_host \<lparr>in_exec = True, posted = []\<rparr> ''localhost'' =
     Inr (Ok_holder (Ipv4 [127, 0, 0, 1]))"
proof -
  have "ip_to_v4 bytes_asio a = Inr (projl a)" if "a \<in> set (snd (one_host (Some Tcp_v4) h '''' fs))" for h fs a
    using that by (auto simp: bytes_asio_def one_host_def split: if_splits)
  moreover have "ip_to_v6 bytes_asio a = Inr (projr a)" if "a \<in> set (snd (one_host (Some Tcp_v6) h '''' fs))" for h fs a
    using that by (auto simp: one_host_def split: if_splits)
  ultimately show ?thesis
    using resolve_one_is_first [of "\<lparr>in_exec = True, posted = []\<rparr>" "\<lparr>in_exec = False, posted = []\<rparr>"
      one_host "''localhost''" bytes_asio projl projr]
    by (auto simp: one_host_def found_def first_of_def)
qed

text \<open>
  So \<open>resolve_one\<close> can fail where \<open>resolve\<close> finds an address: a host with no address configured, asked for its loopback address.
\<close>

theorem resolve_one_differs:
  "\<exists>R :: (byte list + byte list) resolver.
     resolve R \<lparr>in_exec = True, posted = []\<rparr> ''localhost'' = Inr (Ok_holder [Ip (Inl [127, 0, 0, 1])]) \<and>
     resolve_one R \<lparr>in_exec = True, posted = []\<rparr> ''localhost'' = Inr (Err_holder address_not_available)"
proof -
  let ?R = "\<lambda>v host service flags. (0, if flags = [Passive] then [Inl [127, 0, 0, 1]] else []) :: int \<times> (byte list + byte list) list"
  have "resolve ?R \<lparr>in_exec = True, posted = []\<rparr> ''localhost'' = Inr (Ok_holder [Ip (Inl [127, 0, 0, 1])])"
    "resolve_one ?R \<lparr>in_exec = True, posted = []\<rparr> ''localhost'' = Inr (Err_holder address_not_available)"
    by (simp_all add: resolve_def resolve_one_def resolve_one_any_start_def resolve_any_start_def resolve_op_result
        handler_defs result_defs)
  then show ?thesis by blast
qed

end
