(* ===== verification/Resolve_Async.thy ===== *)
theory Resolve_Async imports Resolve begin

text \<open>
  The resolver's operations while their task waits (src/resolve.cpp): the six futures, each with a
  resolver of the thread's context, and the completion handlers, which run on a core worker. Where
  \<open>Resolve\<close> gives what an operation returns, this theory says when its task is woken, and what
  happens when a handler throws: \<open>finish\<close> is not reached.
\<close>

definition needs_context :: "exec_ctx \<Rightarrow> 'f \<Rightarrow> fault + 'f" where
  "needs_context ex fut =
     (if in_exec ex then Inr fut
      else Inl (Throw (Runtime_error ''attempt to access async I/O context outside of executor context'')))"

definition resolve_one_any_future :: "exec_ctx \<Rightarrow> fault + ('ip ip_address, int) result op_future" where
  "resolve_one_any_future ex = needs_context ex op_future_init"

definition resolve_one_v4_future :: "exec_ctx \<Rightarrow> fault + ('v4 ipv4_address, int) result op_future" where
  "resolve_one_v4_future ex = needs_context ex op_future_init"

definition resolve_one_v6_future :: "exec_ctx \<Rightarrow> fault + ('v6 ipv6_address, int) result op_future" where
  "resolve_one_v6_future ex = needs_context ex op_future_init"

definition resolve_any_future :: "exec_ctx \<Rightarrow> fault + ('ip ip_address list, int) result op_future" where
  "resolve_any_future ex = needs_context ex op_future_init"

definition resolve_v4_future :: "exec_ctx \<Rightarrow> fault + ('v4 ipv4_address list, int) result op_future" where
  "resolve_v4_future ex = needs_context ex op_future_init"

definition resolve_v6_future :: "exec_ctx \<Rightarrow> fault + ('v6 ipv6_address list, int) result op_future" where
  "resolve_v6_future ex = needs_context ex op_future_init"

text \<open>The completion: the handler's outcome is emplaced and the future finished, or it throws.\<close>

definition resolve_complete :: "fault + 'r \<Rightarrow> (unit, 'r op_future \<times> exec_ctx) comp" where
  "resolve_complete outcome = (\<lambda>(f, ex).
     case outcome of Inl e \<Rightarrow> (Inl e, f, ex) | Inr r \<Rightarrow> op_handler r (f, ex))"

text \<open>The task from the construction of its future on.\<close>

definition resolve_begin :: "exec_ctx \<Rightarrow> (exec_ctx \<Rightarrow> fault + 'r op_future) \<Rightarrow> fault + 'r op_future wake_sys" where
  "resolve_begin ex fut = (case fut ex of Inl e \<Rightarrow> Inl e | Inr f \<Rightarrow> Inr (wake_init f))"

definition thrown_inv :: "fault \<Rightarrow> 'r op_future wake_sys \<Rightarrow> bool" where
  "thrown_inv e s \<longleftrightarrow> in_exec (ws_exec s) \<and> posted (ws_exec s) = [] \<and> of_ret (ws_event s) = None \<and>
     io_suspended (of_io (ws_event s)) \<noteq> Io_done \<and>
     (ws_pc s \<in> {W_start, W_unready} \<and> io_suspended (of_io (ws_event s)) = Io_null \<or> ws_pc s = W_suspended) \<and>
     ws_fault s = (if ws_finished s then Some e else None)"

lemma thrown_inv_step:
  assumes "thrown_inv e s" and "wake_step h op_await_ready op_await_suspend (resolve_complete (Inl e)) l s = Some t"
  shows "thrown_inv e t"
  using assms
  by (cases l) (auto simp: thrown_inv_def resolve_complete_def op_defs io_defs wake_fault_def split: if_splits prod.splits)

lemma resolve_complete_Inr: "resolve_complete (Inr r) = op_handler r"
  by (auto simp: resolve_complete_def)

text \<open>Every future is constructed idle, and only in an executor.\<close>

lemma resolve_futures_begin:
  "resolve_begin ex resolve_one_any_future = Inr s \<longleftrightarrow> in_exec ex \<and> s = wake_init op_future_init"
  "resolve_begin ex resolve_one_v4_future = Inr s4 \<longleftrightarrow> in_exec ex \<and> s4 = wake_init op_future_init"
  "resolve_begin ex resolve_one_v6_future = Inr s6 \<longleftrightarrow> in_exec ex \<and> s6 = wake_init op_future_init"
  "resolve_begin ex resolve_any_future = Inr t \<longleftrightarrow> in_exec ex \<and> t = wake_init op_future_init"
  "resolve_begin ex resolve_v4_future = Inr t4 \<longleftrightarrow> in_exec ex \<and> t4 = wake_init op_future_init"
  "resolve_begin ex resolve_v6_future = Inr t6 \<longleftrightarrow> in_exec ex \<and> t6 = wake_init op_future_init"
  by (auto simp: resolve_begin_def needs_context_def resolve_one_any_future_def resolve_one_v4_future_def
      resolve_one_v6_future_def resolve_any_future_def resolve_v4_future_def resolve_v6_future_def)

lemma resolve_wakes:
  assumes "reach (wake_init op_future_init) (wake_step h op_await_ready op_await_suspend (resolve_complete out)) s"
  shows "case out of
           Inr r \<Rightarrow> posted (ws_exec s) = (if ws_pc s = W_suspended \<and> ws_finished s then [h] else []) \<and>
                    ws_fault s = None \<and>
                    (ws_pc s = W_through \<or> posted (ws_exec s) \<noteq> [] \<longrightarrow> op_await_resume (ws_event s) = Inr r)
         | Inl e \<Rightarrow> posted (ws_exec s) = [] \<and> ws_pc s \<noteq> W_through \<and> (ws_finished s \<longleftrightarrow> ws_fault s = Some e)"
proof (cases out)
  case (Inr r)
  with assms have reach: "reach (wake_init op_future_init) (wake_step h op_await_ready op_await_suspend (op_handler r)) s"
    by (simp add: resolve_complete_Inr)
  from op.wakes_once [OF reach] have "posted (ws_exec s) = (if ws_pc s = W_suspended \<and> ws_finished s then [h] else [])"
    and "ws_fault s = None" by (simp_all add: woken_so_far_def)
  moreover from op_result [OF reach] have "ws_pc s = W_through \<or> posted (ws_exec s) \<noteq> [] \<longrightarrow> op_await_resume (ws_event s) = Inr r"
    by blast
  ultimately show ?thesis by (simp add: Inr)
next
  case (Inl e)
  from assms have "thrown_inv e s"
    unfolding Inl
  proof (rule reach_invariant)
    show "thrown_inv e (wake_init op_future_init)"
      by (simp add: thrown_inv_def wake_init_def op_future_init_def io_future_init_def)
  qed (rule thrown_inv_step)
  then show ?thesis by (auto simp: Inl thrown_inv_def)
qed

text \<open>
  A resolution wakes its task exactly when its handler returns: if it does, the task is
  scheduled once, not before the completion, and gets what the handler made of the answer. If the
  handler throws, because an address is not of the version asked for, the exception leaves the
  handler into the worker that ran it, and the task is never scheduled and never gets a result.
  Stated for the operation that gives all version 4 addresses; \<open>resolve_wakes\<close> has the others.
\<close>

theorem resolve_wakes_unless_handler_throws:
  assumes "resolve_begin ex resolve_v4_future = Inr s0"
    and "reach s0 (wake_step h op_await_ready op_await_suspend
           (resolve_complete (case_prod (resolve_v4_handler A) (resolve_v4_start R host)))) s"
  shows "case case_prod (resolve_v4_handler A) (resolve_v4_start R host) of
           Inr r \<Rightarrow> posted (ws_exec s) = (if ws_pc s = W_suspended \<and> ws_finished s then [h] else []) \<and>
                    ws_fault s = None \<and>
                    (ws_pc s = W_through \<or> posted (ws_exec s) \<noteq> [] \<longrightarrow> op_await_resume (ws_event s) = Inr r)
         | Inl e \<Rightarrow> posted (ws_exec s) = [] \<and> ws_pc s \<noteq> W_through \<and> (ws_finished s \<longleftrightarrow> ws_fault s = Some e)"
  using assms(2) unfolding assms(1) [unfolded resolve_futures_begin, THEN conjunct2] by (rule resolve_wakes)

theorem resolve_wakes_unless_handler_throws_witness:
  "\<exists>s e. reach (wake_init op_future_init) (wake_step 5 op_await_ready op_await_suspend
           (resolve_complete (case_prod (resolve_v4_handler bytes_asio) (resolve_v4_start (\<lambda>v h sv fl. (0, [Inr []])) ''h'')))) s \<and>
         ws_pc s = W_suspended \<and> ws_finished s \<and> posted (ws_exec s) = [] \<and> ws_fault s = Some e"
proof -
  let ?R = "\<lambda>v h sv fl. (0, [Inr []]) :: int \<times> (byte list + byte list) list"
  let ?out = "case_prod (resolve_v4_handler bytes_asio) (resolve_v4_start ?R ''h'')"
  let ?step = "wake_step 5 op_await_ready op_await_suspend (resolve_complete ?out)"
  let ?ex = "\<lparr>in_exec = True, posted = []\<rparr>"
  have b: "resolve_begin ?ex resolve_v4_future = Inr (wake_init op_future_init)"
    by (simp add: resolve_futures_begin)
  have "\<exists>e. ?out = Inl e" by (simp add: resolve_v4_start_def resolve_v4_handler_def bytes_asio_def)
  then obtain e where e: "?out = Inl e" by blast
  have "run_sat ?step [E_ready, E_suspend, E_finish] (wake_init op_future_init) (\<lambda>s. ws_pc s = W_suspended \<and> ws_finished s)"
    by code_simp
  then obtain s where r: "reach (wake_init op_future_init) ?step s" and s: "ws_pc s = W_suspended \<and> ws_finished s"
    by (rule run_satE)
  from resolve_wakes_unless_handler_throws [OF b r] e s have "posted (ws_exec s) = []" "ws_fault s = Some e" by auto
  with r s show ?thesis by blast
qed

end
