(* ===== verification/Udp.thy ===== *)
theory Udp imports Io_Future Ip_Address Crasy_Option begin

text \<open>
  \<open>udp_socket\<close> (include/crasy/udp.hpp, src/udp.cpp). The socket belongs to asio: \<open>U\<close> collects
  what the code asks of it, each operation giving an error code, 0 for success, and the
  socket it leaves. Blocking and asynchronous operations are modelled by their completion: the
  handlers compute the result, and \<open>Io_Future\<close> delivers it.
\<close>

record ('ip, 's) asio_udp =
  so_is_open :: "'s \<Rightarrow> bool"
  so_open :: "bool \<Rightarrow> 's \<Rightarrow> int \<times> 's"
  so_bind :: "'ip endpoint \<Rightarrow> 's \<Rightarrow> int \<times> 's"
  so_connect :: "'ip endpoint \<Rightarrow> 's \<Rightarrow> int \<times> 's"
  so_send :: "byte list \<Rightarrow> 's \<Rightarrow> int \<times> nat \<times> 's"
  so_send_to :: "byte list \<Rightarrow> 'ip endpoint \<Rightarrow> 's \<Rightarrow> int \<times> nat \<times> 's"
  so_receive :: "nat \<Rightarrow> 's \<Rightarrow> int \<times> nat \<times> 's"
  so_receive_from :: "nat \<Rightarrow> 'ip endpoint \<Rightarrow> 's \<Rightarrow> int \<times> nat \<times> 'ip endpoint \<times> 's"
  so_wait :: "bool \<Rightarrow> 's \<Rightarrow> int \<times> 's"
  so_available :: "'s \<Rightarrow> int \<times> nat"

record ('ip, 's) udp_socket =
  us_sock :: 's
  us_local :: "'ip endpoint opt"
  us_remote :: "'ip endpoint opt"

definition udp_init :: "'s \<Rightarrow> ('ip, 's) udp_socket" where
  "udp_init s = \<lparr>us_sock = s, us_local = opt_default, us_remote = opt_default\<rparr>"

section \<open>Completion handlers\<close>

definition connect_handler :: "int \<Rightarrow> (unit, int) result" where
  "connect_handler ec = (if ec \<noteq> 0 then result_of_err id (err ec) else result_of_ok id (ok ()))"

definition send_handler :: "int \<Rightarrow> nat \<Rightarrow> (nat, int) result" where
  "send_handler ec cnt = (if ec \<noteq> 0 then result_of_err id (err ec) else result_of_ok id (ok cnt))"

definition send_to_handler :: "int \<Rightarrow> nat \<Rightarrow> (nat, int) result" where
  "send_to_handler ec cnt = (if ec \<noteq> 0 then result_of_err id (err ec) else result_of_ok id (ok cnt))"

definition recv_handler :: "int \<Rightarrow> nat \<Rightarrow> (nat, int) result" where
  "recv_handler ec cnt = (if ec \<noteq> 0 then result_of_err id (err ec) else result_of_ok id (ok cnt))"

definition recv_from_handler :: "int \<Rightarrow> nat \<Rightarrow> (nat, int) result" where
  "recv_from_handler ec cnt = (if ec \<noteq> 0 then result_of_err id (err ec) else result_of_ok id (ok cnt))"

definition wait_handler :: "int \<Rightarrow> (unit, int) result" where
  "wait_handler ec = (if ec \<noteq> 0 then result_of_err id (err ec) else result_of_ok id (ok ()))"

section \<open>Operations\<close>

definition asio_endpoint :: "'ip endpoint \<Rightarrow> 'ip endpoint" where
  "asio_endpoint e = endpoint_ctor (ep_addr e) (ep_port e)"

definition bind_local :: "('v4, 'v6, 'ip) asio_ip \<Rightarrow> ('ip, 's) asio_udp \<Rightarrow> 'ip endpoint
    \<Rightarrow> ('ip, 's) udp_socket \<Rightarrow> (unit, int) result \<times> ('ip, 's) udp_socket" where
  "bind_local A U local_endpoint u =
     (let ep = asio_endpoint local_endpoint;
          (ec, s) = (if \<not> so_is_open U (us_sock u)
                     then so_open U (is_v4 A (ep_addr local_endpoint)) (us_sock u)
                     else (0, us_sock u));
          u1 = u\<lparr>us_sock := s\<rparr>
      in if ec \<noteq> 0 then (result_of_err id (err ec), u1)
         else (let (ec2, s2) = so_bind U ep s; u2 = u1\<lparr>us_sock := s2\<rparr>
               in if ec2 \<noteq> 0 then (result_of_err id (err ec2), u2)
                  else (result_of_ok id (ok ()),
                        u2\<lparr>us_local := snd (opt_emplace (us_local u2) (endpoint_ctor (ep_addr ep) (ep_port ep)))\<rparr>)))"

definition ensure_open :: "('ip, 's) asio_udp \<Rightarrow> bool \<Rightarrow> ('ip, 's) udp_socket
    \<Rightarrow> (unit, int) result \<times> ('ip, 's) udp_socket" where
  "ensure_open U v4 u =
     (if \<not> so_is_open U (us_sock u)
      then (let (ec, s) = so_open U v4 (us_sock u); u1 = u\<lparr>us_sock := s\<rparr>
            in if ec \<noteq> 0 then (result_of_err id (err ec), u1) else (result_of_ok id (ok ()), u1))
      else (result_of_ok id (ok ()), u))"

definition bind_remote :: "('v4, 'v6, 'ip) asio_ip \<Rightarrow> ('ip, 's) asio_udp \<Rightarrow> 'ip endpoint
    \<Rightarrow> ('ip, 's) udp_socket \<Rightarrow> (unit, int) result \<times> ('ip, 's) udp_socket" where
  "bind_remote A U remote_endpoint u =
     (let ep = asio_endpoint remote_endpoint;
          (ret, u1) = ensure_open U (is_v4 A (ep_addr remote_endpoint)) u
      in if is_err ret then (ret, u1)
         else (let (ec, s) = so_connect U ep (us_sock u1) in (connect_handler ec, u1\<lparr>us_sock := s\<rparr>)))"

definition local_endpoint :: "('ip, 's) udp_socket \<Rightarrow> 'ip endpoint opt" where
  "local_endpoint u = (case opt_map ret (us_local u) () of (Inr r, _) \<Rightarrow> r | (Inl f, _) \<Rightarrow> opt_default)"

definition remote_endpoint :: "('ip, 's) udp_socket \<Rightarrow> 'ip endpoint opt" where
  "remote_endpoint u = (case opt_map ret (us_remote u) () of (Inr r, _) \<Rightarrow> r | (Inl f, _) \<Rightarrow> opt_default)"

definition udp_send :: "('ip, 's) asio_udp \<Rightarrow> byte list \<Rightarrow> ('ip, 's) udp_socket
    \<Rightarrow> (nat, int) result \<times> ('ip, 's) udp_socket" where
  "udp_send U buffer u =
     (let (ec, cnt, s) = so_send U buffer (us_sock u) in (send_handler ec cnt, u\<lparr>us_sock := s\<rparr>))"

definition udp_send_to :: "('v4, 'v6, 'ip) asio_ip \<Rightarrow> ('ip, 's) asio_udp \<Rightarrow> byte list \<Rightarrow> 'ip endpoint
    \<Rightarrow> ('ip, 's) udp_socket \<Rightarrow> (nat, int) result \<times> ('ip, 's) udp_socket" where
  "udp_send_to A U buffer peer u =
     (let ep = asio_endpoint peer; (ret, u1) = ensure_open U (is_v4 A (ep_addr peer)) u
      in case ret of
           Err_holder e \<Rightarrow> (result_of_err id (err e), u1)
         | Ok_holder _ \<Rightarrow> (let (ec, cnt, s) = so_send_to U buffer ep (us_sock u1)
                          in (send_to_handler ec cnt, u1\<lparr>us_sock := s\<rparr>)))"

definition udp_recv :: "('ip, 's) asio_udp \<Rightarrow> nat \<Rightarrow> ('ip, 's) udp_socket
    \<Rightarrow> (nat, int) result \<times> ('ip, 's) udp_socket" where
  "udp_recv U n u =
     (let (ec, cnt, s) = so_receive U n (us_sock u) in (recv_handler ec cnt, u\<lparr>us_sock := s\<rparr>))"

text \<open>\<open>recv_from\<close> also leaves the peer it was given, overwritten with the sender.\<close>

definition udp_recv_from :: "('v4, 'v6, 'ip) asio_ip \<Rightarrow> ('ip, 's) asio_udp \<Rightarrow> nat \<Rightarrow> 'ip endpoint
    \<Rightarrow> ('ip, 's) udp_socket \<Rightarrow> (nat, int) result \<times> 'ip endpoint \<times> ('ip, 's) udp_socket" where
  "udp_recv_from A U n peer u =
     (let (ret, u1) = ensure_open U (is_v4 A (ep_addr peer)) u
      in case ret of
           Err_holder e \<Rightarrow> (result_of_err id (err e), peer, u1)
         | Ok_holder _ \<Rightarrow>
             (let ep = asio_endpoint peer; (ec, cnt, ep1, s) = so_receive_from U n ep (us_sock u1)
              in (recv_from_handler ec cnt, endpoint_ctor (ep_addr ep1) (ep_port ep1), u1\<lparr>us_sock := s\<rparr>)))"

definition udp_wait :: "('ip, 's) asio_udp \<Rightarrow> bool \<Rightarrow> ('ip, 's) udp_socket
    \<Rightarrow> (unit, int) result \<times> ('ip, 's) udp_socket" where
  "udp_wait U for_read u =
     (let (ec, s) = so_wait U for_read (us_sock u) in (wait_handler ec, u\<lparr>us_sock := s\<rparr>))"

definition udp_wait_read :: "('ip, 's) asio_udp \<Rightarrow> ('ip, 's) udp_socket \<Rightarrow> (unit, int) result \<times> ('ip, 's) udp_socket" where
  "udp_wait_read U u = udp_wait U True u"

definition udp_wait_write :: "('ip, 's) asio_udp \<Rightarrow> ('ip, 's) udp_socket \<Rightarrow> (unit, int) result \<times> ('ip, 's) udp_socket" where
  "udp_wait_write U u = udp_wait U False u"

definition udp_available :: "('ip, 's) asio_udp \<Rightarrow> ('ip, 's) udp_socket \<Rightarrow> (nat, int) result" where
  "udp_available U u =
     (let (ec, cnt) = so_available U (us_sock u)
      in if ec \<noteq> 0 then result_of_err id (err ec) else result_of_ok id (ok cnt))"

section \<open>Programs over a socket\<close>

datatype 'ip udp_op =
    U_bind_local "'ip endpoint" | U_bind_remote "'ip endpoint" | U_send "byte list"
  | U_send_to "byte list" "'ip endpoint" | U_recv nat | U_recv_from nat "'ip endpoint" | U_wait bool

fun udp_step :: "('v4, 'v6, 'ip) asio_ip \<Rightarrow> ('ip, 's) asio_udp \<Rightarrow> 'ip udp_op
    \<Rightarrow> ('ip, 's) udp_socket \<Rightarrow> ('ip, 's) udp_socket" where
  "udp_step A U (U_bind_local e) u = snd (bind_local A U e u)"
| "udp_step A U (U_bind_remote e) u = snd (bind_remote A U e u)"
| "udp_step A U (U_send b) u = snd (udp_send U b u)"
| "udp_step A U (U_send_to b e) u = snd (udp_send_to A U b e u)"
| "udp_step A U (U_recv n) u = snd (udp_recv U n u)"
| "udp_step A U (U_recv_from n e) u = snd (snd (udp_recv_from A U n e u))"
| "udp_step A U (U_wait r) u = snd (if r then udp_wait_read U u else udp_wait_write U u)"

text \<open>The endpoint of the last \<open>bind_local\<close> that succeeded.\<close>

fun last_bound :: "('v4, 'v6, 'ip) asio_ip \<Rightarrow> ('ip, 's) asio_udp \<Rightarrow> 'ip udp_op list
    \<Rightarrow> ('ip, 's) udp_socket \<Rightarrow> 'ip endpoint option \<Rightarrow> 'ip endpoint option" where
  "last_bound A U [] u b = b"
| "last_bound A U (U_bind_local e # ops) u b =
     last_bound A U ops (snd (bind_local A U e u)) (if is_ok (fst (bind_local A U e u)) then Some e else b)"
| "last_bound A U (op # ops) u b = last_bound A U ops (udp_step A U op u) b"

lemmas udp_handler_defs = connect_handler_def send_handler_def send_to_handler_def recv_handler_def
  recv_from_handler_def wait_handler_def

lemma endpoint_eta [simp]: "endpoint_ctor (ep_addr e) (ep_port e) = e" "asio_endpoint e = e"
  by (simp_all add: endpoint_ctor_def asio_endpoint_def)

lemma ensure_open_keeps:
  "us_local (snd (ensure_open U v u)) = us_local u" "us_remote (snd (ensure_open U v u)) = us_remote u"
  by (auto simp: ensure_open_def Let_def split: prod.splits)

lemma bind_local_effect:
  "us_remote (snd (bind_local A U e u)) = us_remote u"
  "us_local (snd (bind_local A U e u)) = (if is_ok (fst (bind_local A U e u)) then Opt (Some e) else us_local u)"
  by (auto simp: bind_local_def Let_def opt_emplace_def result_defs split: prod.splits)

lemma bind_remote_keeps:
  "us_local (snd (bind_remote A U e u)) = us_local u \<and> us_remote (snd (bind_remote A U e u)) = us_remote u"
  using ensure_open_keeps [of U "is_v4 A (ep_addr e)" u]
  by (cases "ensure_open U (is_v4 A (ep_addr e)) u") (simp add: bind_remote_def Let_def split: prod.split)

lemma udp_send_to_keeps:
  "us_local (snd (udp_send_to A U b e u)) = us_local u \<and> us_remote (snd (udp_send_to A U b e u)) = us_remote u"
  using ensure_open_keeps [of U "is_v4 A (ep_addr e)" u]
  by (cases "ensure_open U (is_v4 A (ep_addr e)) u")
    (simp add: udp_send_to_def Let_def split: prod.split result.split)

lemma udp_recv_from_keeps:
  "us_local (snd (snd (udp_recv_from A U n e u))) = us_local u \<and>
   us_remote (snd (snd (udp_recv_from A U n e u))) = us_remote u"
  using ensure_open_keeps [of U "is_v4 A (ep_addr e)" u]
  by (cases "ensure_open U (is_v4 A (ep_addr e)) u")
    (simp add: udp_recv_from_def Let_def split: prod.split result.split)

lemma udp_io_keeps:
  "us_local (snd (udp_send U b u)) = us_local u \<and> us_remote (snd (udp_send U b u)) = us_remote u"
  "us_local (snd (udp_recv U n u)) = us_local u \<and> us_remote (snd (udp_recv U n u)) = us_remote u"
  "us_local (snd (udp_wait U r u)) = us_local u \<and> us_remote (snd (udp_wait U r u)) = us_remote u"
  by (simp_all add: udp_send_def udp_recv_def udp_wait_def split: prod.split)

lemmas udp_keeps = bind_remote_keeps udp_send_to_keeps udp_recv_from_keeps udp_io_keeps
  udp_wait_read_def udp_wait_write_def

lemma udp_step_keeps:
  "us_remote (udp_step A U op u) = us_remote u"
  "(\<And>e. op \<noteq> U_bind_local e) \<Longrightarrow> us_local (udp_step A U op u) = us_local u"
proof -
  show "us_remote (udp_step A U op u) = us_remote u"
    by (cases op) (simp_all add: udp_keeps bind_local_effect)
  assume other: "\<And>e. op \<noteq> U_bind_local e"
  then show "us_local (udp_step A U op u) = us_local u"
  proof (cases op)
    case (U_bind_local e)
    with other show ?thesis by blast
  qed (simp_all add: udp_keeps)
qed

lemma opt_map_copy: "opt_map ret x w = (Inr x, w)"
proof (cases x)
  case (Opt v)
  then show ?thesis by (cases v) (simp_all add: ret_apply)
qed

lemma endpoint_queries: "local_endpoint u = us_local u" "remote_endpoint u = us_remote u"
  by (simp_all add: local_endpoint_def remote_endpoint_def opt_map_copy)

lemma udp_run_endpoints:
  "us_remote (fold (udp_step A U) ops u) = us_remote u \<and>
   (opt_inner (us_local u) = b \<longrightarrow> opt_inner (us_local (fold (udp_step A U) ops u)) = last_bound A U ops u b)"
proof (induction ops arbitrary: u b)
  case (Cons op ops)
  show ?case
  proof (cases "\<exists>e. op = U_bind_local e")
    case True
    then obtain e where "op = U_bind_local e" ..
    then show ?thesis
      using Cons.IH [of "snd (bind_local A U e u)" "if is_ok (fst (bind_local A U e u)) then Some e else b"]
      by (simp add: bind_local_effect)
  next
    case False
    then have "last_bound A U (op # ops) u b = last_bound A U ops (udp_step A U op u) b" by (cases op) auto
    with False show ?thesis
      using Cons.IH [of "udp_step A U op u" b] by (simp add: udp_step_keeps)
  qed
qed simp

section \<open>Properties\<close>

text \<open>
  C37: what a socket says of its endpoints, after any sequence of operations: the local endpoint
  is that of the last \<open>bind_local\<close> that succeeded; the remote endpoint is never known, even
  after a \<open>bind_remote\<close> that succeeded, because nothing ever stores it.
\<close>

theorem udp_endpoints:
  "opt_inner (local_endpoint (fold (udp_step A U) ops (udp_init s))) = last_bound A U ops (udp_init s) None \<and>
   \<not> opt_has_value (remote_endpoint (fold (udp_step A U) ops (udp_init s)))"
proof -
  let ?u = "fold (udp_step A U) ops (udp_init s)"
  from udp_run_endpoints [of A U ops "udp_init s" None]
  have "us_remote ?u = Opt None" and "opt_inner (us_local ?u) = last_bound A U ops (udp_init s) None"
    by (simp_all add: udp_init_def opt_default_def)
  then show ?thesis by (simp add: endpoint_queries opt_has_value_def)
qed

text \<open>
  Sending to a peer and receiving from one open the socket first when it is closed, with the
  version of the peer's address; when opening fails its error is the result and nothing is
  sent or received; else the outcome is the one asio reports, and \<open>recv_from\<close> leaves the
  sender in the peer.
\<close>

theorem udp_opens_first:
  assumes "so_open U (is_v4 A (ep_addr peer)) (us_sock u) = (ec, s)"
  shows "(let s1 = (if so_is_open U (us_sock u) then us_sock u else s);
              failed = (\<not> so_is_open U (us_sock u) \<and> ec \<noteq> 0)
          in udp_send_to A U buf peer u =
               (if failed then (Err_holder ec, u\<lparr>us_sock := s\<rparr>)
                else (case so_send_to U buf peer s1 of (ec2, cnt, s2) \<Rightarrow>
                       (if ec2 \<noteq> 0 then Err_holder ec2 else Ok_holder cnt, u\<lparr>us_sock := s2\<rparr>))) \<and>
             udp_recv_from A U n peer u =
               (if failed then (Err_holder ec, peer, u\<lparr>us_sock := s\<rparr>)
                else (case so_receive_from U n peer s1 of (ec2, cnt, from, s2) \<Rightarrow>
                       (if ec2 \<noteq> 0 then Err_holder ec2 else Ok_holder cnt, from, u\<lparr>us_sock := s2\<rparr>))))"
  using assms
  by (auto simp: udp_send_to_def udp_recv_from_def ensure_open_def udp_handler_defs result_defs Let_def
      split: prod.splits)

theorem udp_opens_first_witness:
  "\<exists>u :: (byte list + byte list, bool) udp_socket.
     udp_send_to bytes_asio \<lparr>so_is_open = id, so_open = (\<lambda>_ _. (24, False)), so_bind = (\<lambda>_ s. (0, s)),
       so_connect = (\<lambda>_ s. (0, s)), so_send = (\<lambda>b s. (0, length b, s)), so_send_to = (\<lambda>b _ s. (0, length b, s)),
       so_receive = (\<lambda>_ s. (0, 0, s)), so_receive_from = (\<lambda>_ e s. (0, 0, e, s)), so_wait = (\<lambda>_ s. (0, s)),
       so_available = (\<lambda>_. (0, 0))\<rparr> [1, 2] (endpoint_ctor (Ip (Inl [127, 0, 0, 1])) 53) (udp_init False) =
     (Err_holder 24, u)"
proof -
  let ?U = "\<lparr>so_is_open = id, so_open = (\<lambda>_ _. (24, False)), so_bind = (\<lambda>_ s. (0, s)),
       so_connect = (\<lambda>_ s. (0, s)), so_send = (\<lambda>b s. (0, length b, s)), so_send_to = (\<lambda>b _ s. (0, length b, s)),
       so_receive = (\<lambda>_ s. (0, 0, s)), so_receive_from = (\<lambda>_ e s. (0, 0, e, s)), so_wait = (\<lambda>_ s. (0, s)),
       so_available = (\<lambda>_. (0, 0))\<rparr> :: (byte list + byte list, bool) asio_udp"
  let ?u = "udp_init False :: (byte list + byte list, bool) udp_socket"
  have "so_open ?U (is_v4 bytes_asio (ep_addr (endpoint_ctor (Ip (Inl [127, 0, 0, 1])) 53))) (us_sock ?u) = (24, False)"
    by simp
  from udp_opens_first [OF this, of "[1, 2]"] show ?thesis by (simp add: udp_init_def)
qed

end
