(* ===== verification/Buffers.thy ===== *)
theory Buffers imports Type_Kinds "HOL-Library.Word" begin

text \<open>
  Byte buffers: the concepts \<open>byte_like\<close>, \<open>byte_like_pointer\<close> and \<open>buffer\<close>
  (include/crasy/utils.hpp), the overloads of \<open>udp_socket\<close> constrained by \<open>buffer\<close>
  (include/crasy/udp.hpp) and \<open>asio_buffer\<close> (src/internal.hpp). Sizes and copyability of the
  types of a program are parameters.
\<close>

section \<open>Spans\<close>

text \<open>\<^verbatim>\<open>std::span<T, n>\<close>, with \<open>None\<close> for a dynamic extent.\<close>

datatype span_type = Span (span_element: cpp_type) (span_extent: "nat option")

text \<open>\<^verbatim>\<open>std::byte\<close> is one of the object types, of size 1.\<close>

definition byte_type :: cpp_type where
  "byte_type = Object 0"

text \<open>
  \<^verbatim>\<open>std::as_bytes\<close> views the elements as constant bytes, as many as they occupy. A span converts
  to one of another element type only if that adds constness, and to a fixed extent only from the same extent.
\<close>

definition span_as_bytes :: "(cpp_type \<Rightarrow> nat) \<Rightarrow> span_type \<Rightarrow> span_type" where
  "span_as_bytes size_of s = Span (Const byte_type) (map_option (\<lambda>n. size_of (span_element s) * n) (span_extent s))"

definition span_converts :: "span_type \<Rightarrow> span_type \<Rightarrow> bool" where
  "span_converts s t \<longleftrightarrow>
     (span_element t = span_element s \<or> span_element t = add_const (span_element s)) \<and>
     (span_extent t = None \<or> span_extent t = span_extent s)"

definition const_bytes :: span_type where
  "const_bytes = Span (Const byte_type) None"

definition mutable_bytes :: span_type where
  "mutable_bytes = Span byte_type None"

section \<open>The concepts\<close>

definition byte_like :: "(cpp_type \<Rightarrow> nat) \<Rightarrow> (cpp_type \<Rightarrow> bool) \<Rightarrow> cpp_type \<Rightarrow> bool" where
  "byte_like size_of trivially_copyable t \<longleftrightarrow> size_of t = 1 \<and> trivially_copyable t"

fun byte_like_pointer :: "(cpp_type \<Rightarrow> nat) \<Rightarrow> (cpp_type \<Rightarrow> bool) \<Rightarrow> cpp_type \<Rightarrow> bool" where
  "byte_like_pointer size_of trivially_copyable (Pointer t) = byte_like size_of trivially_copyable t"
| "byte_like_pointer size_of trivially_copyable (Const (Pointer t)) = byte_like size_of trivially_copyable t"
| "byte_like_pointer size_of trivially_copyable t = False"

text \<open>
  \<open>span_of t\<close> is the span deduced from an lvalue of type \<open>t\<close>, if one is. The first requirement
  asks for exactly \<^verbatim>\<open>std::span<std::byte>\<close>, the second for a conversion.
\<close>

definition buffer :: "(cpp_type \<Rightarrow> nat) \<Rightarrow> (cpp_type \<Rightarrow> span_type option) \<Rightarrow> cpp_type \<Rightarrow> bool" where
  "buffer size_of span_of t \<longleftrightarrow>
     (case span_of t of None \<Rightarrow> False | Some s \<Rightarrow> span_as_bytes size_of s = mutable_bytes) \<and>
     (case span_of (add_const t) of None \<Rightarrow> False | Some s \<Rightarrow> span_converts (span_as_bytes size_of s) const_bytes)"

text \<open>
  The overloads of \<open>send\<close>, \<open>send_to\<close>, \<open>recv\<close> and \<open>recv_from\<close> for buffers: what the call
  is given, if the overload is a candidate for the type at all; the span overload it forwards to needs the
  conversion.
\<close>

definition buffer_overload :: "(cpp_type \<Rightarrow> nat) \<Rightarrow> (cpp_type \<Rightarrow> span_type option) \<Rightarrow> span_type \<Rightarrow> cpp_type
    \<Rightarrow> span_type option" where
  "buffer_overload size_of span_of target t =
     (if buffer size_of span_of t
      then (case span_of t of
              None \<Rightarrow> None
            | Some s \<Rightarrow> if span_converts (span_as_bytes size_of s) target then Some target else None)
      else None)"

definition send_buffer_overload :: "(cpp_type \<Rightarrow> nat) \<Rightarrow> (cpp_type \<Rightarrow> span_type option) \<Rightarrow> cpp_type \<Rightarrow> span_type option" where
  "send_buffer_overload size_of span_of t = buffer_overload size_of span_of const_bytes t"

definition send_to_buffer_overload :: "(cpp_type \<Rightarrow> nat) \<Rightarrow> (cpp_type \<Rightarrow> span_type option) \<Rightarrow> cpp_type \<Rightarrow> span_type option" where
  "send_to_buffer_overload size_of span_of t = buffer_overload size_of span_of const_bytes t"

definition recv_buffer_overload :: "(cpp_type \<Rightarrow> nat) \<Rightarrow> (cpp_type \<Rightarrow> span_type option) \<Rightarrow> cpp_type \<Rightarrow> span_type option" where
  "recv_buffer_overload size_of span_of t = buffer_overload size_of span_of mutable_bytes t"

definition recv_from_buffer_overload :: "(cpp_type \<Rightarrow> nat) \<Rightarrow> (cpp_type \<Rightarrow> span_type option) \<Rightarrow> cpp_type \<Rightarrow> span_type option" where
  "recv_from_buffer_overload size_of span_of t = buffer_overload size_of span_of mutable_bytes t"

section \<open>Buffers for asio\<close>

text \<open>A buffer is a pointer and the length of the span times the size of its elements, a \<open>size_t\<close>.\<close>

definition asio_const_buffer :: "nat \<Rightarrow> 'b list \<Rightarrow> 'b list \<times> 64 word" where
  "asio_const_buffer elem_size buf = (buf, of_nat (length buf) * of_nat elem_size)"

definition asio_mutable_buffer :: "nat \<Rightarrow> nat \<Rightarrow> 64 word" where
  "asio_mutable_buffer elem_size len = of_nat len * of_nat elem_size"

section \<open>Properties\<close>

text \<open>
  No type is a \<open>buffer\<close>: whatever its size and whatever span is deduced from it,
  \<open>span_as_bytes\<close> gives constant bytes where the concept asks for exactly mutable ones, so none of
  the four overloads can ever be chosen. Even without that requirement the two that receive could
  not be instantiated, because constant bytes do not convert to mutable ones.
\<close>

theorem no_type_is_a_buffer:
  "\<not> buffer size_of span_of t \<and> send_buffer_overload size_of span_of t = None \<and>
   send_to_buffer_overload size_of span_of t = None \<and> recv_buffer_overload size_of span_of t = None \<and>
   recv_from_buffer_overload size_of span_of t = None \<and> \<not> span_converts (span_as_bytes size_of s) mutable_bytes \<and>
   span_converts (span_as_bytes size_of s) const_bytes"
  by (auto simp: buffer_def span_as_bytes_def mutable_bytes_def const_bytes_def byte_type_def span_converts_def
      add_const_def buffer_overload_def send_buffer_overload_def send_to_buffer_overload_def
      recv_buffer_overload_def recv_from_buffer_overload_def split: option.splits)

text \<open>
  The size of a buffer is exact as long as the bytes of the span can be counted by a \<open>size_t\<close>,
  which every span that exists in memory satisfies; beyond that it would wrap.
\<close>

theorem asio_buffer_size_exact:
  "unat (snd (asio_const_buffer k buf)) = length buf * k mod 2 ^ 64 \<and>
   (length buf * k < 2 ^ 64 \<longrightarrow> unat (snd (asio_const_buffer k buf)) = length buf * k) \<and>
   unat (asio_mutable_buffer k n) = n * k mod 2 ^ 64"
  by (simp add: asio_const_buffer_def asio_mutable_buffer_def unat_of_nat flip: of_nat_mult)

theorem asio_buffer_size_exact_witness:
  "unat (snd (asio_const_buffer 1 [1, 2, 3 :: nat])) = 3"
  using asio_buffer_size_exact [of 1 "[1, 2, 3 :: nat]"] by simp

end
