(* ===== verification/Udp_Async.thy ===== *)
theory Udp_Async imports Udp Buffers Progress_Interface begin

text \<open>
  Several tasks using one \<open>udp_socket\<close> at once (src/udp.cpp, src/internal.hpp). Where \<open>Udp\<close> gives
  each operation by its completion, here the coroutines run step by step: \<open>ensure_open\<close> asks
  whether the socket is open, a blocking worker opens it, \<open>start\<close> hands the request to asio, asio
  completes it at any later moment by calling the handler, and the task awaits its operation's
  future. The tasks are numbered by their coroutine frames; a frame runs one operation, and its
  number is its handle.
\<close>

section \<open>Requests\<close>

datatype 'ip asio_request =
    A_connect "'ip endpoint"
  | A_send "byte list \<times> 64 word"
  | A_send_to "byte list \<times> 64 word" "'ip endpoint"
  | A_receive "64 word"
  | A_receive_from "64 word" "'ip endpoint"
  | A_wait bool

text \<open>The requests asio holds, by the future whose handler it will call.\<close>

type_synonym 'ip asio_pending = "nat \<rightharpoonup> 'ip asio_request"

definition connect_start :: "nat \<Rightarrow> 'ip endpoint \<Rightarrow> 'ip asio_pending \<Rightarrow> 'ip asio_pending" where
  "connect_start this ep p = p(this \<mapsto> A_connect ep)"

definition send_start :: "nat \<Rightarrow> byte list \<Rightarrow> 'ip asio_pending \<Rightarrow> 'ip asio_pending" where
  "send_start this buf p = p(this \<mapsto> A_send (asio_const_buffer 1 buf))"

definition send_to_start :: "nat \<Rightarrow> byte list \<Rightarrow> 'ip endpoint \<Rightarrow> 'ip asio_pending \<Rightarrow> 'ip asio_pending" where
  "send_to_start this buf peer p = p(this \<mapsto> A_send_to (asio_const_buffer 1 buf) peer)"

definition recv_start :: "nat \<Rightarrow> nat \<Rightarrow> 'ip asio_pending \<Rightarrow> 'ip asio_pending" where
  "recv_start this len p = p(this \<mapsto> A_receive (asio_mutable_buffer 1 len))"

definition recv_from_start :: "nat \<Rightarrow> nat \<Rightarrow> 'ip endpoint \<Rightarrow> 'ip asio_pending \<Rightarrow> 'ip asio_pending" where
  "recv_from_start this len asio_ep p = p(this \<mapsto> A_receive_from (asio_mutable_buffer 1 len) asio_ep)"

definition wait_start :: "nat \<Rightarrow> bool \<Rightarrow> 'ip asio_pending \<Rightarrow> 'ip asio_pending" where
  "wait_start this for_read p = p(this \<mapsto> A_wait for_read)"

text \<open>What a completed request gives: the member \<open>ret\<close> of the future, of one of two types.\<close>

type_synonym op_result = "(unit, int) result + (nat, int) result"

fun run_request :: "('ip, 's) asio_udp \<Rightarrow> 'ip asio_request \<Rightarrow> 'ip endpoint option \<Rightarrow> 's
    \<Rightarrow> op_result \<times> 'ip endpoint option \<times> 's" where
  "run_request U (A_connect ep) e s = (let (ec, s1) = so_connect U ep s in (Inl (connect_handler ec), e, s1))"
| "run_request U (A_send (d, n)) e s =
     (let (ec, cnt, s1) = so_send U (take (unat n) d) s in (Inr (send_handler ec cnt), e, s1))"
| "run_request U (A_send_to (d, n) peer) e s =
     (let (ec, cnt, s1) = so_send_to U (take (unat n) d) peer s in (Inr (send_to_handler ec cnt), e, s1))"
| "run_request U (A_receive n) e s =
     (let (ec, cnt, s1) = so_receive U (unat n) s in (Inr (recv_handler ec cnt), e, s1))"
| "run_request U (A_receive_from n ep) e s =
     (let (ec, cnt, from, s1) = so_receive_from U (unat n) ep s in (Inr (recv_from_handler ec cnt), Some from, s1))"
| "run_request U (A_wait r) e s = (let (ec, s1) = so_wait U r s in (Inl (wait_handler ec), e, s1))"

section \<open>The coroutines\<close>

datatype 'ip udp_pc =
    P_none
  | P_begin "'ip udp_op"
  | P_open "'ip udp_op"           \<comment> \<open>in \<open>ensure_open\<close>, the blocking function not run yet\<close>
  | P_opened "'ip udp_op" int     \<comment> \<open>it ran and left this error code\<close>
  | P_bind "'ip endpoint"         \<comment> \<open>in \<open>bind_local\<close>, the blocking function not run yet\<close>
  | P_bound "'ip endpoint" "(unit, int) result"
  | P_start "'ip udp_op"
  | P_ready "'ip udp_op"          \<comment> \<open>at \<open>co_await fut\<close>\<close>
  | P_suspend "'ip udp_op"
  | P_waiting "'ip udp_op"
  | P_resume "'ip udp_op"
  | P_done "'ip udp_op" op_result "'ip endpoint option"

record ('ip, 's) udp_sys =
  ua_socket :: "('ip, 's) udp_socket"
  ua_pc :: "nat \<Rightarrow> 'ip udp_pc"
  ua_fut :: "nat \<Rightarrow> op_result op_future"
  ua_ep :: "nat \<Rightarrow> 'ip endpoint option"   \<comment> \<open>the local \<open>ep\<close> that asio writes the sender to\<close>
  ua_pend :: "'ip asio_pending"
  ua_exec :: exec_ctx
  ua_fault :: "fault option"
  ua_opens :: "(nat \<times> int) list"          \<comment> \<open>every call of \<open>sock_.open\<close> in \<open>ensure_open\<close>\<close>
  ua_completed :: "(nat \<times> op_result) list" \<comment> \<open>what asio reported, in order\<close>

definition udp_sys_init :: "'s \<Rightarrow> ('ip, 's) udp_sys" where
  "udp_sys_init s = \<lparr>ua_socket = udp_init s, ua_pc = (\<lambda>_. P_none), ua_fut = (\<lambda>_. op_future_init),
     ua_ep = (\<lambda>_. None), ua_pend = Map.empty, ua_exec = \<lparr>in_exec = True, posted = []\<rparr>,
     ua_fault = None, ua_opens = [], ua_completed = []\<rparr>"

datatype 'ip udp_label = Call nat "'ip udp_op" | Go nat | Block nat | Complete nat | Resume

text \<open>The peer an operation opens the socket for, if it goes through \<open>ensure_open\<close>.\<close>

fun opens_for :: "'ip udp_op \<Rightarrow> 'ip endpoint option" where
  "opens_for (U_bind_remote e) = Some e"
| "opens_for (U_send_to b e) = Some e"
| "opens_for (U_recv_from n e) = Some e"
| "opens_for op = None"

fun open_failed :: "'ip udp_op \<Rightarrow> int \<Rightarrow> op_result" where
  "open_failed (U_bind_remote e) ec = Inl (result_of_err id (err ec))"
| "open_failed op ec = Inr (result_of_err id (err ec))"

fun start_op :: "nat \<Rightarrow> 'ip udp_op \<Rightarrow> 'ip asio_pending \<Rightarrow> 'ip asio_pending" where
  "start_op i (U_bind_remote e) p = connect_start i (asio_endpoint e) p"
| "start_op i (U_send b) p = send_start i b p"
| "start_op i (U_send_to b e) p = send_to_start i b (asio_endpoint e) p"
| "start_op i (U_recv n) p = recv_start i n p"
| "start_op i (U_recv_from n e) p = recv_from_start i n (asio_endpoint e) p"
| "start_op i (U_wait r) p = wait_start i r p"
| "start_op i (U_bind_local e) p = p"

text \<open>Up to the first \<open>co_await\<close>: \<open>ensure_open\<close> asks whether the socket is open.\<close>

fun begin_pc :: "bool \<Rightarrow> 'ip udp_op \<Rightarrow> 'ip udp_pc" where
  "begin_pc is_open (U_bind_local e) = P_bind e"
| "begin_pc is_open op = (if opens_for op \<noteq> None \<and> \<not> is_open then P_open op else P_start op)"

definition set_pc :: "nat \<Rightarrow> 'ip udp_pc \<Rightarrow> ('ip, 's) udp_sys \<Rightarrow> ('ip, 's) udp_sys" where
  "set_pc i pc s = s\<lparr>ua_pc := (ua_pc s)(i := pc)\<rparr>"

text \<open>
  One step of the coroutine itself, up to the next point where others may come in between. The futures of \<open>ensure_open\<close>
  and \<open>recv_from_impl\<close>, which the operation awaits in turn, have no steps of their own: where one of them is never
  scheduled (\<open>Future\<close>), the task takes no further step here. What the runs say of what has happened is not
  changed by that; that a call returns they show only where those futures are scheduled.
\<close>

fun coroutine_step :: "('ip, 's) asio_udp \<Rightarrow> nat \<Rightarrow> 'ip udp_pc \<Rightarrow> ('ip, 's) udp_sys \<Rightarrow> ('ip, 's) udp_sys option" where
  "coroutine_step U i (P_begin op) s = Some (set_pc i (begin_pc (so_is_open U (us_sock (ua_socket s))) op) s)"
| "coroutine_step U i (P_opened op ec) s =
     Some (if ec \<noteq> 0 then set_pc i (P_done op (open_failed op ec) (opens_for op)) s else set_pc i (P_start op) s)"
| "coroutine_step U i (P_bound e r) s = Some (set_pc i (P_done (U_bind_local e) (Inl r) None) s)"
| "coroutine_step U i (P_start op) s =
     Some (set_pc i (P_ready op)
       (s\<lparr>ua_pend := start_op i op (ua_pend s), ua_ep := (ua_ep s)(i := opens_for op)\<rparr>))"
| "coroutine_step U i (P_ready op) s =
     Some (set_pc i (if op_await_ready (ua_fut s i) then P_resume op else P_suspend op) s)"
| "coroutine_step U i (P_suspend op) s =
     (let (r, f, ex) = op_await_suspend i (ua_fut s i, ua_exec s)
      in Some (set_pc i (P_waiting op)
           (s\<lparr>ua_fut := (ua_fut s)(i := f), ua_exec := ex, ua_fault := wake_fault r\<rparr>)))"
| "coroutine_step U i (P_resume op) s =
     (case op_await_resume (ua_fut s i) of
        Inl flt \<Rightarrow> Some (s\<lparr>ua_fault := Some flt\<rparr>)
      | Inr r \<Rightarrow> Some (set_pc i (P_done op r (ua_ep s i)) s))"
| "coroutine_step U i pc s = None"

text \<open>
  A blocking worker, if one takes the task (see \<open>Executor\<close> for when none does), runs the function that the coroutine gave
  to \<open>spawn_blocking\<close>; a call of asio is one step.
\<close>

fun blocking_step :: "('v4, 'v6, 'ip) asio_ip \<Rightarrow> ('ip, 's) asio_udp \<Rightarrow> nat \<Rightarrow> 'ip udp_pc
    \<Rightarrow> ('ip, 's) udp_sys \<Rightarrow> ('ip, 's) udp_sys option" where
  "blocking_step A U i (P_open op) s =
     (case opens_for op of
        None \<Rightarrow> None
      | Some e \<Rightarrow>
          (let u = ua_socket s; (ec, sk) = so_open U (is_v4 A (ep_addr e)) (us_sock u)
           in Some (set_pc i (P_opened op ec)
                (s\<lparr>ua_socket := u\<lparr>us_sock := sk\<rparr>, ua_opens := ua_opens s @ [(i, ec)]\<rparr>))))"
| "blocking_step A U i (P_bind e) s =
     (let (r, u) = bind_local A U e (ua_socket s) in Some (set_pc i (P_bound e r) (s\<lparr>ua_socket := u\<rparr>)))"
| "blocking_step A U i pc s = None"

text \<open>asio completes the request of future \<open>i\<close>: it calls the handler that \<open>start\<close> registered.\<close>

definition complete_step :: "('ip, 's) asio_udp \<Rightarrow> nat \<Rightarrow> ('ip, 's) udp_sys \<Rightarrow> ('ip, 's) udp_sys option" where
  "complete_step U i s =
     (case ua_pend s i of
        None \<Rightarrow> None
      | Some rq \<Rightarrow>
          (let u = ua_socket s; (res, e, sk) = run_request U rq (ua_ep s i) (us_sock u);
               (r, f, ex) = op_handler res (ua_fut s i, ua_exec s)
           in Some (s\<lparr>ua_socket := u\<lparr>us_sock := sk\<rparr>, ua_pend := (ua_pend s)(i := None), ua_ep := (ua_ep s)(i := e),
                ua_fut := (ua_fut s)(i := f), ua_exec := ex, ua_fault := wake_fault r,
                ua_completed := ua_completed s @ [(i, res)]\<rparr>)))"

text \<open>The executor runs the oldest posted handle; resuming a frame that is not suspended is a fault.\<close>

definition resume_step :: "('ip, 's) udp_sys \<Rightarrow> ('ip, 's) udp_sys option" where
  "resume_step s =
     (case posted (ua_exec s) of
        [] \<Rightarrow> None
      | h # hs \<Rightarrow>
          (let s1 = s\<lparr>ua_exec := (ua_exec s)\<lparr>posted := hs\<rparr>\<rparr>
           in Some (case ua_pc s h of
                      P_waiting op \<Rightarrow> set_pc h (P_resume op) s1
                    | _ \<Rightarrow> s1\<lparr>ua_fault := Some (Undefined Null_resume)\<rparr>)))"

fun udp_sys_step :: "('v4, 'v6, 'ip) asio_ip \<Rightarrow> ('ip, 's) asio_udp \<Rightarrow> 'ip udp_label
    \<Rightarrow> ('ip, 's) udp_sys \<Rightarrow> ('ip, 's) udp_sys option" where
  "udp_sys_step A U (Call i op) s = (case ua_pc s i of P_none \<Rightarrow> Some (set_pc i (P_begin op) s) | _ \<Rightarrow> None)"
| "udp_sys_step A U (Go i) s = (if ua_fault s = None then coroutine_step U i (ua_pc s i) s else None)"
| "udp_sys_step A U (Block i) s = (if ua_fault s = None then blocking_step A U i (ua_pc s i) s else None)"
| "udp_sys_step A U (Complete i) s = (if ua_fault s = None then complete_step U i s else None)"
| "udp_sys_step A U Resume s = (if ua_fault s = None then resume_step s else None)"

section \<open>The invariant of one task\<close>

definition outcomes :: "nat \<Rightarrow> ('ip, 's) udp_sys \<Rightarrow> op_result list" where
  "outcomes i s = map snd (filter (\<lambda>c. fst c = i) (ua_completed s))"

definition opened :: "nat \<Rightarrow> ('ip, 's) udp_sys \<Rightarrow> int list" where
  "opened i s = map snd (filter (\<lambda>c. fst c = i) (ua_opens s))"

text \<open>
  What a task's position says of the request it has with asio, the state of its future, whether its
  handle is posted, what asio reported for it, and how its open went.
\<close>

fun pc_ok :: "'ip udp_pc \<Rightarrow> bool \<Rightarrow> op_result op_future \<Rightarrow> nat \<Rightarrow> bool \<Rightarrow> op_result list \<Rightarrow> int list \<Rightarrow> bool" where
  "pc_ok (P_opened op ec) pend f i post out op_ecs =
     (\<not> pend \<and> f = op_future_init \<and> \<not> post \<and> out = [] \<and> op_ecs = [ec] \<and> opens_for op \<noteq> None)"
| "pc_ok (P_start op) pend f i post out op_ecs =
     (\<not> pend \<and> f = op_future_init \<and> \<not> post \<and> out = [] \<and> set op_ecs \<subseteq> {0} \<and> (\<forall>e. op \<noteq> U_bind_local e))"
| "pc_ok (P_ready op) pend f i post out op_ecs =
     (\<not> post \<and> set op_ecs \<subseteq> {0} \<and>
      (if pend then f = op_future_init \<and> out = []
       else io_suspended (of_io f) = Io_done \<and> (\<exists>r. of_ret f = Some r \<and> out = [r])))"
| "pc_ok (P_suspend op) pend f i post out op_ecs =
     (\<not> post \<and> set op_ecs \<subseteq> {0} \<and>
      (if pend then f = op_future_init \<and> out = []
       else io_suspended (of_io f) = Io_done \<and> (\<exists>r. of_ret f = Some r \<and> out = [r])))"
| "pc_ok (P_waiting op) pend f i post out op_ecs =
     (set op_ecs \<subseteq> {0} \<and>
      (if pend then io_suspended (of_io f) = Io_handle i \<and> \<not> post \<and> out = []
       else post \<and> (\<exists>r. of_ret f = Some r \<and> out = [r])))"
| "pc_ok (P_resume op) pend f i post out op_ecs =
     (\<not> post \<and> set op_ecs \<subseteq> {0} \<and> \<not> pend \<and> (\<exists>r. of_ret f = Some r \<and> out = [r]))"
| "pc_ok (P_done op r e) pend f i post out op_ecs =
     (\<not> post \<and> \<not> pend \<and>
      ((\<exists>b. op = U_bind_local b) \<and> out = [] \<and> op_ecs = [] \<or>
       out = [r] \<and> set op_ecs \<subseteq> {0} \<or>
       (\<exists>ec. out = [] \<and> op_ecs = [ec] \<and> ec \<noteq> 0 \<and> r = open_failed op ec)))"
| "pc_ok (P_open op) pend f i post out op_ecs =
     (\<not> pend \<and> f = op_future_init \<and> \<not> post \<and> out = [] \<and> op_ecs = [] \<and> opens_for op \<noteq> None)"
| "pc_ok pc pend f i post out op_ecs = (\<not> pend \<and> f = op_future_init \<and> \<not> post \<and> out = [] \<and> op_ecs = [])"

definition task_ok :: "('ip, 's) udp_sys \<Rightarrow> nat \<Rightarrow> bool" where
  "task_ok s i = pc_ok (ua_pc s i) (ua_pend s i \<noteq> None) (ua_fut s i) i (i \<in> set (posted (ua_exec s)))
     (outcomes i s) (opened i s)"

definition udp_inv :: "('ip, 's) udp_sys \<Rightarrow> bool" where
  "udp_inv s \<longleftrightarrow> (\<forall>i. task_ok s i) \<and> ua_fault s = None \<and> in_exec (ua_exec s) \<and> distinct (posted (ua_exec s))"

lemma udp_invD:
  assumes "udp_inv s"
  shows "task_ok s i" and "ua_fault s = None" and "in_exec (ua_exec s)" and "distinct (posted (ua_exec s))"
  using assms by (simp_all add: udp_inv_def)

text \<open>A step of one task leaves what the others' parts of the invariant say.\<close>

lemma task_ok_frame:
  assumes "task_ok s j" and "ua_pc t j = ua_pc s j" and "ua_pend t j = ua_pend s j" and "ua_fut t j = ua_fut s j"
    and "j \<in> set (posted (ua_exec t)) \<longleftrightarrow> j \<in> set (posted (ua_exec s))"
    and "outcomes j t = outcomes j s" and "opened j t = opened j s"
  shows "task_ok t j"
  using assms by (simp add: task_ok_def)

lemma set_pc_sel [simp]:
  "ua_socket (set_pc i pc s) = ua_socket s" "ua_pc (set_pc i pc s) = (ua_pc s)(i := pc)"
  "ua_fut (set_pc i pc s) = ua_fut s" "ua_ep (set_pc i pc s) = ua_ep s" "ua_pend (set_pc i pc s) = ua_pend s"
  "ua_exec (set_pc i pc s) = ua_exec s" "ua_fault (set_pc i pc s) = ua_fault s"
  "ua_opens (set_pc i pc s) = ua_opens s" "ua_completed (set_pc i pc s) = ua_completed s"
  "outcomes j (set_pc i pc s) = outcomes j s" "opened j (set_pc i pc s) = opened j s"
  by (simp_all add: set_pc_def outcomes_def opened_def)

lemmas start_defs = connect_start_def send_start_def send_to_start_def recv_start_def recv_from_start_def
  wait_start_def

lemma start_op_other [simp]: "j \<noteq> i \<Longrightarrow> start_op i op p j = p j"
  by (cases op) (simp_all add: start_defs)

lemma start_op_own: "(\<forall>e. op \<noteq> U_bind_local e) \<Longrightarrow> start_op i op p i \<noteq> None"
  by (cases op) (simp_all add: start_defs)

lemma op_await_suspend_effect:
  assumes "in_exec ex" and "op_await_suspend i (f, ex) = (r, f', ex')"
  shows "r = Inr () \<and> f' = f\<lparr>of_io := (of_io f)\<lparr>io_suspended := Io_handle i\<rparr>\<rparr> \<and>
         ex' = (if io_suspended (of_io f) = Io_done then ex\<lparr>posted := posted ex @ [i]\<rparr> else ex)"
  using assms by (auto simp: op_await_suspend_def io_await_suspend_def split: if_splits prod.splits)

text \<open>The frame of a coroutine's step.\<close>

lemma coroutine_step_frame:
  assumes step: "coroutine_step U i pc s = Some t" and ex: "in_exec (ua_exec s)" and j: "j \<noteq> i"
  shows "ua_pc t j = ua_pc s j \<and> ua_pend t j = ua_pend s j \<and> ua_fut t j = ua_fut s j \<and>
         (j \<in> set (posted (ua_exec t)) \<longleftrightarrow> j \<in> set (posted (ua_exec s))) \<and>
         ua_completed t = ua_completed s \<and> ua_opens t = ua_opens s \<and> ua_socket t = ua_socket s \<and>
         in_exec (ua_exec t)"
proof (cases pc)
  case (P_suspend op)
  obtain r f ex' where c: "op_await_suspend i (ua_fut s i, ua_exec s) = (r, f, ex')" by (metis prod_cases3)
  with op_await_suspend_effect [OF ex c] P_suspend step j ex show ?thesis by (auto split: if_splits)
next
  case (P_resume op)
  with step j ex show ?thesis by (cases "op_await_resume (ua_fut s i)") auto
qed (use step j ex in \<open>auto split: if_splits\<close>)

lemma outcomes_cong: "ua_completed t = ua_completed s \<Longrightarrow> outcomes j t = outcomes j s"
  by (simp add: outcomes_def)

lemma opened_cong: "ua_opens t = ua_opens s \<Longrightarrow> opened j t = opened j s"
  by (simp add: opened_def)

lemma coroutine_step_others:
  assumes step: "coroutine_step U i pc s = Some t" and inv: "udp_inv s" and j: "j \<noteq> i"
  shows "task_ok t j"
  using task_ok_frame [OF udp_invD(1) [OF inv, of j], of t]
    coroutine_step_frame [OF step udp_invD(3) [OF inv] j] outcomes_cong [of t s j] opened_cong [of t s j] by simp

lemma begin_pc_cases:
  obtains (binds) e where "op = U_bind_local e" "begin_pc b op = P_bind e"
  | (opens) "begin_pc b op = P_open op" "opens_for op \<noteq> None" "\<not> b" "\<forall>e. op \<noteq> U_bind_local e"
  | (starts) "begin_pc b op = P_start op" "\<forall>e. op \<noteq> U_bind_local e" "opens_for op \<noteq> None \<longrightarrow> b"
  by (cases op; cases b) auto

lemma coroutine_step_self:
  assumes step: "coroutine_step U i (ua_pc s i) s = Some t" and inv: "udp_inv s"
  shows "task_ok t i \<and> ua_fault t = None \<and> distinct (posted (ua_exec t))"
proof -
  note ok = udp_invD(1) [OF inv, of i] and rest = udp_invD(2-4) [OF inv]
  show ?thesis
  proof (cases "ua_pc s i")
    case (P_begin op)
    with step ok rest show ?thesis
      by (cases rule: begin_pc_cases [of op "so_is_open U (us_sock (ua_socket s))"]) (auto simp: task_ok_def)
  next
    case (P_opened op ec)
    with step ok rest show ?thesis by (auto simp: task_ok_def split: if_splits)
  next
    case (P_start op)
    with step ok rest have t: "t = set_pc i (P_ready op)
       (s\<lparr>ua_pend := start_op i op (ua_pend s), ua_ep := (ua_ep s)(i := opens_for op)\<rparr>)"
      and op: "\<forall>e. op \<noteq> U_bind_local e" by (auto simp: task_ok_def)
    from P_start t op ok rest start_op_own [OF op, of i "ua_pend s"] show ?thesis
      by (auto simp: task_ok_def outcomes_def opened_def)
  next
    case (P_ready op)
    with step ok rest show ?thesis
      by (auto simp: task_ok_def op_defs io_defs split: if_splits)
  next
    case (P_suspend op)
    obtain r f ex' where c: "op_await_suspend i (ua_fut s i, ua_exec s) = (r, f, ex')" by (metis prod_cases3)
    from P_suspend step c have t: "t = set_pc i (P_waiting op)
        (s\<lparr>ua_fut := (ua_fut s)(i := f), ua_exec := ex', ua_fault := wake_fault r\<rparr>)" by simp
    from op_await_suspend_effect [OF rest(2) c] P_suspend t ok rest show ?thesis
      by (auto simp: task_ok_def outcomes_def opened_def wake_fault_def op_defs io_defs split: if_splits)
  next
    case (P_resume op)
    with ok obtain r where r: "of_ret (ua_fut s i) = Some r" by (auto simp: task_ok_def)
    with P_resume step ok rest show ?thesis by (auto simp: task_ok_def op_await_resume_def)
  qed (use step ok rest in \<open>auto simp: task_ok_def\<close>)
qed

lemma coroutine_step_inv:
  assumes "coroutine_step U i (ua_pc s i) s = Some t" and "udp_inv s"
  shows "udp_inv t"
proof -
  have "task_ok t j" for j
    using coroutine_step_self [OF assms] coroutine_step_others [OF assms, of j] by (cases "j = i") simp_all
  then show ?thesis
    using coroutine_step_self [OF assms] coroutine_step_frame [OF assms(1) udp_invD(3) [OF assms(2)], of "Suc i"]
    by (simp add: udp_inv_def)
qed

lemma blocking_step_inv:
  assumes step: "blocking_step A U i (ua_pc s i) s = Some t" and inv: "udp_inv s"
  shows "udp_inv t"
proof -
  note ok = udp_invD(1) [OF inv] and rest = udp_invD(2-4) [OF inv]
  show ?thesis
  proof (cases "ua_pc s i")
    case (P_open op)
    with ok [of i] obtain e where e: "opens_for op = Some e" by (auto simp: task_ok_def)
    obtain ec sk where o: "so_open U (is_v4 A (ep_addr e)) (us_sock (ua_socket s)) = (ec, sk)" by fastforce
    from P_open step e o have t: "t = set_pc i (P_opened op ec) (s\<lparr>ua_socket := (ua_socket s)\<lparr>us_sock := sk\<rparr>,
        ua_opens := ua_opens s @ [(i, ec)]\<rparr>)" by simp
    have "task_ok t j" for j
      using ok [of j] ok [of i] P_open by (cases "j = i") (auto simp: t task_ok_def outcomes_def opened_def)
    with rest t show ?thesis by (simp add: udp_inv_def)
  next
    case (P_bind e)
    obtain r u where o: "bind_local A U e (ua_socket s) = (r, u)" by fastforce
    from P_bind step o have t: "t = set_pc i (P_bound e r) (s\<lparr>ua_socket := u\<rparr>)" by simp
    have "task_ok t j" for j
      using ok [of j] ok [of i] P_bind by (cases "j = i") (auto simp: t task_ok_def outcomes_def opened_def)
    with rest t show ?thesis by (simp add: udp_inv_def)
  qed (use step in simp_all)
qed

lemma outcomes_snoc: "ua_completed t = ua_completed s @ [(i, r)] \<Longrightarrow>
    outcomes j t = (if j = i then outcomes j s @ [r] else outcomes j s)"
  by (simp add: outcomes_def)

text \<open>The handler stores the result and posts the handle if the task had suspended.\<close>

lemma op_handler_waiting:
  "in_exec ex \<Longrightarrow> io_suspended (of_io f) = Io_handle h \<Longrightarrow>
   op_handler res (f, ex) = (Inr (), f\<lparr>of_ret := Some res, of_io := (of_io f)\<lparr>io_suspended := Io_done\<rparr>\<rparr>,
     ex\<lparr>posted := posted ex @ [h]\<rparr>)"
  by (simp add: op_handler_def io_finish_def)

lemma op_handler_init:
  "op_handler res (op_future_init, ex) =
     (Inr (), op_future_init\<lparr>of_ret := Some res, of_io := io_future_init\<lparr>io_suspended := Io_done\<rparr>\<rparr>, ex)"
  by (simp add: op_handler_def io_finish_def op_future_init_def io_future_init_def)

lemma complete_step_inv:
  assumes step: "complete_step U i s = Some t" and inv: "udp_inv s"
  shows "udp_inv t"
proof -
  note ok = udp_invD(1) [OF inv] and rest = udp_invD(2-4) [OF inv]
  from step obtain rq where rq: "ua_pend s i = Some rq" by (auto simp: complete_step_def split: option.splits)
  obtain res e sk where r: "run_request U rq (ua_ep s i) (us_sock (ua_socket s)) = (res, e, sk)" by (metis prod_cases3)
  obtain r1 f ex where h: "op_handler res (ua_fut s i, ua_exec s) = (r1, f, ex)" by (metis prod_cases3)
  from step rq r h have t: "t = s\<lparr>ua_socket := (ua_socket s)\<lparr>us_sock := sk\<rparr>, ua_pend := (ua_pend s)(i := None),
      ua_ep := (ua_ep s)(i := e), ua_fut := (ua_fut s)(i := f), ua_exec := ex, ua_fault := wake_fault r1,
      ua_completed := ua_completed s @ [(i, res)]\<rparr>" by (simp add: complete_step_def)
  have out: "outcomes j t = (if j = i then outcomes j s @ [res] else outcomes j s)" for j
    by (rule outcomes_snoc) (simp add: t)
  have ops: "opened j t = opened j s" for j by (rule opened_cong) (simp add: t)
  from ok [of i] rq have "(\<exists>op. ua_pc s i \<in> {P_ready op, P_suspend op}) \<and> ua_fut s i = op_future_init \<or>
      (\<exists>op. ua_pc s i = P_waiting op) \<and> io_suspended (of_io (ua_fut s i)) = Io_handle i"
    by (cases "ua_pc s i") (auto simp: task_ok_def)
  then show ?thesis
  proof
    assume a: "(\<exists>op. ua_pc s i \<in> {P_ready op, P_suspend op}) \<and> ua_fut s i = op_future_init"
    with h op_handler_init [of res "ua_exec s"] have "r1 = Inr ()" "ex = ua_exec s"
      and f: "f = op_future_init\<lparr>of_ret := Some res, of_io := io_future_init\<lparr>io_suspended := Io_done\<rparr>\<rparr>" by auto
    moreover from this have "task_ok t j" for j
      using ok [of j] ok [of i] a rq out [of j] ops [of j] by (cases "j = i") (auto simp: task_ok_def t)
    ultimately show ?thesis using rest t by (simp add: udp_inv_def wake_fault_def)
  next
    assume a: "(\<exists>op. ua_pc s i = P_waiting op) \<and> io_suspended (of_io (ua_fut s i)) = Io_handle i"
    with h op_handler_waiting [OF rest(2), of "ua_fut s i" i res]
    have e: "r1 = Inr ()" "ex = (ua_exec s)\<lparr>posted := posted (ua_exec s) @ [i]\<rparr>"
      and f: "f = (ua_fut s i)\<lparr>of_ret := Some res, of_io := (of_io (ua_fut s i))\<lparr>io_suspended := Io_done\<rparr>\<rparr>" by auto
    from ok [of i] a rq have "i \<notin> set (posted (ua_exec s))" by (auto simp: task_ok_def)
    moreover have "task_ok t j" for j
      using ok [of j] ok [of i] a e f rq out [of j] ops [of j] by (cases "j = i") (auto simp: task_ok_def t)
    ultimately show ?thesis using rest t e by (simp add: udp_inv_def wake_fault_def)
  qed
qed

lemma resume_step_inv:
  assumes step: "resume_step s = Some t" and inv: "udp_inv s"
  shows "udp_inv t"
proof -
  note ok = udp_invD(1) [OF inv] and rest = udp_invD(2-4) [OF inv]
  from step obtain h hs where p: "posted (ua_exec s) = h # hs" by (auto simp: resume_step_def split: list.splits)
  with ok [of h] obtain op where op: "ua_pc s h = P_waiting op" by (cases "ua_pc s h") (auto simp: task_ok_def)
  with step p have t: "t = set_pc h (P_resume op) (s\<lparr>ua_exec := (ua_exec s)\<lparr>posted := hs\<rparr>\<rparr>)"
    by (simp add: resume_step_def Let_def)
  have "task_ok t j" for j
    using ok [of j] ok [of h] op p rest(3)
    by (cases "j = h") (auto simp: t task_ok_def outcomes_def opened_def split: if_splits)
  with rest p t show ?thesis by (simp add: udp_inv_def)
qed

lemma udp_step_inv:
  assumes step: "udp_sys_step A U l s = Some t" and inv: "udp_inv s"
  shows "udp_inv t"
proof (cases l)
  case (Call i op)
  with step have p: "ua_pc s i = P_none" and t: "t = set_pc i (P_begin op) s" by (auto split: udp_pc.splits)
  have "task_ok t j" for j
    using udp_invD(1) [OF inv, of j] udp_invD(1) [OF inv, of i] p by (cases "j = i") (auto simp: t task_ok_def)
  with udp_invD(2-4) [OF inv] t show ?thesis by (simp add: udp_inv_def)
qed (use step inv in \<open>auto split: if_splits intro: coroutine_step_inv blocking_step_inv complete_step_inv resume_step_inv\<close>)

lemma udp_inv_init: "udp_inv (udp_sys_init s)"
  by (simp add: udp_inv_def task_ok_def udp_sys_init_def outcomes_def opened_def)

lemma udp_reach_inv: "reach (udp_sys_init s0) (udp_sys_step A U) s \<Longrightarrow> udp_inv s"
  by (erule reach_invariant) (auto intro: udp_inv_init udp_step_inv)

end
