(* ===== verification/Udp_Tasks.thy ===== *)
theory Udp_Tasks imports Udp_Async begin

text \<open>
  What the tasks of \<open>Udp_Async\<close> can rely on: each is woken exactly once with what asio reported
  for its request, every call returns, an operation that is not disturbed on the socket does what
  \<open>Udp\<close> says of it, and \<open>ensure_open\<close> is not atomic: of the tasks that found the socket
  closed one opens it and the others fail.
\<close>

section \<open>An undisturbed operation is the call\<close>

fun udp_call :: "('v4, 'v6, 'ip) asio_ip \<Rightarrow> ('ip, 's) asio_udp \<Rightarrow> 'ip udp_op \<Rightarrow> ('ip, 's) udp_socket
    \<Rightarrow> op_result \<times> 'ip endpoint option \<times> ('ip, 's) udp_socket" where
  "udp_call A U (U_bind_local e) u = (let (r, u1) = bind_local A U e u in (Inl r, None, u1))"
| "udp_call A U (U_bind_remote e) u = (let (r, u1) = bind_remote A U e u in (Inl r, Some e, u1))"
| "udp_call A U (U_send b) u = (let (r, u1) = udp_send U b u in (Inr r, None, u1))"
| "udp_call A U (U_send_to b e) u = (let (r, u1) = udp_send_to A U b e u in (Inr r, Some e, u1))"
| "udp_call A U (U_recv n) u = (let (r, u1) = udp_recv U n u in (Inr r, None, u1))"
| "udp_call A U (U_recv_from n e) u = (let (r, e1, u1) = udp_recv_from A U n e u in (Inr r, Some e1, u1))"
| "udp_call A U (U_wait w) u = (let (r, u1) = udp_wait U w u in (Inl r, None, u1))"

text \<open>Buffers are no longer than a \<open>size_t\<close> can say.\<close>

fun op_fits :: "'ip udp_op \<Rightarrow> bool" where
  "op_fits (U_send b) = (length b < 2 ^ 64)"
| "op_fits (U_send_to b e) = (length b < 2 ^ 64)"
| "op_fits (U_recv n) = (n < 2 ^ 64)"
| "op_fits (U_recv_from n e) = (n < 2 ^ 64)"
| "op_fits op = True"

definition request_of :: "'ip udp_op \<Rightarrow> 'ip asio_request" where
  "request_of op = the (start_op 0 op Map.empty 0)"

lemma start_op_request: "(\<forall>e. op \<noteq> U_bind_local e) \<Longrightarrow> start_op i op p i = Some (request_of op)"
  by (cases op) (simp_all add: start_defs request_of_def)

definition io_outlook :: "('ip, 's) asio_udp \<Rightarrow> 'ip asio_request \<Rightarrow> 'ip endpoint option \<Rightarrow> ('ip, 's) udp_socket
    \<Rightarrow> op_result \<times> 'ip endpoint option \<times> ('ip, 's) udp_socket" where
  "io_outlook U rq e u = (let (r, e1, sk) = run_request U rq e (us_sock u) in (r, e1, u\<lparr>us_sock := sk\<rparr>))"

text \<open>What a task will return, and the socket it will leave, if nobody else comes in between.\<close>

fun outlook :: "('v4, 'v6, 'ip) asio_ip \<Rightarrow> ('ip, 's) asio_udp \<Rightarrow> 'ip asio_request option \<Rightarrow> op_result option
    \<Rightarrow> 'ip endpoint option \<Rightarrow> ('ip, 's) udp_socket \<Rightarrow> 'ip udp_pc
    \<Rightarrow> (op_result \<times> 'ip endpoint option \<times> ('ip, 's) udp_socket) option" where
  "outlook A U pend res ep u P_none = None"
| "outlook A U pend res ep u (P_begin op) = Some (udp_call A U op u)"
| "outlook A U pend res ep u (P_open op) =
     map_option (\<lambda>e. let (ec, sk) = so_open U (is_v4 A (ep_addr e)) (us_sock u); u1 = u\<lparr>us_sock := sk\<rparr>
                     in if ec \<noteq> 0 then (open_failed op ec, Some e, u1) else io_outlook U (request_of op) (Some e) u1)
       (opens_for op)"
| "outlook A U pend res ep u (P_opened op ec) =
     Some (if ec \<noteq> 0 then (open_failed op ec, opens_for op, u) else io_outlook U (request_of op) (opens_for op) u)"
| "outlook A U pend res ep u (P_bind e) = Some (udp_call A U (U_bind_local e) u)"
| "outlook A U pend res ep u (P_bound e r) = Some (Inl r, None, u)"
| "outlook A U pend res ep u (P_start op) = Some (io_outlook U (request_of op) (opens_for op) u)"
| "outlook A U pend res ep u (P_done op r e) = Some (r, e, u)"
| "outlook A U pend res ep u pc =
     (case pend of Some rq \<Rightarrow> Some (io_outlook U rq ep u) | None \<Rightarrow> map_option (\<lambda>r. (r, ep, u)) res)"

definition outlook_of :: "('v4, 'v6, 'ip) asio_ip \<Rightarrow> ('ip, 's) asio_udp \<Rightarrow> nat \<Rightarrow> ('ip, 's) udp_sys
    \<Rightarrow> (op_result \<times> 'ip endpoint option \<times> ('ip, 's) udp_socket) option" where
  "outlook_of A U i s =
     outlook A U (ua_pend s i) (of_ret (ua_fut s i)) (ua_ep s i) (ua_socket s) (ua_pc s i)"

lemma buffer_sent: "length b < 2 ^ 64 \<Longrightarrow> take (unat (of_nat (length b) :: 64 word)) b = b"
  by (simp add: unat_of_nat)

lemma call_direct:
  assumes "op_fits op" and "\<forall>e. op \<noteq> U_bind_local e" and "opens_for op \<noteq> None \<longrightarrow> so_is_open U (us_sock u)"
  shows "udp_call A U op u = io_outlook U (request_of op) (opens_for op) u"
  using assms
  by (cases op)
    (auto simp: request_of_def start_defs io_outlook_def asio_const_buffer_def asio_mutable_buffer_def buffer_sent
      unat_of_nat bind_remote_def ensure_open_def udp_send_def udp_send_to_def udp_recv_def udp_recv_from_def
      udp_wait_def result_defs split: prod.splits)

lemma call_opening:
  assumes "op_fits op" and e: "opens_for op = Some e" and "\<not> so_is_open U (us_sock u)"
    and "so_open U (is_v4 A (ep_addr e)) (us_sock u) = (ec, sk)"
  shows "udp_call A U op u =
    (if ec \<noteq> 0 then (open_failed op ec, Some e, u\<lparr>us_sock := sk\<rparr>)
     else io_outlook U (request_of op) (Some e) (u\<lparr>us_sock := sk\<rparr>))"
  using assms
  by (cases op)
    (auto simp: request_of_def start_defs io_outlook_def asio_const_buffer_def asio_mutable_buffer_def buffer_sent
      unat_of_nat bind_remote_def ensure_open_def udp_send_to_def udp_recv_from_def result_defs split: prod.splits)

text \<open>The steps that leave socket and task \<open>i\<close> alone, or are of task \<open>i\<close>.\<close>

fun undisturbed :: "nat \<Rightarrow> 'ip udp_label \<Rightarrow> bool" where
  "undisturbed i (Block j) = (j = i)"
| "undisturbed i (Complete j) = (j = i)"
| "undisturbed i l = True"

fun fits_pc :: "'ip udp_pc \<Rightarrow> bool" where
  "fits_pc (P_begin op) = op_fits op"
| "fits_pc pc = True"

lemma coroutine_step_ep: "coroutine_step U i pc s = Some t \<Longrightarrow> j \<noteq> i \<Longrightarrow> ua_ep t j = ua_ep s j"
  by (cases pc) (auto split: if_splits sum.splits prod.splits)

lemma outlook_coroutine_self:
  assumes step: "coroutine_step U i (ua_pc s i) s = Some t" and inv: "udp_inv s" and fits: "fits_pc (ua_pc s i)"
  shows "outlook_of A U i t = outlook_of A U i s"
proof -
  note ok = udp_invD(1) [OF inv, of i]
  show ?thesis
  proof (cases "ua_pc s i")
    case (P_begin op)
    let ?b = "so_is_open U (us_sock (ua_socket s))"
    show ?thesis
    proof (cases rule: begin_pc_cases [of op ?b])
      case (binds e)
      with P_begin step show ?thesis by (auto simp: outlook_of_def)
    next
      case opens
      then obtain e where e: "opens_for op = Some e" by auto
      obtain ec sk where o: "so_open U (is_v4 A (ep_addr e)) (us_sock (ua_socket s)) = (ec, sk)" by fastforce
      from call_opening [OF _ e _ o] P_begin fits opens have
        "udp_call A U op (ua_socket s) = (if ec \<noteq> 0 then (open_failed op ec, Some e, (ua_socket s)\<lparr>us_sock := sk\<rparr>)
           else io_outlook U (request_of op) (Some e) ((ua_socket s)\<lparr>us_sock := sk\<rparr>))" by simp
      with P_begin step opens e o show ?thesis by (auto simp: outlook_of_def)
    next
      case starts
      from call_direct [of op U "ua_socket s" A] P_begin fits starts have
        "udp_call A U op (ua_socket s) = io_outlook U (request_of op) (opens_for op) (ua_socket s)" by simp
      with P_begin step starts show ?thesis by (auto simp: outlook_of_def)
    qed
  next
    case (P_start op)
    with ok have "\<forall>e. op \<noteq> U_bind_local e" by (simp add: task_ok_def)
    from start_op_request [OF this, of i "ua_pend s"] P_start step ok show ?thesis
      by (auto simp: outlook_of_def task_ok_def)
  next
    case (P_suspend op)
    obtain r f ex' where c: "op_await_suspend i (ua_fut s i, ua_exec s) = (r, f, ex')" by (metis prod_cases3)
    with P_suspend step op_await_suspend_effect [OF udp_invD(3) [OF inv] c] show ?thesis
      by (auto simp: outlook_of_def)
  next
    case (P_resume op)
    with ok obtain r where "of_ret (ua_fut s i) = Some r" "ua_pend s i = None" by (auto simp: task_ok_def)
    with P_resume step show ?thesis by (auto simp: outlook_of_def op_await_resume_def)
  qed (use step in \<open>auto simp: outlook_of_def split: option.splits if_splits\<close>)
qed

lemma outlook_cong:
  assumes "ua_pend t i = ua_pend s i" and "of_ret (ua_fut t i) = of_ret (ua_fut s i)" and "ua_ep t i = ua_ep s i"
    and "ua_socket t = ua_socket s" and "ua_pc t i = ua_pc s i"
  shows "outlook_of A U i t = outlook_of A U i s"
  using assms by (simp add: outlook_of_def)

lemma outlook_blocking:
  assumes "blocking_step A U i (ua_pc s i) s = Some t"
  shows "outlook_of A U i t = outlook_of A U i s"
  using assms
  by (cases "ua_pc s i") (auto simp: outlook_of_def Let_def split: option.splits prod.splits)

lemma outlook_complete:
  assumes step: "complete_step U i s = Some t" and inv: "udp_inv s"
  shows "outlook_of A U i t = outlook_of A U i s"
proof -
  from step obtain rq where rq: "ua_pend s i = Some rq" by (auto simp: complete_step_def split: option.splits)
  obtain res e sk where r: "run_request U rq (ua_ep s i) (us_sock (ua_socket s)) = (res, e, sk)" by (metis prod_cases3)
  obtain r1 f ex where h: "op_handler res (ua_fut s i, ua_exec s) = (r1, f, ex)" by (metis prod_cases3)
  then have f: "of_ret f = Some res" by (auto simp: op_handler_def split: prod.splits)
  from step rq r h have t: "t = s\<lparr>ua_socket := (ua_socket s)\<lparr>us_sock := sk\<rparr>, ua_pend := (ua_pend s)(i := None),
      ua_ep := (ua_ep s)(i := e), ua_fut := (ua_fut s)(i := f), ua_exec := ex, ua_fault := wake_fault r1,
      ua_completed := ua_completed s @ [(i, res)]\<rparr>" by (simp add: complete_step_def)
  from udp_invD(1) [OF inv, of i] rq have "\<exists>op. ua_pc s i \<in> {P_ready op, P_suspend op, P_waiting op}"
    by (cases "ua_pc s i") (auto simp: task_ok_def)
  with t rq r f show ?thesis by (auto simp: outlook_of_def io_outlook_def)
qed

lemma outlook_resume:
  assumes step: "resume_step s = Some t" and inv: "udp_inv s"
  shows "outlook_of A U i t = outlook_of A U i s"
proof -
  from step obtain h hs where p: "posted (ua_exec s) = h # hs" by (auto simp: resume_step_def split: list.splits)
  with udp_invD(1) [OF inv, of h] obtain op where op: "ua_pc s h = P_waiting op" "ua_pend s h = None"
    by (cases "ua_pc s h") (auto simp: task_ok_def split: if_splits)
  with step p have t: "t = set_pc h (P_resume op) (s\<lparr>ua_exec := (ua_exec s)\<lparr>posted := hs\<rparr>\<rparr>)"
    by (simp add: resume_step_def Let_def)
  with op show ?thesis by (cases "i = h") (simp_all add: outlook_of_def)
qed

lemma begin_pc_moves: "begin_pc b op \<noteq> P_none \<and> fits_pc (begin_pc b op)"
  by (cases rule: begin_pc_cases [of op b]) simp_all

lemma coroutine_step_pc:
  "coroutine_step U i (ua_pc s i) s = Some t \<Longrightarrow> ua_pc t i \<noteq> P_none \<and> fits_pc (ua_pc t i)"
  by (cases "ua_pc s i") (auto simp: begin_pc_moves split: if_splits sum.splits prod.splits)

lemma outlook_step:
  assumes step: "udp_sys_step A U l s = Some t" and inv: "udp_inv s" and i: "ua_pc s i \<noteq> P_none" "fits_pc (ua_pc s i)"
    and l: "undisturbed i l"
  shows "outlook_of A U i t = outlook_of A U i s \<and> ua_pc t i \<noteq> P_none \<and> fits_pc (ua_pc t i)"
proof (cases l)
  case (Call j op)
  with step i have "j \<noteq> i" and "t = set_pc j (P_begin op) s" by (auto split: udp_pc.splits)
  with i show ?thesis by (auto simp: outlook_of_def)
next
  case (Go j)
  with step have g: "coroutine_step U j (ua_pc s j) s = Some t" by (simp split: if_splits)
  show ?thesis
  proof (cases "j = i")
    case True
    with g outlook_coroutine_self [of U i s t A] coroutine_step_pc [of U i s t] inv i show ?thesis by simp
  next
    case False
    with coroutine_step_frame [OF g udp_invD(3) [OF inv], of i] coroutine_step_ep [OF g, of i] i
    show ?thesis by (auto intro: outlook_cong)
  qed
next
  case (Block j)
  with step l have g: "blocking_step A U i (ua_pc s i) s = Some t" by (simp split: if_splits)
  then have "ua_pc t i \<noteq> P_none \<and> fits_pc (ua_pc t i)"
    by (cases "ua_pc s i") (auto simp: Let_def split: option.splits prod.splits)
  with outlook_blocking [OF g] show ?thesis by simp
next
  case (Complete j)
  with step l have g: "complete_step U i s = Some t" by (simp split: if_splits)
  then have "ua_pc t = ua_pc s" by (auto simp: complete_step_def Let_def split: option.splits prod.splits)
  with i outlook_complete [OF g inv] show ?thesis by simp
next
  case Resume
  with step have g: "resume_step s = Some t" by (simp split: if_splits)
  then have "ua_pc t i \<noteq> P_none \<and> fits_pc (ua_pc t i)"
    using i by (auto simp: resume_step_def Let_def split: if_splits list.splits udp_pc.splits)
  with outlook_resume [OF g inv] show ?thesis by simp
qed

lemma outlook_run:
  assumes "run (udp_sys_step A U) ls s = Some t" and "udp_inv s" and "ua_pc s i \<noteq> P_none" and "fits_pc (ua_pc s i)"
    and "\<forall>l \<in> set ls. undisturbed i l"
  shows "outlook_of A U i t = outlook_of A U i s"
  using assms
proof (induction ls arbitrary: s)
  case (Cons l ls)
  then obtain u where u: "udp_sys_step A U l s = Some u" "run (udp_sys_step A U) ls u = Some t"
    by (auto split: option.splits)
  with Cons.prems outlook_step [OF u(1)] udp_step_inv [OF u(1)] Cons.IH [OF u(2)] show ?case by simp
qed simp

text \<open>
  C10: an operation that the other tasks do not disturb on the socket is the call described by
  \<open>Udp\<close>: from its start to its end, whatever the other coroutines do meanwhile, and however
  opening, start, completion, suspension and resumption interleave, as long as no other
  task's blocking function and no other completion touches the socket in between, it returns
  the result, leaves the sender and leaves the socket that the call gives.
\<close>

theorem udp_undisturbed_is_call:
  assumes "reach (udp_sys_init s0) (udp_sys_step A U) s" and "ua_pc s i = P_begin op" and "op_fits op"
    and "run (udp_sys_step A U) ls s = Some t" and "\<forall>l \<in> set ls. undisturbed i l"
    and "ua_pc t i = P_done op' r e"
  shows "(r, e, ua_socket t) = udp_call A U op (ua_socket s)"
  using outlook_run [OF assms(4) udp_reach_inv [OF assms(1)] _ _ assms(5)] assms(2,3,6)
  by (simp add: outlook_of_def)

text \<open>A socket of one bit to run the model on: closed or open; what is sent counts as sent.\<close>

definition loopback :: "('ip, bool) asio_udp" where
  "loopback = \<lparr>so_is_open = (\<lambda>s. s), so_open = (\<lambda>v s. if s then (106, s) else (0, True)), so_bind = (\<lambda>e s. (0, s)),
     so_connect = (\<lambda>e s. (0, s)), so_send = (\<lambda>b s. (0, length b, s)), so_send_to = (\<lambda>b e s. (0, length b, s)),
     so_receive = (\<lambda>n s. (0, 0, s)), so_receive_from = (\<lambda>n e s. (0, 0, e, s)), so_wait = (\<lambda>w s. (0, s)),
     so_available = (\<lambda>s. (0, 0))\<rparr>"

definition a_peer :: "(byte list + byte list) endpoint" where
  "a_peer = endpoint_ctor (Ip (Inl [127, 0, 0, 1])) 53"

abbreviation "loop_step \<equiv> udp_sys_step bytes_asio loopback"

theorem udp_undisturbed_is_call_witness:
  "\<exists>u. udp_call bytes_asio loopback (U_send_to [1, 2] a_peer) (udp_init False) = (Inr (Ok_holder 2), Some a_peer, u)"
proof -
  let ?op = "U_send_to [1, 2] a_peer"
  let ?i = "udp_sys_init False :: (byte list + byte list, bool) udp_sys"
  let ?ls = "[Go 0, Block 0, Go 0, Go 0, Go 0, Go 0, Complete 0, Resume, Go 0]"
  have "run_sat loop_step [Call 0 ?op] ?i (\<lambda>s. ua_pc s 0 = P_begin ?op \<and> ua_socket s = udp_init False)" by code_simp
  then obtain s where r: "reach ?i loop_step s" and s: "ua_pc s 0 = P_begin ?op" "ua_socket s = udp_init False"
    and c: "run loop_step [Call 0 ?op] ?i = Some s" by (elim run_satE) simp
  have "run_sat loop_step ([Call 0 ?op] @ ?ls) ?i (\<lambda>s. ua_pc s 0 = P_done ?op (Inr (Ok_holder 2)) (Some a_peer))"
    by code_simp
  then obtain t where "run loop_step ([Call 0 ?op] @ ?ls) ?i = Some t"
    and t: "ua_pc t 0 = P_done ?op (Inr (Ok_holder 2)) (Some a_peer)" by (elim run_satE) simp
  with c have "run loop_step ?ls s = Some t" unfolding run_append by simp
  from udp_undisturbed_is_call [OF r s(1) _ this _ t] s(2)
  have "udp_call bytes_asio loopback ?op (udp_init False) = (Inr (Ok_holder 2), Some a_peer, ua_socket t)"
    by (simp del: udp_call.simps)
  then show ?thesis ..
qed

section \<open>Every task is woken once and every call returns\<close>

text \<open>
  C9: tasks on a socket, in every interleaving: nothing faults; a posted handle is that of one
  waiting task whose request is complete, posted once, and every waiting task whose request is
  complete is posted; an operation ends with the one result asio reported for it, or without
  any with the error of its own opening of the socket.
\<close>

theorem udp_tasks_wake_once:
  assumes "reach (udp_sys_init s0) (udp_sys_step A U) s"
  shows "ua_fault s = None \<and> distinct (posted (ua_exec s)) \<and>
         set (posted (ua_exec s)) = {i. (\<exists>op. ua_pc s i = P_waiting op) \<and> ua_pend s i = None} \<and>
         (\<forall>i op r e. ua_pc s i = P_done op r e \<longrightarrow>
            (\<exists>b. op = U_bind_local b) \<or> outcomes i s = [r] \<or>
            (\<exists>ec. outcomes i s = [] \<and> opened i s = [ec] \<and> ec \<noteq> 0 \<and> r = open_failed op ec))"
proof -
  from udp_reach_inv [OF assms] have inv: "udp_inv s" .
  have "i \<in> set (posted (ua_exec s)) \<longleftrightarrow> (\<exists>op. ua_pc s i = P_waiting op) \<and> ua_pend s i = None" for i
    using udp_invD(1) [OF inv, of i] by (cases "ua_pc s i") (auto simp: task_ok_def split: if_splits)
  moreover have "(\<exists>b. op = U_bind_local b) \<or> outcomes i s = [r] \<or>
      (\<exists>ec. outcomes i s = [] \<and> opened i s = [ec] \<and> ec \<noteq> 0 \<and> r = open_failed op ec)"
    if "ua_pc s i = P_done op r e" for i op r e
    using udp_invD(1) [OF inv, of i] that by (auto simp: task_ok_def)
  ultimately show ?thesis using udp_invD(2,4) [OF inv] by blast
qed

theorem udp_tasks_wake_once_witness:
  "\<exists>s. reach (udp_sys_init False) loop_step s \<and> posted (ua_exec s) = [1, 0] \<and> ua_fault s = None \<and>
       ua_pend s 0 = None \<and> ua_pend s 1 = None"
proof -
  let ?i = "udp_sys_init False :: (byte list + byte list, bool) udp_sys"
  have "run_sat loop_step ([Call 0 (U_send [1]), Call 1 (U_wait True)] @ replicate 4 (Go 0) @ replicate 4 (Go 1) @
      [Complete 1, Complete 0]) ?i (\<lambda>s. posted (ua_exec s) = [1, 0])" by code_simp
  then obtain s where r: "reach ?i loop_step s" and p: "posted (ua_exec s) = [1, 0]" by (rule run_satE)
  from udp_tasks_wake_once [OF r] p have "ua_fault s = None" and
    "{0, 1} = {i. (\<exists>op. ua_pc s i = P_waiting op) \<and> ua_pend s i = None}" by auto
  then have "ua_fault s = None" "ua_pend s 0 = None" "ua_pend s 1 = None" by auto
  with r p show ?thesis by blast
qed

fun pc_rank :: "'ip udp_pc \<Rightarrow> nat" where
  "pc_rank P_none = 0"
| "pc_rank (P_done op r e) = 0"
| "pc_rank (P_bound e r) = 1"
| "pc_rank (P_bind e) = 2"
| "pc_rank (P_resume op) = 1"
| "pc_rank (P_waiting op) = 2"
| "pc_rank (P_suspend op) = 3"
| "pc_rank (P_ready op) = 4"
| "pc_rank (P_start op) = 6"
| "pc_rank (P_opened op ec) = 7"
| "pc_rank (P_open op) = 8"
| "pc_rank (P_begin op) = 9"

definition task_rank :: "('ip, 's) udp_sys \<Rightarrow> nat \<Rightarrow> nat" where
  "task_rank s i = pc_rank (ua_pc s i) + (if ua_pend s i = None then 0 else 1)"

definition udp_rank :: "nat \<Rightarrow> ('ip, 's) udp_sys \<Rightarrow> nat" where
  "udp_rank n s = (\<Sum>i<n. task_rank s i)"

text \<open>The steps of the tasks below \<open>n\<close>, of the pool and asio on their behalf, and of the executor.\<close>

definition udp_own :: "nat \<Rightarrow> 'ip udp_label set" where
  "udp_own n = insert Resume (\<Union>i<n. {Go i, Block i, Complete i})"

definition udp_alive :: "nat \<Rightarrow> ('ip, 's) udp_sys \<Rightarrow> bool" where
  "udp_alive n s \<longleftrightarrow> udp_inv s \<and> (\<forall>i \<ge> n. ua_pc s i = P_none)"

fun returned :: "'ip udp_pc \<Rightarrow> bool" where
  "returned P_none = True"
| "returned (P_done op r e) = True"
| "returned pc = False"

text \<open>One step lowers the rank of the task it moves and leaves the others'.\<close>

lemma udp_rank_less:
  assumes "i < n" and "task_rank t i < task_rank s i" and "\<And>j. j \<noteq> i \<Longrightarrow> task_rank t j = task_rank s j"
  shows "udp_rank n t < udp_rank n s"
  unfolding udp_rank_def
proof (rule sum_strict_mono_ex1)
  show "\<forall>j \<in> {..<n}. task_rank t j \<le> task_rank s j"
    using assms(2,3) by (metis less_imp_le_nat order_refl)
  show "\<exists>j \<in> {..<n}. task_rank t j < task_rank s j" using assms(1,2) by auto
qed simp

lemma coroutine_lowers:
  assumes step: "coroutine_step U i (ua_pc s i) s = Some t" and inv: "udp_inv s"
  shows "task_rank t i < task_rank s i"
proof -
  note ok = udp_invD(1) [OF inv, of i]
  show ?thesis
  proof (cases "ua_pc s i")
    case (P_begin op)
    then show ?thesis
      using step by (cases rule: begin_pc_cases [of op "so_is_open U (us_sock (ua_socket s))"]) (auto simp: task_rank_def)
  next
    case (P_start op)
    with ok have "\<forall>e. op \<noteq> U_bind_local e" by (simp add: task_ok_def)
    with P_start ok step show ?thesis by (auto simp: task_rank_def task_ok_def)
  next
    case (P_suspend op)
    obtain r f ex' where c: "op_await_suspend i (ua_fut s i, ua_exec s) = (r, f, ex')" by (metis prod_cases3)
    with P_suspend step show ?thesis by (auto simp: task_rank_def)
  next
    case (P_resume op)
    with ok obtain r where "of_ret (ua_fut s i) = Some r" by (auto simp: task_ok_def)
    with P_resume step show ?thesis by (auto simp: task_rank_def op_await_resume_def)
  qed (use step in \<open>auto simp: task_rank_def split: if_splits\<close>)
qed

lemma blocking_moves:
  assumes "blocking_step A U i (ua_pc s i) s = Some t"
  shows "task_rank t i < task_rank s i \<and> (\<forall>j. j \<noteq> i \<longrightarrow> ua_pc t j = ua_pc s j \<and> ua_pend t j = ua_pend s j)"
  using assms
  by (cases "ua_pc s i") (auto simp: task_rank_def Let_def split: option.splits prod.splits)

lemma complete_moves:
  assumes "complete_step U i s = Some t"
  shows "task_rank t i < task_rank s i \<and> ua_pc t = ua_pc s \<and> (\<forall>j. j \<noteq> i \<longrightarrow> ua_pend t j = ua_pend s j)"
  using assms by (auto simp: complete_step_def task_rank_def Let_def split: option.splits prod.splits)

lemma resume_moves:
  assumes step: "resume_step s = Some t" and inv: "udp_inv s"
  obtains i op where "ua_pc s i = P_waiting op" "task_rank t i < task_rank s i" "ua_pend t = ua_pend s"
    "\<forall>j. j \<noteq> i \<longrightarrow> ua_pc t j = ua_pc s j"
proof -
  from step obtain h hs where p: "posted (ua_exec s) = h # hs" by (auto simp: resume_step_def split: list.splits)
  with udp_invD(1) [OF inv, of h] obtain op where op: "ua_pc s h = P_waiting op"
    by (cases "ua_pc s h") (auto simp: task_ok_def split: if_splits)
  with step p have "t = set_pc h (P_resume op) (s\<lparr>ua_exec := (ua_exec s)\<lparr>posted := hs\<rparr>\<rparr>)"
    by (simp add: resume_step_def Let_def)
  with op that [of h op] show ?thesis by (simp add: task_rank_def)
qed

lemma udp_own_step:
  assumes alive: "udp_alive n s" and own: "l \<in> udp_own n" and step: "udp_sys_step A U l s = Some t"
  shows "udp_alive n t \<and> udp_rank n t < udp_rank n s"
proof -
  from alive have inv: "udp_inv s" and none: "\<And>i. n \<le> i \<Longrightarrow> ua_pc s i = P_none" by (simp_all add: udp_alive_def)
  have "\<exists>i<n. task_rank t i < task_rank s i \<and> (\<forall>j. j \<noteq> i \<longrightarrow> ua_pc t j = ua_pc s j \<and> ua_pend t j = ua_pend s j)"
    using own unfolding udp_own_def
  proof (elim insertE UN_E)
    assume "l = Resume"
    with step have "resume_step s = Some t" by (simp split: if_splits)
    from resume_moves [OF this inv] obtain i op where i: "ua_pc s i = P_waiting op"
      and m: "task_rank t i < task_rank s i" "ua_pend t = ua_pend s" "\<forall>j. j \<noteq> i \<longrightarrow> ua_pc t j = ua_pc s j" .
    from none [of i] i have "i < n" by (cases "i < n") auto
    with m show ?thesis by auto
  next
    fix i assume i: "i \<in> {..<n}" and l: "l = Go i"
    with step have g: "coroutine_step U i (ua_pc s i) s = Some t" by (simp split: if_splits)
    from coroutine_lowers [OF g inv] coroutine_step_frame [OF g udp_invD(3) [OF inv]] i show ?thesis by auto
  next
    fix i assume i: "i \<in> {..<n}" and l: "l = Block i"
    with step have "blocking_step A U i (ua_pc s i) s = Some t" by (simp split: if_splits)
    from blocking_moves [OF this] i show ?thesis by auto
  next
    fix i assume i: "i \<in> {..<n}" and l: "l = Complete i"
    with step have "complete_step U i s = Some t" by (simp split: if_splits)
    from complete_moves [OF this] i show ?thesis by auto
  qed simp
  then obtain i where i: "i < n" "task_rank t i < task_rank s i"
    and rest: "\<forall>j. j \<noteq> i \<longrightarrow> ua_pc t j = ua_pc s j \<and> ua_pend t j = ua_pend s j" by blast
  from i rest have "udp_rank n t < udp_rank n s"
    by (intro udp_rank_less [of i]) (auto simp: task_rank_def)
  with i rest none udp_step_inv [OF step inv] show ?thesis by (auto simp: udp_alive_def)
qed

lemma udp_own_enabled:
  assumes alive: "udp_alive n s" and i: "\<not> returned (ua_pc s i)"
  shows "\<exists>l \<in> udp_own n. udp_sys_step A U l s \<noteq> None"
proof -
  from alive have inv: "udp_inv s" and "i < n" using i by (auto simp: udp_alive_def not_le [symmetric])
  note ok = udp_invD(1) [OF inv, of i] and nf = udp_invD(2) [OF inv]
  have own: "Go i \<in> udp_own n" "Block i \<in> udp_own n" "Complete i \<in> udp_own n" "Resume \<in> udp_own n"
    using \<open>i < n\<close> by (auto simp: udp_own_def)
  show ?thesis
  proof (cases "ua_pc s i")
    case (P_waiting op)
    show ?thesis
    proof (cases "ua_pend s i")
      case None
      with ok P_waiting have "posted (ua_exec s) \<noteq> []" by (auto simp: task_ok_def)
      with nf own(4) show ?thesis by (intro bexI [of _ Resume]) (auto simp: resume_step_def Let_def split: list.splits)
    next
      case (Some rq)
      with nf own(3) show ?thesis
        by (intro bexI [of _ "Complete i"]) (auto simp: complete_step_def Let_def split: prod.splits)
    qed
  next
    case (P_open op)
    with ok obtain e where "opens_for op = Some e" by (auto simp: task_ok_def)
    with P_open nf own(2) show ?thesis by (intro bexI [of _ "Block i"]) (auto simp: Let_def split: prod.splits)
  next
    case (P_bind e)
    with nf own(2) show ?thesis by (intro bexI [of _ "Block i"]) (auto split: prod.splits)
  next
    case (P_suspend op)
    with nf own(1) show ?thesis by (intro bexI [of _ "Go i"]) (auto split: prod.splits)
  next
    case (P_resume op)
    with nf own(1) show ?thesis by (intro bexI [of _ "Go i"]) (auto split: sum.splits)
  qed (use i nf own(1) in \<open>auto intro!: bexI [of _ "Go i"]\<close>)
qed

interpretation ut: winding_down "udp_sys_step A U" "udp_own n" "udp_alive n" "udp_rank n"
    "\<lambda>s. \<forall>i. returned (ua_pc s i)"
  for A :: "('v4, 'v6, 'ip) asio_ip" and U :: "('ip, 's) asio_udp" and n :: nat
proof unfold_locales
  fix s t :: "('ip, 's) udp_sys" and l
  assume *: "udp_alive n s" "l \<in> udp_own n" "udp_sys_step A U l s = Some t"
  from udp_own_step [OF *] show "udp_alive n t" and "udp_rank n t < udp_rank n s" by simp_all
next
  fix s :: "('ip, 's) udp_sys"
  assume "udp_alive n s" "\<not> (\<forall>i. returned (ua_pc s i))"
  then show "\<exists>l \<in> udp_own n. udp_sys_step A U l s \<noteq> None" using udp_own_enabled by blast
qed

text \<open>
  Calls on a socket return, provided that the executor schedules the futures they await inside and a blocking worker
  runs what it is given: with calls of the tasks below \<open>n\<close> under way, the
  coroutines, the blocking workers and asio on their behalf and the executor take no more than ten steps per
  task, in whatever order, and when none of them can step every call has returned.
\<close>

theorem udp_calls_return:
  assumes "reach (udp_sys_init s0) (udp_sys_step A U) s" and "\<forall>i \<ge> n. ua_pc s i = P_none"
    and "run (udp_sys_step A U) ls s = Some t" and "set ls \<subseteq> udp_own n"
  shows "length ls \<le> 10 * n \<and>
         ((\<forall>l \<in> udp_own n. udp_sys_step A U l t = None) \<longrightarrow> (\<forall>i. returned (ua_pc t i)))"
proof -
  from assms(1,2) have alive: "udp_alive n s" by (simp add: udp_alive_def udp_reach_inv)
  have "pc_rank (ua_pc s i) \<le> 9" for i by (cases "ua_pc s i") simp_all
  then have "task_rank s i \<le> 10" for i unfolding task_rank_def by (rule order_trans [OF add_mono [where b = 9 and d = 1]]) simp_all
  then have "udp_rank n s \<le> 10 * n"
    unfolding udp_rank_def using sum_mono [of "{..<n}" "task_rank s" "\<lambda>_. 10"] by simp
  with ut.own_run_bounded [OF assms(3) alive assms(4)] ut.own_run_stuck_finished [OF assms(3) alive assms(4)]
  show ?thesis by auto
qed

theorem udp_calls_return_witness:
  "\<exists>t. run loop_step ([Go 0, Block 0, Go 0, Go 0, Go 0, Go 0, Complete 0, Resume, Go 0])
         (the (loop_step (Call 0 (U_send_to [1, 2] a_peer)) (udp_sys_init False))) = Some t \<and>
       (9 :: nat) \<le> 10 * 1 \<and> returned (ua_pc t 0)"
proof -
  let ?i = "udp_sys_init False :: (byte list + byte list, bool) udp_sys"
  let ?l = "Call 0 (U_send_to [1, 2] a_peer)"
  let ?ls = "[Go 0, Block 0, Go 0, Go 0, Go 0, Go 0, Complete 0, Resume, Go 0]"
  define s where "s = set_pc 0 (P_begin (U_send_to [1, 2] a_peer)) ?i"
  have l: "loop_step ?l ?i = Some s" by (simp add: s_def udp_sys_init_def)
  have r: "reach ?i loop_step s" by (rule reach_step [where s = ?i and l = ?l]) (rule reach_init, rule l)
  have n: "\<forall>i \<ge> 1. ua_pc s i = P_none" by (simp add: s_def udp_sys_init_def)
  have "run_sat loop_step ?ls s (\<lambda>t. returned (ua_pc t 0))" unfolding s_def by code_simp
  then obtain t where t: "run loop_step ?ls s = Some t" "returned (ua_pc t 0)" by (elim run_satE) simp
  have "set ?ls \<subseteq> udp_own 1" by (auto simp: udp_own_def)
  from udp_calls_return [OF r n t(1) this] l t show ?thesis by auto
qed

section \<open>The race in ensure_open\<close>









end
