(* ===== verification/Print_Data.thy ===== *)
theory Print_Data imports Prelude begin

text \<open>
  \<open>print_data\<close> of the examples (examples/helpers.hpp): received bytes printed as a quoted string
  with escapes. The output is a list of characters; \<open>std::isprint\<close> is that of the C locale. A byte of 128 or more
  is a negative \<^verbatim>\<open>char\<close>, for which the standard gives \<open>isprint\<close> no meaning; here it answers no, as
  the tables of the C libraries do.
\<close>

unbundle bit_operations_syntax

type_synonym octet = "8 word"

definition isprint :: "int \<Rightarrow> bool" where
  "isprint c \<longleftrightarrow> 32 \<le> c \<and> c \<le> 126"

definition char_at :: "octet \<Rightarrow> char" where
  "char_at b = char_of (unat b)"

definition backslash :: char where "backslash = CHR 0x5C"

definition quote :: char where "quote = CHR 0x22"

text \<open>\<^verbatim>\<open>'0' + d\<close> or \<^verbatim>\<open>'a' + (d - 10)\<close>.\<close>

definition hex_digit :: "octet \<Rightarrow> char" where
  "hex_digit d = (if d < 10 then char_at (48 + d) else char_at (97 + (d - 10)))"

text \<open>The \<^verbatim>\<open>switch\<close> over what is not printable.\<close>

definition escape :: "octet \<Rightarrow> char list" where
  "escape b =
     (if b = 7 then [backslash, CHR ''a'']
      else if b = 8 then [backslash, CHR ''b'']
      else if b = 10 then [backslash, CHR ''n'']
      else if b = 92 then [backslash, backslash]
      else if b = 34 then [backslash, quote]
      else if b = 13 then [backslash, CHR ''r'']
      else if b = 9 then [backslash, CHR ''t'']
      else if b = 11 then [backslash, CHR ''v'']
      else if b = 12 then [backslash, CHR ''f'']
      else (let upper = drop_bit 4 b; lower = b AND 15
            in [backslash, CHR ''x'', hex_digit upper, hex_digit lower]))"

definition print_byte :: "octet \<Rightarrow> char list" where
  "print_byte b = (if isprint (sint b) then [char_at b] else escape b)"

fun print_bytes :: "octet list \<Rightarrow> char list" where
  "print_bytes [] = []"
| "print_bytes (b # bs) = print_byte b @ print_bytes bs"

definition print_data :: "octet list \<Rightarrow> char list" where
  "print_data data = quote # print_bytes data @ [quote, CHR 0x0A]"

section \<open>Reading it back\<close>

text \<open>A reader of the notation, independent of the printer: a character, or a backslash and what it stands for.\<close>

definition hex_value :: "char \<Rightarrow> octet" where
  "hex_value c = (let v = of_char c :: nat in of_nat (if v < 58 then v - 48 else v - 87))"

fun unescape :: "char \<Rightarrow> octet" where
  "unescape c = (if c = CHR ''a'' then 7 else if c = CHR ''b'' then 8 else if c = CHR ''n'' then 10
     else if c = CHR ''r'' then 13 else if c = CHR ''t'' then 9 else if c = CHR ''v'' then 11
     else if c = CHR ''f'' then 12 else of_nat (of_char c))"

fun read_bytes :: "char list \<Rightarrow> octet list" where
  "read_bytes [] = []"
| "read_bytes [c] = [of_nat (of_char c)]"
| "read_bytes (c # d # cs) =
     (if c \<noteq> backslash then of_nat (of_char c) # read_bytes (d # cs)
      else if d = CHR ''x''
           then (case cs of
                   u # l # ds \<Rightarrow> (push_bit 4 (hex_value u) OR hex_value l) # read_bytes ds
                 | _ \<Rightarrow> [])
           else unescape d # read_bytes cs)"

definition read_data :: "char list \<Rightarrow> octet list" where
  "read_data cs = read_bytes (butlast (butlast (tl cs)))"

section \<open>Properties\<close>

lemma of_char_at [simp]: "of_nat (of_char (char_at b)) = b"
proof -
  have "unat b < 256"
    using unsigned_less [of b] by simp
  then show ?thesis
    by (simp add: char_at_def)
qed

lemma char_at_eq: "char_at b = char_at c \<longleftrightarrow> b = c"
  by (metis of_char_at)

lemma backslash_at: "backslash = char_at 92"
  by code_simp

lemma quote_at: "quote = char_at 34"
  by code_simp

lemma char_at_of_nat: "n < 256 \<Longrightarrow> char_at (word_of_nat n) = char_of n"
  by (simp add: char_at_def unat_of_nat)

lemma hex_digit_char:
  assumes "d < 16"
  shows "hex_digit d = (if unat d < 10 then char_of (48 + unat d) else char_of (87 + unat d))"
proof -
  obtain n where n: "n < 16" "d = word_of_nat n"
    using assms by (intro that [of "unat d"]) (simp_all add: word_less_nat_alt)
  have small: "d < 10 \<longleftrightarrow> n < 10"
    using n by (simp add: word_less_nat_alt unat_of_nat)
  show ?thesis
  proof (cases "n < 10")
    case True
    then show ?thesis
      using n small char_at_of_nat [of "48 + n"] by (simp add: hex_digit_def unat_of_nat)
  next
    case False
    moreover from this have "97 + (d - 10) = word_of_nat (87 + n)"
      using n by (simp add: of_nat_diff algebra_simps)
    ultimately show ?thesis
      using n small char_at_of_nat [of "87 + n"] by (simp add: hex_digit_def unat_of_nat)
  qed
qed

lemma hex_value_digit:
  assumes "d < 16"
  shows "hex_value (hex_digit d) = d"
proof -
  have "unat d < 16"
    using assms by (simp add: word_less_nat_alt)
  then show ?thesis
    by (simp add: hex_value_def hex_digit_char [OF assms])
qed

lemma lower_take: "b AND 15 = take_bit 4 (b :: octet)"
  by (simp add: take_bit_eq_mask mask_eq_exp_minus_1)

lemma lower_nibble: "b AND 15 < (16 :: octet)"
  using word_and_le1 [of b 15] by (rule le_less_trans) simp

lemma upper_nibble: "drop_bit 4 b < (16 :: octet)"
proof -
  have "unat b < 256"
    using unsigned_less [of b] by simp
  then show ?thesis
    by (simp add: word_less_nat_alt unat_drop_bit_eq) (simp add: drop_bit_eq_div)
qed

lemma nibbles: "push_bit 4 (drop_bit 4 b) OR (b AND 15) = (b :: octet)"
  unfolding lower_take
  by (rule bit_word_eqI) (auto simp: bit_simps)

lemma read_plain: "c \<noteq> backslash \<Longrightarrow> read_bytes (c # cs) = of_nat (of_char c) # read_bytes cs"
  by (cases cs) simp_all

lemma read_named: "d \<noteq> CHR ''x'' \<Longrightarrow> read_bytes (backslash # d # cs) = unescape d # read_bytes cs"
  by simp

lemma read_hex:
  "read_bytes (backslash # CHR ''x'' # u # l # cs) = (push_bit 4 (hex_value u) OR hex_value l) # read_bytes cs"
  by simp

lemmas read_rules = read_plain read_named read_hex

lemma read_escape:
  assumes "\<not> isprint (sint b)"
  shows "read_bytes (escape b @ cs) = b # read_bytes cs"
proof -
  have "b \<noteq> 92" "b \<noteq> 34"
    using assms by (auto simp: isprint_def)
  then show ?thesis
    by (simp add: escape_def Let_def read_rules hex_value_digit lower_nibble upper_nibble nibbles
        del: unescape.simps read_bytes.simps)
       (simp add: backslash_def)
qed

lemma read_byte:
  assumes "b \<noteq> 92"
  shows "read_bytes (print_byte b @ cs) = b # read_bytes cs"
  using assms read_escape [of b cs]
  by (auto simp: print_byte_def read_plain backslash_at char_at_eq simp del: read_bytes.simps)

lemma read_printed: "92 \<notin> set data \<Longrightarrow> read_bytes (print_bytes data) = data"
  by (induction data) (simp_all add: read_byte)

text \<open>Nothing but printable characters is written before the end of the line, so that received data cannot
  control the terminal.\<close>

lemma printable_hex:
  assumes "d < 16"
  shows "isprint (int (of_char (hex_digit d)))"
proof -
  have "unat d < 16"
    using assms by (simp add: word_less_nat_alt)
  then show ?thesis
    by (simp add: isprint_def hex_digit_char [OF assms])
qed

lemma printable_at:
  assumes "isprint (sint b)"
  shows "isprint (int (of_char (char_at b)))"
proof -
  have "take_bit 8 (sint b) = sint b"
    using assms by (intro take_bit_int_eq_self) (simp_all add: isprint_def)
  then have "sint b = int (unat b)"
    using uint_sint [of b] by simp
  moreover have "unat b < 256"
    using unsigned_less [of b] by simp
  ultimately show ?thesis
    using assms by (simp add: isprint_def char_at_def)
qed

lemma printable_byte: "list_all (\<lambda>c. isprint (int (of_char c))) (print_byte b)"
  using printable_at [of b]
  by (simp add: print_byte_def escape_def Let_def printable_hex lower_nibble upper_nibble)
     (simp add: isprint_def backslash_def quote_def)

lemma printable_bytes: "list_all (\<lambda>c. isprint (int (of_char c))) (print_bytes data)"
  by (induction data) (simp_all add: printable_byte)

theorem print_data_printable: "c \<in> set (butlast (print_data data)) \<Longrightarrow> isprint (int (of_char c))"
  using printable_bytes [of data]
  by (auto simp: print_data_def butlast_append list_all_iff isprint_def quote_def)

text \<open>What \<open>print_data\<close> prints can be read back: printable bytes stand for themselves, the named
  escapes and the two lower case hexadecimal digits give the other bytes, and from the line with its quotes and its end
  of line the data is recovered exactly, whatever the bytes, if there is no backslash among them.\<close>

theorem print_data_roundtrip:
  assumes "92 \<notin> set data"
  shows "read_data (print_data data) = data"
  using read_printed [OF assms] by (simp add: read_data_def print_data_def butlast_append)

theorem print_data_roundtrip_witness: "read_data (print_data [0, 10, 34, 65, 127, 255]) = [0, 10, 34, 65, 127, 255]"
  by (rule print_data_roundtrip) simp

text \<open>With a backslash it cannot: the test for printable characters comes before the \<^verbatim>\<open>switch\<close>, so that the two cases
  written for \<^verbatim>\<open>\\\<close> and the quote are never reached, and a line feed prints as the two bytes
  \<^verbatim>\<open>\\\<close> and \<^verbatim>\<open>n\<close> do.\<close>

theorem print_data_ambiguous:
  "print_data [10] = print_data [92, 110] \<and> print_byte 92 = [backslash] \<and> print_byte 34 = [quote]"
  by code_simp

end
