(* ===== verification/Echo_Server.thy ===== *)
theory Echo_Server imports Udp Ip_Queries Print_Data Transition "HOL-Library.Multiset" begin

text \<open>
  The example program (examples/udp_echo_server.cpp, examples/helpers.hpp): \<open>async_main\<close> binds a
  socket, waits for a datagram, makes room for it, receives it, and spawns \<open>echo\<close> to send it
  back while it goes on listening. Every operation on the socket is one step here, by its completion,
  as in \<open>Udp\<close>; a spawned task runs on its creator's thread until it first waits, so \<open>echo\<close>
  prints and hands its datagram to asio in the step that spawns it, and asio finishes the sends in any order, at any
  later moment. \<open>rx s\<close> is the datagram that the next receive of asio's socket \<open>s\<close> delivers; what has no
  room in the buffer is lost.
\<close>

section \<open>helpers.hpp\<close>

text \<open>The lines on the error output, by the code they report; the message is the error category's.\<close>

definition check_value :: "('a, int) result \<Rightarrow> 'a opt \<times> int list" where
  "check_value res =
     (case res of
        Err_holder code \<Rightarrow> (opt_of_nullopt, [code])
      | Ok_holder v \<Rightarrow> (opt_of_value v, []))"

definition check_unit :: "(unit, int) result \<Rightarrow> bool \<times> int list" where
  "check_unit res = (case res of Err_holder code \<Rightarrow> (False, [code]) | Ok_holder _ \<Rightarrow> (True, []))"

section \<open>The server\<close>

definition SERVER_PORT :: "16 word" where
  "SERVER_PORT = 40044"

definition BUFFER_SIZE :: nat where
  "BUFFER_SIZE = 1500"

datatype server_pc = Sv_bind | Sv_wait | Sv_size | Sv_recv | Sv_spawn | Sv_returned int

record ('ip, 's) echo_server =
  es_socket :: "('ip, 's) udp_socket"
  es_remote :: "'ip endpoint"
  es_buffer :: "byte list"
  es_pc :: server_pc
  es_sending :: "('ip endpoint \<times> byte list) list"
  es_out :: "string list"
  es_err :: "int list"
  es_datagrams :: "('ip endpoint \<times> byte list) list"   \<comment> \<open>what was received, and from whom\<close>
  es_spawned :: "('ip endpoint \<times> byte list) list"     \<comment> \<open>what was handed to \<open>echo\<close>\<close>
  es_sent :: "('ip endpoint \<times> byte list) list"        \<comment> \<open>the sends that ended\<close>

definition server_init :: "'ip endpoint \<Rightarrow> 's \<Rightarrow> ('ip, 's) echo_server" where
  "server_init e s = \<lparr>es_socket = udp_init s, es_remote = e, es_buffer = [], es_pc = Sv_bind, es_sending = [],
     es_out = [], es_err = [], es_datagrams = [], es_spawned = [], es_sent = []\<rparr>"

text \<open>\<open>std::vector::resize\<close> keeps what is there and fills up with zeros.\<close>

definition resize :: "nat \<Rightarrow> byte list \<Rightarrow> byte list" where
  "resize n bs = take n bs @ replicate (n - length bs) 0"

definition fill :: "byte list \<Rightarrow> byte list \<Rightarrow> byte list" where
  "fill data bs = data @ drop (length data) bs"

text \<open>\<open>echo\<close>, up to its \<open>co_await\<close>.\<close>

definition echo_begin :: "'ip endpoint \<Rightarrow> byte list \<Rightarrow> ('ip, 's) echo_server \<Rightarrow> ('ip, 's) echo_server" where
  "echo_begin remote data s =
     s\<lparr>es_out := es_out s @ [print_data data], es_sending := es_sending s @ [(remote, data)],
       es_spawned := es_spawned s @ [(remote, data)]\<rparr>"

text \<open>\<open>echo\<close> after it: the outcome of the send is looked at only to be reported.\<close>

definition echo_end :: "('v4, 'v6, 'ip) asio_ip \<Rightarrow> ('ip, 's) asio_udp \<Rightarrow> nat
    \<Rightarrow> ('ip, 's) echo_server \<Rightarrow> ('ip, 's) echo_server option" where
  "echo_end A U i s =
     (if i < length (es_sending s)
      then (let (remote, data) = es_sending s ! i;
                (r, u) = udp_send_to A U data remote (es_socket s)
            in Some (s\<lparr>es_socket := u, es_err := es_err s @ snd (check_value r),
                 es_sending := take i (es_sending s) @ drop (Suc i) (es_sending s),
                 es_sent := es_sent s @ [(remote, data)]\<rparr>))
      else None)"

text \<open>\<open>async_main\<close>, from one \<open>co_await\<close> or call on the socket to the next.\<close>

definition main_step :: "('v4, 'v6, 'ip) asio_queries \<Rightarrow> ('ip, 's) asio_udp \<Rightarrow> ('s \<Rightarrow> byte list)
    \<Rightarrow> 'ip endpoint \<Rightarrow> ('ip, 's) echo_server \<Rightarrow> ('ip, 's) echo_server option" where
  "main_step Q U rx fresh s =
     (let A = asio_ip.truncate Q in
      case es_pc s of
        Sv_bind \<Rightarrow>
          (let (r, u) = bind_local A U (endpoint_ctor (ip_of_ipv4 A (ipv4_any Q)) SERVER_PORT) (es_socket s);
               s1 = s\<lparr>es_socket := u\<rparr>
           in case r of
                Err_holder code \<Rightarrow> Some (s1\<lparr>es_err := es_err s @ [code], es_pc := Sv_returned code\<rparr>)
              | Ok_holder _ \<Rightarrow> Some (s1\<lparr>es_pc := Sv_wait\<rparr>))
      | Sv_wait \<Rightarrow>
          (let (r, u) = udp_wait_read U (es_socket s); (good, lines) = check_unit r
           in Some (s\<lparr>es_remote := fresh, es_socket := u, es_err := es_err s @ lines,
                es_pc := (if \<not> good then Sv_returned 1 else Sv_size)\<rparr>))
      | Sv_size \<Rightarrow>
          (let (n, lines) = check_value (udp_available U (es_socket s)); s1 = s\<lparr>es_err := es_err s @ lines\<rparr>
           in case opt_inner n of
                None \<Rightarrow> Some (s1\<lparr>es_pc := Sv_returned 1\<rparr>)
              | Some n_bytes \<Rightarrow> Some (s1\<lparr>es_buffer := resize n_bytes (es_buffer s), es_pc := Sv_recv\<rparr>))
      | Sv_recv \<Rightarrow>
          (let (r, from, u) = udp_recv_from A U (length (es_buffer s)) (es_remote s) (es_socket s);
               (n, lines) = check_value r;
               opened = snd (ensure_open U (is_v4 A (ep_addr (es_remote s))) (es_socket s));
               data = take (length (es_buffer s)) (rx (us_sock opened));
               s1 = s\<lparr>es_remote := from, es_socket := u, es_err := es_err s @ lines\<rparr>
           in if \<not> opt_has_value n then Some (s1\<lparr>es_pc := Sv_returned 1\<rparr>)
              else Some (s1\<lparr>es_buffer := fill data (es_buffer s), es_pc := Sv_spawn,
                     es_datagrams := es_datagrams s @ [(from, data)]\<rparr>))
      | Sv_spawn \<Rightarrow> Some ((echo_begin (es_remote s) (es_buffer s) s)\<lparr>es_pc := Sv_wait\<rparr>)
      | Sv_returned _ \<Rightarrow> None)"

datatype server_label = Main | Echo_sent nat

text \<open>When \<open>async_main\<close> returns, its socket is destroyed and with it the sends that asio still has.\<close>

fun server_step :: "('v4, 'v6, 'ip) asio_queries \<Rightarrow> ('ip, 's) asio_udp \<Rightarrow> ('s \<Rightarrow> byte list)
    \<Rightarrow> 'ip endpoint \<Rightarrow> server_label \<Rightarrow> ('ip, 's) echo_server \<Rightarrow> ('ip, 's) echo_server option" where
  "server_step Q U rx fresh Main s = main_step Q U rx fresh s"
| "server_step Q U rx fresh (Echo_sent i) s =
     (case es_pc s of Sv_returned _ \<Rightarrow> None | _ \<Rightarrow> echo_end (asio_ip.truncate Q) U i s)"

section \<open>The invariant\<close>

definition echoes :: "('ip endpoint \<times> byte list) \<Rightarrow> ('ip endpoint \<times> byte list) \<Rightarrow> bool" where
  "echoes d r \<longleftrightarrow> fst r = fst d \<and> take (length (snd d)) (snd r) = snd d"

definition server_inv :: "('ip, 's) echo_server \<Rightarrow> bool" where
  "server_inv s \<longleftrightarrow>
     list_all2 echoes (es_datagrams s) (es_spawned s @ (if es_pc s = Sv_spawn then [(es_remote s, es_buffer s)] else [])) \<and>
     mset (es_spawned s) = mset (es_sending s) + mset (es_sent s) \<and>
     es_out s = map (print_data \<circ> snd) (es_spawned s) \<and>
     (\<forall>c. es_pc s = Sv_returned c \<longrightarrow> c \<noteq> 0 \<and> es_err s \<noteq> [])"

lemma server_inv_init: "server_inv (server_init e s)"
  by (simp add: server_inv_def server_init_def)

lemma mset_nth_split: "i < length xs \<Longrightarrow> mset (take i xs @ drop (Suc i) xs) + {#xs ! i#} = mset xs"
  by (metis add_mset_add_single id_take_nth_drop mset.simps(2) mset_append union_mset_add_mset_right)

lemma fill_echoes: "echoes (e, data) (e, fill data bs)"
  by (simp add: echoes_def fill_def)

lemma received_echoes:
  "list_all2 echoes ds rs \<Longrightarrow> list_all2 echoes (ds @ [(e, data)]) (rs @ [(e, fill data bs)])"
  by (simp add: list_all2_appendI fill_echoes)

lemma bind_error_nonzero: "fst (bind_local A U e u) = Err_holder c \<Longrightarrow> c \<noteq> 0"
  by (auto simp: bind_local_def Let_def result_defs split: prod.splits if_splits)

lemma server_inv_echo_end:
  assumes inv: "server_inv s" and step: "echo_end A U i s = Some t" and on: "\<And>c. es_pc s \<noteq> Sv_returned c"
  shows "server_inv t"
proof -
  have "i < length (es_sending s)"
    using step by (auto simp: echo_end_def split: if_splits)
  note split = mset_nth_split [OF this]
  obtain e d where nth: "es_sending s ! i = (e, d)"
    by (cases "es_sending s ! i")
  obtain r u where send: "udp_send_to A U d e (es_socket s) = (r, u)"
    by (cases "udp_send_to A U d e (es_socket s)")
  have t: "t = s\<lparr>es_socket := u, es_err := es_err s @ snd (check_value r),
                 es_sending := take i (es_sending s) @ drop (Suc i) (es_sending s), es_sent := es_sent s @ [(e, d)]\<rparr>"
    using step nth send by (auto simp: echo_end_def split: if_splits)
  show ?thesis
    using inv on split nth unfolding server_inv_def t by auto
qed

lemma server_inv_main:
  assumes inv: "server_inv s" and step: "main_step Q U rx fresh s = Some t"
  shows "server_inv t"
proof (cases "es_pc s")
  case Sv_bind
  let ?b = "bind_local (asio_ip.truncate Q) U
    (endpoint_ctor (ip_of_ipv4 (asio_ip.truncate Q) (ipv4_any Q)) SERVER_PORT) (es_socket s)"
  obtain r u where b: "?b = (r, u)" by (cases ?b)
  with bind_error_nonzero [of "asio_ip.truncate Q" U] have "r = Err_holder c \<Longrightarrow> c \<noteq> 0" for c
    by (metis fst_conv)
  with inv step Sv_bind b show ?thesis
    by (cases r) (auto simp: main_step_def server_inv_def Let_def)
next
  case Sv_wait
  with inv step show ?thesis
    by (auto simp: main_step_def server_inv_def Let_def check_unit_def split: prod.splits result.splits)
next
  case Sv_size
  with inv step show ?thesis
    by (auto simp: main_step_def server_inv_def Let_def check_value_def opt_of_nullopt_def opt_default_def opt_of_value_def
        split: prod.splits result.splits)
next
  case Sv_recv
  with inv step show ?thesis
    by (auto simp: main_step_def server_inv_def Let_def check_value_def opt_of_nullopt_def opt_default_def opt_of_value_def
        opt_has_value_def intro: received_echoes split: prod.splits result.splits if_splits)
next
  case Sv_spawn
  with inv step show ?thesis
    by (simp add: main_step_def server_inv_def Let_def echo_begin_def) auto
next
  case (Sv_returned c)
  with step show ?thesis by (simp add: main_step_def)
qed

lemma server_inv_step:
  assumes "server_inv s" and "server_step Q U rx fresh l s = Some t"
  shows "server_inv t"
proof (cases l)
  case Main
  with assms show ?thesis by (auto intro: server_inv_main)
next
  case (Echo_sent i)
  with assms show ?thesis by (auto intro: server_inv_echo_end split: server_pc.splits)
qed

lemma reach_server_inv: "reach (server_init e s0) (server_step Q U rx fresh) s \<Longrightarrow> server_inv s"
  by (induction rule: reach.induct) (auto intro: server_inv_init server_inv_step)

section \<open>Properties\<close>

text \<open>
  C38: the echo server, however its sends and its listening interleave: for each datagram received, in order, one
  echo is spawned, or is about to be; it is addressed to the datagram's sender and begins with the datagram's bytes, and
  when it is as long it is the datagram. Each echo was printed when it was spawned, and is sent once or
  still with asio. The server never ends normally: when it returns it is with a code that is not 0, after
  a line on the error output.
\<close>

theorem echo_replies:
  assumes "reach (server_init e s0) (server_step Q U rx fresh) s"
  shows "list_all2 (\<lambda>(from, data) (to, reply). to = from \<and> take (length data) reply = data \<and>
             (length reply = length data \<longrightarrow> reply = data))
           (es_datagrams s) (es_spawned s @ (if es_pc s = Sv_spawn then [(es_remote s, es_buffer s)] else [])) \<and>
         mset (es_spawned s) = mset (es_sending s) + mset (es_sent s) \<and>
         es_out s = map (\<lambda>(to, reply). print_data reply) (es_spawned s) \<and>
         (\<forall>c. es_pc s = Sv_returned c \<longrightarrow> c \<noteq> 0 \<and> es_err s \<noteq> [])"
proof -
  have "list_all2 (\<lambda>(from, data) (to, reply). to = from \<and> take (length data) reply = data \<and>
             (length reply = length data \<longrightarrow> reply = data)) ds rs"
    if "list_all2 echoes ds rs" for ds rs :: "('a endpoint \<times> byte list) list"
    using that by (rule list_all2_mono) (auto simp: echoes_def)
  moreover have "map (print_data \<circ> snd) xs = map (\<lambda>(to, reply). print_data reply) xs"
    for xs :: "('a endpoint \<times> byte list) list"
    by (simp add: case_prod_beta comp_def)
  ultimately show ?thesis
    using reach_server_inv [OF assms] unfolding server_inv_def by simp
qed

text \<open>
  A socket for the witnesses: a script of batches of datagrams, of which each wait brings the next, and the
  datagrams queued; \<open>available\<close> counts all that is queued, as the BSD sockets and Windows do.
\<close>

type_synonym script =
  "((string + string) endpoint \<times> byte list) list list \<times> ((string + string) endpoint \<times> byte list) list"

definition script_udp :: "(string + string, script) asio_udp" where
  "script_udp = \<lparr>so_is_open = (\<lambda>_. True), so_open = (\<lambda>_ s. (0, s)), so_bind = (\<lambda>_ s. (0, s)),
     so_connect = (\<lambda>_ s. (0, s)), so_send = (\<lambda>b s. (0, length b, s)), so_send_to = (\<lambda>b _ s. (0, length b, s)),
     so_receive = (\<lambda>_ s. (0, 0, s)),
     so_receive_from = (\<lambda>n e (bs, q). case q of [] \<Rightarrow> (11, 0, e, (bs, q))
                          | (from, d) # ds \<Rightarrow> (0, min n (length d), from, (bs, ds))),
     so_wait = (\<lambda>_ (bs, q). case bs of [] \<Rightarrow> (if q = [] then (4, (bs, q)) else (0, (bs, q)))
                  | b # cs \<Rightarrow> (0, (cs, q @ b))),
     so_available = (\<lambda>(bs, q). (0, length (concat (map snd q))))\<rparr>"

definition script_rx :: "script \<Rightarrow> byte list" where
  "script_rx s = (case snd s of [] \<Rightarrow> [] | (from, d) # ds \<Rightarrow> d)"

definition at_host :: "string \<Rightarrow> (string + string) endpoint" where
  "at_host a = endpoint_ctor (Ip (Inl a)) 5000"

theorem echo_replies_witness:
  "\<exists>s. reach (server_init (at_host ''0'') ([[(at_host ''1'', [1, 2])]], []))
          (server_step text_asio script_udp script_rx (at_host ''0'')) s \<and>
       es_datagrams s = [(at_host ''1'', [1, 2])] \<and> es_spawned s = [(at_host ''1'', [1, 2])] \<and>
       es_pc s = Sv_returned 1 \<and> es_sent s = [(at_host ''1'', [1, 2])] \<and>
       es_out s = [print_data [1, 2]]"
proof -
  have "run_sat (server_step text_asio script_udp script_rx (at_host ''0''))
      [Main, Main, Main, Main, Main, Echo_sent 0, Main]
      (server_init (at_host ''0'') ([[(at_host ''1'', [1, 2])]], []))
      (\<lambda>s. es_datagrams s = [(at_host ''1'', [1, 2])] \<and> es_spawned s = [(at_host ''1'', [1, 2])] \<and>
        es_pc s = Sv_returned 1 \<and> es_sent s = [(at_host ''1'', [1, 2])])"
    by code_simp
  then obtain s where s: "reach (server_init (at_host ''0'') ([[(at_host ''1'', [1, 2])]], []))
      (server_step text_asio script_udp script_rx (at_host ''0'')) s"
    and d: "es_datagrams s = [(at_host ''1'', [1, 2])]" "es_spawned s = [(at_host ''1'', [1, 2])]"
    "es_pc s = Sv_returned 1" "es_sent s = [(at_host ''1'', [1, 2])]"
    by (elim run_satE) blast
  from echo_replies [OF s] d have "es_out s = [print_data [1, 2]]" by simp
  with s d show ?thesis by blast
qed

text \<open>
  The number of bytes that \<open>recv_from\<close> reports is thrown away, and what is sent back is the whole buffer. Where
  \<open>available\<close> counts more than the next datagram, the rest of the buffer is what the datagram before left in it:
  here the second client is sent a byte of the first one's. Nor is the size ever compared with \<open>BUFFER_SIZE\<close>.
\<close>

theorem echo_leaks:
  "\<exists>s. reach (server_init (at_host ''0'')
            ([[(at_host ''1'', [7, 8])], [(at_host ''2'', [5]), (at_host ''2'', [6])]], []))
          (server_step text_asio script_udp script_rx (at_host ''0'')) s \<and>
       es_sent s = [(at_host ''1'', [7, 8]), (at_host ''2'', [5, 8])]"
proof -
  have "run_sat (server_step text_asio script_udp script_rx (at_host ''0''))
      [Main, Main, Main, Main, Main, Echo_sent 0, Main, Main, Main, Main, Echo_sent 0]
      (server_init (at_host ''0'') ([[(at_host ''1'', [7, 8])], [(at_host ''2'', [5]), (at_host ''2'', [6])]], []))
      (\<lambda>s. es_sent s = [(at_host ''1'', [7, 8]), (at_host ''2'', [5, 8])])"
    by code_simp
  then show ?thesis by (elim run_satE) blast
qed

theorem echo_any_size:
  assumes "es_pc s = Sv_size" and "so_available U (us_sock (es_socket s)) = (0, n)"
  shows "\<exists>t. main_step Q U rx fresh s = Some t \<and> es_pc t = Sv_recv \<and> length (es_buffer t) = n"
  using assms
  by (simp add: main_step_def udp_available_def check_value_def result_defs opt_of_value_def resize_def Let_def)

end
