(* ===== verification/Spec2Isabelle.thy ===== *)
theory Spec2Isabelle
  imports Lfqueue_Spsc Mutex_Accesses Shared_Mutex_Accesses Cv_Accesses Pool_Accesses Lfqueue_Data Value_Categories Type_Kinds Special_Members Locks Cv_Predicate
    Coroutine_Calls Join_Handle Blocking_Service Block_On Executor_Shutdown Sleep Stream
    Erased_Calls Address_Overloads Ip_Conversions Resolve_Async Udp_Tasks Echo_Server
begin

text \<open>
  A model of Crasy, a C++20 coroutine library over ASIO, and what is proved of it.

  \<^bold>\<open>The program.\<close> An \<open>executor\<close> owns two sets of threads: core workers that run the I/O context,
  where coroutines are resumed, and blocking workers that run plain functions. Coroutines suspend by
  leaving their handle with whoever will wake them: an \<open>io_future\<close> (the completion handlers of UDP
  and resolver operations), the promise of a \<open>future\<close> or of a spawned task, the state block of a
  blocking task, the lock-free queue of a \<open>mutex\<close>, \<open>shared_mutex\<close> or
  \<open>condition_variable\<close>. All of these wake a task with \<open>detail::schedule_task\<close>, which posts it to
  the I/O context of the thread's executor. The blocking workers take their tasks from the same
  kind of lock-free queue. \<open>option\<close> and \<open>result\<close> carry absent values and errors throughout.

  \<^bold>\<open>Theories\<close>, in the order they build on each other:

  \<^item> \<open>Prelude\<close>: exceptions and undefined behaviour as the values of \<open>fault\<close>; handles, and the
    posted tasks of an executor (\<open>exec_ctx\<close>, \<open>schedule_task\<close> of src/executor.cpp); computations
    with a state that may fail (\<open>comp\<close>, and \<open>prog\<close> where a loop may not end); lists of cells.
  \<^item> \<open>Queue_Interface\<close>: the locale of a queue that may answer a pop with nothing although it is not
    empty, and what its clients need of it. \<open>Lfqueue\<close>: \<open>lfqueue\<close> (lfqueue.hpp) as a heap of linked
    entries with a free list, and the interpretation of that locale on it.
  \<^item> \<open>Transition\<close>: runs of labels and reachability, for every interleaving below.
    \<open>Progress_Interface\<close>: the locale of a system that winds down, whose own steps lower a rank.
  \<^item> \<open>Lfqueue_Atomic\<close>: the same queue one access at a time, for any number of threads, of values (whose construction
    and whose flag are two accesses) and of references (one access); run
    alone it is the sequential queue, and two pushing or two popping threads can make it lose elements, and deliver a value twice.
    \<open>Lfqueue_Invariant\<close>: what the accesses of one push and of one pop that interleave keep.
    \<open>Lfqueue_Orderly\<close>: the runs of any number of threads in which no two pushes and no two pops overlap; there the queue delivers
    in order. \<open>Lfqueue_Spsc\<close>: one pushing and one popping thread, all of whose runs are such.
    \<open>Lfqueue_Ledger\<close>: a queue of references, in every run, delivers nothing twice and invents nothing.
    \<open>Queue_Accesses\<close>: the locale of a client that reaches a queue by these accesses only.
    \<open>Lfqueue_Data\<close>: the storage of an entry, as bytes with a lifetime and as a nullable pointer.
  \<^item> \<open>Mutex\<close> (mutex.hpp, mutex.cpp), \<open>Shared_Mutex\<close> (shared_mutex.hpp, .cpp): the operations, and
    step systems of any number of tasks on a mutex, in the runs in which its queue operations do not overlap, and of any number of
    threads on the state word of a shared mutex.
    \<open>Suspended_Tasks\<close>: threads whose tasks suspend into a queue and are scheduled from it, abstractly, and the
    locale of the systems that take only such steps. \<open>Mutex_Accesses\<close> and \<open>Shared_Mutex_Accesses\<close>
    interleave the two mutexes with the queue's own accesses, and are interpretations of it;
    \<open>Cv_Accesses\<close> does the same for the condition variable.
  \<^item> \<open>Crasy_Option\<close>, \<open>Crasy_Result\<close> (option.hpp, result.hpp). \<open>Value_Categories\<close>: their maps
    in the four value categories, and the holders of a result. \<open>Type_Kinds\<close>: their member types and
    the traits of detail.hpp, as functions on C++ types. \<open>Special_Members\<close>: the copies and moves that every class of
    the library declares, defaults or deletes, and what follows for the types built from them.
  \<^item> \<open>Lock_Interface\<close>: the locales of a lockable type, of one that can be waited for and of one whose
    wait can be probed, and lock_guard.hpp's \<open>lock(m1, m2, ...)\<close> over them. \<open>Ownership\<close>: the locale of
    handles that release what they own when destroyed. \<open>Locks\<close>: \<open>lock_guard\<close>, \<open>unique_lock\<close>, and the
    interpretations on worlds of mutexes and of shared mutexes.
  \<^item> \<open>Condition_Variable\<close> (condition_variable.hpp, .cpp); \<open>Cv_Predicate\<close>: waiting with a predicate.
  \<^item> \<open>Wake_Interface\<close>: the locale of a one-shot event that one task waits for: \<open>await_ready\<close>,
    \<open>await_suspend\<close> and the completion as three atomic actions, and the theorem that the task is
    scheduled exactly once. Interpreted on \<open>Io_Future\<close> (io_future.hpp, .cpp, and the operation futures
    of udp.cpp), \<open>Spawn\<close> (spawn.hpp) and \<open>Spawn_Blocking\<close> (spawn_blocking.hpp). \<open>Future\<close> (future.hpp)
    does not satisfy it, and has a theorem that says how.
  \<^item> \<open>Specialisation\<close>: the locale of a class that does what another does up to what is forgotten of
    its state, interpreted on the explicit specialisations for \<^verbatim>\<open>void\<close>: \<open>Future_Void\<close>,
    \<open>Spawn_Void\<close> (which also has \<open>spawn\<close> itself) and \<open>Spawn_Blocking_Void\<close>.
    \<open>Join_Handle\<close>: \<open>join_handle\<close>, and any number of tasks and handles.
    \<open>Coroutine_Calls\<close>: how a call of a coroutine starts, for every promise type.
  \<^item> \<open>Worker_Pool\<close>: what the executor's two pools share: one mutex, one condition variable, sums over
    threads. \<open>Executor\<close> (executor.hpp, executor.cpp, utils.cpp): the blocking pool, construction and
    the thread's guard; \<open>Pool_Accesses\<close> interleaves that pool with the queue's own accesses.
    \<open>Core_Workers\<close>: the core pool, and what \<open>block_on\<close> delivers.
    \<open>Executor_Shutdown\<close>: the destructor against both pools. \<open>Blocking_Service\<close>: the state blocks of
    \<open>spawn_blocking\<close> on the blocking pool. \<open>Block_On\<close>: one call of \<open>block_on_impl\<close>, access by access.
    \<open>Erased_Calls\<close>: the functions that \<open>block_on\<close> and \<open>spawn_blocking\<close> pass on as \<^verbatim>\<open>void*\<close>.
  \<^item> \<open>Sleep\<close> (sleep.hpp) with its timer, \<open>Stream\<close> (stream.hpp), \<open>Ip_Address\<close>, \<open>Ip_Queries\<close> and \<open>Ip_Conversions\<close>
    (ip_address.hpp, ip_address.cpp, endpoint.hpp), \<open>Address_Overloads\<close> for the overload resolution among their constructors, \<open>Resolve\<close> (resolve.hpp, resolve.cpp) with
    \<open>Resolve_Async\<close> for its futures.
  \<^item> \<open>Udp\<close> (udp.hpp, udp.cpp): the operations of a socket by their completion. \<open>Buffers\<close>: the concepts
    of utils.hpp, the overloads that use them, and internal.hpp. \<open>Udp_Async\<close>: the same operations
    step by step, for any number of tasks on one socket; \<open>Udp_Tasks\<close> has what is proved of them.
  \<^item> \<open>Print_Data\<close>, \<open>Echo_Server\<close>: the example program (examples/) on the model of \<open>udp_socket\<close>.

  \<^bold>\<open>How the code is represented.\<close> A class is a record of its members; a member function is a function
  from the state, its arguments and the executor's context to a result and the new state. A \<open>throw\<close> is
  \<open>Inl (Throw e)\<close>; undefined behaviour the code can run into (dereferencing an empty option, using a
  destroyed frame or block, reading an uninitialised member) is \<open>Inl (Undefined u)\<close> rather than an
  arbitrary value. \<open>std::size_t\<close> is \<open>64 word\<close>, ports are \<open>16 word\<close>, bytes \<open>8 word\<close>. Moves that only
  save copies are not distinguished, outside \<open>Value_Categories\<close>; where the code observes a moved-from
  value, what moving leaves behind is a parameter. Loops that may not end are \<open>partial_function (option)\<close>: for the
  ones that do end (the drain of a shared mutex, \<open>notify_all\<close>, the destructor of the queue, the
  deciding rounds of \<open>lock\<close>) there is a theorem that the result is \<open>Some\<close>. There is no fuel.

  \<^bold>\<open>Interleavings.\<close> Step systems are functions from a label and a state to the next state, one label for
  each atomic access or critical section under one \<open>std::mutex\<close>; \<open>reach\<close> is every finite sequence of
  them, so an invariant of \<open>reach\<close> holds in every interleaving of these steps. They are sequentially consistent
  (\<open>memory_order_relaxed\<close> is read as if it were stronger).

  The lock-free queue is where threads meet most. Its entries are recycled, so that with two threads in a push, or two in a pop,
  elements can be lost (\<open>lfq_aba_loses_elements\<close>), and two threads can own one entry, so that a value pushed once is delivered
  twice (\<open>lfq_value_delivered_twice\<close>). What holds of a queue of values, and so of the mutexes and of the blocking workers, is therefore
  stated for orderly runs (\<open>in_order\<close>): every interleaving of the single accesses in which no two pushes
  overlap and no two pops overlap, whichever threads they are of, while a push and a pop overlap as they may. There
  nothing is lost, nothing comes twice, and all is in order (\<open>lfq_orderly_fifo\<close>). One pushing
  and one popping thread have no other runs (\<open>lfq_spsc_fifo\<close>). A queue of references, that of a condition variable, delivers nothing twice in
  any run (\<open>lfq_nothing_twice\<close>), though it can lose elements too. \<open>Mutex_Accesses\<close>, \<open>Shared_Mutex_Accesses\<close>,
  \<open>Cv_Accesses\<close>, \<open>Pool_Accesses\<close> and \<open>Blocking_Service\<close> are the clients at these accesses. The systems of \<open>Mutex\<close>,
  \<open>Condition_Variable\<close>, \<open>Executor\<close> and \<open>Executor_Shutdown\<close> take a queue operation as one step: their runs are those of the code in which
  queue operations do not overlap at all, and each says so.
  \<^verbatim>\<open>std::condition_variable\<close> may wake spuriously in every system that has one, and no theorem
  that something happens counts on it.

  \<^bold>\<open>Parameters.\<close> ASIO (the I/O context, sockets, timers, addresses, the resolver) and \<open>sysconf\<close> are not in the
  repository: they are records of functions given to the definitions that call them. What a theorem needs of
  them is a named hypothesis of it, with a witness that instantiates it.

  \<^bold>\<open>What is shown.\<close> The queue refines a list of cells, delivers in order and deletes what it allocated; with its accesses interleaved
  it does so in the orderly runs described above. The pop that a previous pop's
  left-over makes empty is part of that specification and explains the lost wake-ups and dropped tasks of
  its clients. In orderly runs the waiters of a mutex, of a shared mutex and of a condition variable are each kept once and
  resumed or woken in order, and the blocking tasks are taken in order, once each. The exclusion of a mutex holds for tasks
  that never suspended and fails after a resumption, also for \<open>lock(m1, m2, ...)\<close>, which otherwise locks all or waits holding none.
  The fast paths of \<open>shared_mutex\<close> exclude, and its state word counts exactly for those who use only them. Guards unlock exactly
  once. I/O operations, spawned tasks and blocking tasks wake the task that awaits them exactly
  once, and a sleep does at most once and not too early; their frames and blocks are freed exactly once, except by the detaching uses that are shown to be
  use after free. A call of \<open>block_on\<close> waits for its function and
  misses no wake-up; the core workers' notification is not lost; and the destructor can always run to its
  end, after which no worker is left. Tasks that share a socket are each woken once, and an
  operation the others leave alone is the call that \<open>Udp\<close> describes. The echo server answers each datagram's sender,
  in order, with the datagram's bytes first. The specialisations for \<^verbatim>\<open>void\<close> do what their templates do.

  Where the code does not do what it means to, the theorem states what it does: \<open>lfq_aba_loses_elements\<close>, \<open>lfq_value_delivered_twice\<close>,
  \<open>mutex_resumed_waiter_not_exclusive\<close>, \<open>multi_lock_returns_unlocked\<close>, \<open>shared_mutex_lock_shared_is_exclusive\<close>,
  \<open>cv_wait_broken\<close>, \<open>cv_wait_broken_by_access\<close>, \<open>cv_wait_pred_broken\<close>, \<open>future_woken_iff_suspended_first\<close>, \<open>block_on_returns_too_early\<close>,
  \<open>block_on_twice_hangs\<close>, \<open>blocking_lost_notification\<close>, \<open>blocking_tasks_after_shutdown\<close>,
  \<open>sleep_destroyed_use_after_free\<close>, \<open>stream_delivers_last_for_ever\<close>, \<open>udp_endpoints\<close>, \<open>udp_open_race\<close>,
  \<open>blocking_lost_task_spins\<close>, \<open>mutex_awaiter_outlived\<close>, \<open>shared_mutex_awaiter_outlived\<close>, \<open>no_type_is_a_buffer\<close>, \<open>no_array_makes_an_address\<close>,
  \<open>blocking_function_outlived\<close>, \<open>print_data_ambiguous\<close>, \<open>echo_leaks\<close> and others.

  \<^bold>\<open>Not modelled.\<close> Weak memory; what clients of a queue of values do in runs where two pushes or two pops overlap, beyond the losses and the double
  delivery shown; the compiler's coroutine frames beyond the promise; what ASIO does inside; the
  build files, and the test program, which prints one word. \<open>mutex::lock\<close>, \<open>shared_mutex::lock\<close> and \<open>lock_shared\<close> have no definition in
  the sources: the models start at the futures those functions are declared to return.
\<close>

section \<open>The classes written twice\<close>

text \<open>
  C32: the explicit specialisations for \<^verbatim>\<open>void\<close> of \<open>future\<close>, \<open>join_handle_impl\<close> and
  \<open>blocking_join_handle\<close> behave as their templates at the unit type: any client that finishes,
  asks, suspends, resumes and detaches in any order makes the same observations and leaves the same
  state and the same scheduled tasks, except that \<open>await_resume\<close> without a value is not undefined;
  and that \<open>blocking_join_handle<void>\<close> answers every \<open>await_resume\<close> as a success, also when the
  function threw.
\<close>

theorem void_specialisations_agree:
  "observe fv_obs xs (fut_forget p, ex) =
     (map2 erase_value xs (fst (observe fut_obs xs (p, ex))), apfst fut_forget (snd (observe fut_obs xs (p, ex)))) \<and>
   observe jv_obs ys (jh_forget fr, ex) =
     (map2 erase_await ys (fst (observe jh_obs ys (fr, ex))), apfst jh_forget (snd (observe jh_obs ys (fr, ex)))) \<and>
   observe bv_obs ys (bj_forget b, ex) =
     (map2 erase_resume ys (fst (observe bj_obs ys (b, ex))), apfst bj_forget (snd (observe bj_obs ys (b, ex))))"
  using fvs.observe_special [of xs "(p, ex)"] jvs.observe_special [of ys "(fr, ex)"]
    bvs.observe_special [of ys "(b, ex)"] by simp

end
